(* ===== verification/Iohttp_Prelude.thy ===== *)
theory Iohttp_Prelude
  imports Main "HOL-Library.Word" "HOL-Library.Sublist"
begin

text \<open>
  Shared vocabulary of the development: the C types the sources use, error codes as a datatype,
  C strings as character lists, and the generic facts about lists, options and splitting at a
  delimiter that the component theories share.

  A buffer \<^verbatim>\<open>(const char *p, size_t len)\<close> is the list of its \<open>len\<close> bytes.
  A position inside a buffer is modelled by the suffix that starts there, so that the bound
  \<^verbatim>\<open>pos < len\<close> of the C code is \<open>suffix \<noteq> []\<close>.
  A pointer that may be \<^verbatim>\<open>nullptr\<close> is an option.
\<close>

type_synonym u8 = "8 word"
type_synonym u16 = "16 word"
type_synonym u32 = "32 word"
type_synonym u64 = "64 word"
type_synonym size_t = "64 word"

text \<open>The error codes the sources return as negative integers.\<close>

datatype errno =
    EINVAL | ENOENT | EAGAIN | ENOMEM | EEXIST | ENOSPC | E2BIG | EBADF | EBUSY
  | EALREADY | EIO | ETIME | ECANCELED | EINTR | ERANGE | EPROTO | ENOTSUP | ECONNRESET
  | EACCES | ENAMETOOLONG

text \<open>An operation that mutates its state: the status and the state it leaves behind.\<close>

type_synonym ('a, 's) outcome = "(errno + 'a) \<times> 's"

text \<open>
  A socket address as the sources fill it in: the address bytes in network order and the port.
\<close>

datatype sockaddr = No_Addr | Inet string u16 | Inet6 string u16

abbreviation slash :: char where
  "slash \<equiv> CHR ''/''"

abbreviation nul :: char where
  "nul \<equiv> CHR 0x00"

abbreviation cr :: char where
  "cr \<equiv> CHR 0x0D"

abbreviation lf :: char where
  "lf \<equiv> CHR 0x0A"

abbreviation tab :: char where
  "tab \<equiv> CHR 0x09"

abbreviation dquote :: char where
  "dquote \<equiv> CHR 0x22"

text \<open>The value of a byte, as \<^verbatim>\<open>(unsigned char)c\<close> reads it.\<close>

abbreviation byte_val :: "char \<Rightarrow> nat" where
  "byte_val \<equiv> of_char"

text \<open>
  \<^verbatim>\<open>strcmp(a, b) < 0\<close>: the first difference decides, compared as unsigned bytes; a proper
  prefix is smaller.
\<close>

fun strcmp_lt :: "string \<Rightarrow> string \<Rightarrow> bool" where
  "strcmp_lt [] [] = False"
| "strcmp_lt [] (b # bs) = True"
| "strcmp_lt (a # as) [] = False"
| "strcmp_lt (a # as) (b # bs) =
     (if a = b then strcmp_lt as bs else byte_val a < byte_val b)"

text \<open>ASCII case folding and \<^verbatim>\<open>strncasecmp(a, b, n) == 0\<close> on operands of the same length.\<close>

definition to_lower :: "char \<Rightarrow> char" where
  "to_lower c = (if 65 \<le> byte_val c \<and> byte_val c \<le> 90 then char_of (byte_val c + 32) else c)"

definition ci_eq :: "string \<Rightarrow> string \<Rightarrow> bool" where
  "ci_eq a b \<longleftrightarrow> map to_lower a = map to_lower b"

definition is_digit :: "char \<Rightarrow> bool" where
  "is_digit c \<longleftrightarrow> 48 \<le> byte_val c \<and> byte_val c \<le> 57"

definition digit_val :: "char \<Rightarrow> nat" where
  "digit_val c = byte_val c - 48"

text \<open>
  The C string that starts at a pointer: what a \<^verbatim>\<open>strlen\<close>, \<^verbatim>\<open>strcmp\<close> or \<^verbatim>\<open>strdup\<close>
  sees of the memory from there on.
\<close>

definition cstr :: "string \<Rightarrow> string" where
  "cstr mem = takeWhile (\<lambda>c. c \<noteq> nul) mem"

text \<open>\<^verbatim>\<open>snprintf(buf, size, "%u", n)\<close>: the decimal digits of a number.\<close>

fun dec_digits :: "nat \<Rightarrow> string" where
  "dec_digits n =
     (if n < 10 then [char_of (48 + n)] else dec_digits (n div 10) @ [char_of (48 + n mod 10)])"

declare dec_digits.simps [simp del]

text \<open>Reading a digit string, most significant digit first, without a bound.\<close>

definition dec_value :: "string \<Rightarrow> nat" where
  "dec_value ds = foldl (\<lambda>a c. a * 10 + digit_val c) 0 ds"

named_theorems wf_intros "facts that an operation keeps a well-formedness invariant"
named_theorems split_simps "facts on splitting a string at a delimiter"

lemma dropWhile_length_le [simp]: "length (dropWhile P xs) \<le> length xs"
  by (induction xs) auto

lemma dropWhile_less_Suc [simp, termination_simp]: "length (dropWhile P xs) < Suc (length xs)"
  by (simp add: le_imp_less_Suc)

lemma dropWhile_shrinks:
  assumes "q = dropWhile P p" and "q \<noteq> []" and "rest = dropWhile Q q" and "Q (hd q)"
  shows "length rest < length p"
proof -
  obtain x xs where q: "q = x # xs" using assms(2) by (cases q) auto
  then have "length rest \<le> length xs" using assms(3,4) by simp
  moreover have "length q \<le> length p" using assms(1) by simp
  ultimately show ?thesis using q by simp
qed

lemma takeWhile_no_delim [split_simps]: "d \<notin> set (takeWhile (\<lambda>c. c \<noteq> d) xs)"
  by (induction xs) auto

lemma takeWhile_append_delim [split_simps]:
  assumes "d \<notin> set s" and "r = [] \<or> hd r = d"
  shows "takeWhile (\<lambda>c. c \<noteq> d) (s @ r) = s"
proof -
  have "takeWhile (\<lambda>c. c \<noteq> d) (s @ r) = s @ takeWhile (\<lambda>c. c \<noteq> d) r"
    using assms(1) by (subst takeWhile_append2) auto
  then show ?thesis using assms(2) by (cases r) auto
qed

lemma dropWhile_append_delim [split_simps]:
  assumes "d \<notin> set s" and "r = [] \<or> hd r = d"
  shows "dropWhile (\<lambda>c. c \<noteq> d) (s @ r) = r"
proof -
  have "dropWhile (\<lambda>c. c \<noteq> d) (s @ r) = dropWhile (\<lambda>c. c \<noteq> d) r"
    using assms(1) by (subst dropWhile_append2) auto
  then show ?thesis using assms(2) by (cases r) auto
qed

lemma dropWhile_starts_with_delim [split_simps]:
  "dropWhile (\<lambda>c. c \<noteq> d) xs = [] \<or> hd (dropWhile (\<lambda>c. c \<noteq> d) xs) = d"
  by (induction xs) auto

lemma size_nth_less [termination_simp]:
  "i < length xs \<Longrightarrow> size (xs ! i) < Suc (size_list size xs)"
  by (meson le_imp_less_Suc nth_mem size_list_estimation' order_refl)

lemma strcmp_lt_irrefl [simp]: "\<not> strcmp_lt a a"
  by (induction a) auto

lemma strcmp_lt_total: "a \<noteq> b \<Longrightarrow> strcmp_lt a b \<or> strcmp_lt b a"
proof (induction a b rule: strcmp_lt.induct)
  case (4 a as b bs)
  then show ?case
    by (cases "a = b") (auto simp: neq_iff dest: of_char_eq_iff [THEN iffD2] intro: ccontr)
qed auto

lemma strcmp_lt_asym: "strcmp_lt a b \<Longrightarrow> \<not> strcmp_lt b a"
  by (induction a b rule: strcmp_lt.induct) (auto split: if_splits)

lemma ci_eq_refl [simp]: "ci_eq a a"
  by (simp add: ci_eq_def)

lemma ci_eq_sym: "ci_eq a b \<Longrightarrow> ci_eq b a"
  by (simp add: ci_eq_def)

lemma ci_eq_trans: "ci_eq a b \<Longrightarrow> ci_eq b c \<Longrightarrow> ci_eq a c"
  by (simp add: ci_eq_def)

lemma ci_eq_length: "ci_eq a b \<Longrightarrow> length a = length b"
  unfolding ci_eq_def by (metis length_map)

lemma cstr_no_nul [simp]: "nul \<notin> set s \<Longrightarrow> cstr s = s"
  unfolding cstr_def by (subst takeWhile_eq_all_conv) auto

lemma cstr_idem [simp]: "cstr (cstr s) = cstr s"
  by (rule cstr_no_nul) (simp add: cstr_def takeWhile_no_delim)

lemma dec_digits_all_digits: "\<forall>c \<in> set (dec_digits n). is_digit c"
proof (induction n rule: dec_digits.induct)
  case (1 n)
  show ?case
  proof (cases "n < 10")
    case True
    then show ?thesis by (simp add: dec_digits.simps [of n] is_digit_def)
  next
    case False
    with 1 have "\<forall>c \<in> set (dec_digits (n div 10)). is_digit c" by simp
    moreover have "is_digit (char_of (48 + n mod 10))"
      by (simp add: is_digit_def)
    ultimately show ?thesis using False by (simp add: dec_digits.simps [of n])
  qed
qed

lemma dec_value_snoc [simp]: "dec_value (ds @ [c]) = dec_value ds * 10 + digit_val c"
  by (simp add: dec_value_def)

lemma dec_value_digits: "dec_value (dec_digits n) = n"
proof (induction n rule: dec_digits.induct)
  case (1 n)
  show ?case
  proof (cases "n < 10")
    case True
    then show ?thesis
      by (simp add: dec_digits.simps [of n] dec_value_def digit_val_def)
  next
    case False
    with 1 show ?thesis
      by (simp add: dec_digits.simps [of n] digit_val_def)
  qed
qed

lemma dec_digits_nonempty [simp]: "dec_digits n \<noteq> []"
  by (subst dec_digits.simps) simp

lemma bex_list_update:
  assumes "i < length xs"
  shows "(\<exists>c\<in>set (xs[i := y]). P c) \<longleftrightarrow> P y \<or> (\<exists>j<length xs. j \<noteq> i \<and> P (xs ! j))"
proof -
  have "set (xs[i := y]) = insert y {xs ! j | j. j < length xs \<and> j \<noteq> i}"
    using assms by (auto simp: set_conv_nth nth_list_update)
  then show ?thesis by auto
qed

lemma bex_list_split:
  assumes "i < length xs"
  shows "(\<exists>c\<in>set xs. P c) \<longleftrightarrow> P (xs ! i) \<or> (\<exists>j<length xs. j \<noteq> i \<and> P (xs ! j))"
  using bex_list_update [OF assms, of "xs ! i" P] by simp

text \<open>Counters held in words.\<close>

lemma unat_bound: "unat (w :: 'a :: len word) < 2 ^ LENGTH('a)"
  by (rule unsigned_less)

lemma unat_increment: "unat w + 1 < 2 ^ LENGTH('a) \<Longrightarrow> unat (w + 1 :: 'a :: len word) = unat w + 1"
  by (simp add: unat_word_ariths)

lemma unat_decrement: "w \<noteq> 0 \<Longrightarrow> unat (w - 1 :: 'a :: len word) = unat w - 1"
  by (metis unat_minus_one)

end
