(* ===== verification/Radix.thy ===== *)
theory Radix
  imports Iohttp_Prelude
begin

text \<open>
  The radix trie of \<^verbatim>\<open>src/router/ioh_radix.c\<close>: compressed static edges, one parameter child
  and one wildcard child per node, insertion with edge splitting, and lookup with backtracking.

  A node is a record of its scalar fields and the list of its children, in the order the C array
  has them.  Handlers, route options and route metadata are opaque pointers, here the type
  variables \<open>'h\<close>, \<open>'o\<close> and \<open>'m\<close>; a null pointer is \<open>None\<close>.  An insertion mutates the
  tree in place also when it fails half-way, so it returns the status together with the tree it
  leaves behind.  Memory allocation succeeds: the \<^verbatim>\<open>-ENOMEM\<close> exits and the capacity field that
  only feeds \<^verbatim>\<open>realloc\<close> are not modelled.
\<close>

subsection \<open>Nodes\<close>

datatype node_type = NODE_STATIC | NODE_PARAM | NODE_WILDCARD

fun node_type_val :: "node_type \<Rightarrow> nat" where
  "node_type_val NODE_STATIC = 0"
| "node_type_val NODE_PARAM = 1"
| "node_type_val NODE_WILDCARD = 2"

record ('h, 'o, 'm) node_data =
  nd_prefix :: string
  nd_type :: node_type
  nd_param_name :: "string option"
  nd_handler :: "'h option"
  nd_metadata :: "'o option"
  nd_meta :: "'m option"
  nd_priority :: u32

datatype ('h, 'o, 'm) rnode =
  Node (ndata: "('h, 'o, 'm) node_data") (nchildren: "('h, 'o, 'm) rnode list")

abbreviation "nprefix n \<equiv> nd_prefix (ndata n)"
abbreviation "ntype n \<equiv> nd_type (ndata n)"
abbreviation "nparam n \<equiv> nd_param_name (ndata n)"
abbreviation "nhandler n \<equiv> nd_handler (ndata n)"

definition ioh_radix_node_create :: "string \<Rightarrow> node_type \<Rightarrow> ('h, 'o, 'm) rnode" where
  "ioh_radix_node_create pfx ty =
     Node \<lparr>nd_prefix = pfx, nd_type = ty, nd_param_name = None, nd_handler = None,
           nd_metadata = None, nd_meta = None, nd_priority = 0\<rparr> []"

text \<open>The test of the insertion loop: the new child goes in front of \<open>existing\<close>.\<close>

definition child_before :: "('h, 'o, 'm) rnode \<Rightarrow> ('h, 'o, 'm) rnode \<Rightarrow> bool" where
  "child_before child existing \<longleftrightarrow>
     node_type_val (ntype child) < node_type_val (ntype existing) \<or>
     (ntype child = ntype existing \<and> ntype child = NODE_STATIC \<and>
      strcmp_lt (nprefix child) (nprefix existing))"

fun insert_child :: "('h, 'o, 'm) rnode \<Rightarrow> ('h, 'o, 'm) rnode list \<Rightarrow> ('h, 'o, 'm) rnode list" where
  "insert_child child [] = [child]"
| "insert_child child (e # es) =
     (if child_before child e then child # e # es else e # insert_child child es)"

definition ioh_radix_node_add_child ::
  "('h, 'o, 'm) rnode \<Rightarrow> ('h, 'o, 'm) rnode \<Rightarrow> ('h, 'o, 'm) rnode" where
  "ioh_radix_node_add_child parent child =
     Node (ndata parent) (insert_child child (nchildren parent))"

fun common_prefix_len :: "string \<Rightarrow> string \<Rightarrow> nat" where
  "common_prefix_len (a # as) (b # bs) = (if a = b then Suc (common_prefix_len as bs) else 0)"
| "common_prefix_len _ _ = 0"

definition ioh_radix_increment_priority :: "('h, 'o, 'm) rnode \<Rightarrow> ('h, 'o, 'm) rnode" where
  "ioh_radix_increment_priority n =
     Node ((ndata n)\<lparr>nd_priority := nd_priority (ndata n) + 1\<rparr>) (nchildren n)"

text \<open>
  Splitting an edge: the intermediate node takes the common prefix and the old priority, the old
  node keeps the remainder.  The caller puts the result in the parent's slot.
\<close>

definition split_static_node :: "('h, 'o, 'm) rnode \<Rightarrow> nat \<Rightarrow> ('h, 'o, 'm) rnode" where
  "split_static_node existing split_pos =
     (let intermediate = ioh_radix_node_create (take split_pos (nprefix existing)) NODE_STATIC;
          existing' = Node ((ndata existing)\<lparr>nd_prefix := drop split_pos (nprefix existing)\<rparr>)
                        (nchildren existing);
          im = ioh_radix_node_add_child intermediate existing'
      in Node ((ndata im)\<lparr>nd_priority := nd_priority (ndata existing)\<rparr>) (nchildren im))"

text \<open>
  The next pattern segment at a position given by the suffix \<open>pat\<close>: one leading slash is skipped;
  \<open>None\<close> is the null result at the end of the pattern; the second component is the suffix at
  \<^verbatim>\<open>next_pos\<close>.
\<close>

definition skip_slash :: "string \<Rightarrow> string" where
  "skip_slash p = (case p of c # cs \<Rightarrow> if c = slash then cs else p | [] \<Rightarrow> [])"

definition next_segment :: "string \<Rightarrow> string option \<times> string" where
  "next_segment pat =
     (let p = skip_slash pat
      in if p = [] then (None, [])
         else (Some (takeWhile (\<lambda>c. c \<noteq> slash) p), dropWhile (\<lambda>c. c \<noteq> slash) p))"

subsection \<open>Insertion\<close>

text \<open>The value a route stores: handler, options and metadata.\<close>

record ('h, 'o, 'm) route_val =
  rv_handler :: 'h
  rv_metadata :: "'o option"
  rv_meta :: "'m option"

definition store_route ::
  "('h, 'o, 'm) route_val \<Rightarrow> ('h, 'o, 'm) rnode \<Rightarrow> ('h, 'o, 'm) rnode" where
  "store_route v n =
     Node ((ndata n)\<lparr>nd_handler := Some (rv_handler v), nd_metadata := rv_metadata v,
                     nd_meta := rv_meta v\<rparr>) (nchildren n)"

text \<open>The tail of \<^verbatim>\<open>insert_recursive\<close> where the pattern ends at this node.\<close>

definition set_handler_here ::
  "('h, 'o, 'm) route_val \<Rightarrow> ('h, 'o, 'm) rnode \<Rightarrow> (unit, ('h, 'o, 'm) rnode) outcome" where
  "set_handler_here v n =
     (if nhandler n \<noteq> None then (Inl EEXIST, n)
      else (Inr (), ioh_radix_increment_priority (store_route v n)))"

text \<open>The loop over the children that looks for a static child sharing a first character.\<close>

fun find_static_child :: "string \<Rightarrow> ('h, 'o, 'm) rnode list \<Rightarrow> nat option" where
  "find_static_child s [] = None"
| "find_static_child s (c # cs) =
     (if ntype c = NODE_STATIC \<and> common_prefix_len s (nprefix c) \<noteq> 0 then Some 0
      else map_option Suc (find_static_child s cs))"

text \<open>The loops that look for the first parameter or wildcard child.\<close>

fun find_child_of_type :: "node_type \<Rightarrow> ('h, 'o, 'm) rnode list \<Rightarrow> nat option" where
  "find_child_of_type ty [] = None"
| "find_child_of_type ty (c # cs) =
     (if ntype c = ty then Some 0 else map_option Suc (find_child_of_type ty cs))"

definition named_node :: "node_type \<Rightarrow> string \<Rightarrow> ('h, 'o, 'm) rnode" where
  "named_node ty name =
     (let n = ioh_radix_node_create [] ty
      in Node ((ndata n)\<lparr>nd_param_name := Some name\<rparr>) [])"

definition insert_wildcard ::
  "('h, 'o, 'm) rnode \<Rightarrow> string \<Rightarrow> ('h, 'o, 'm) route_val \<Rightarrow> (unit, ('h, 'o, 'm) rnode) outcome"
where
  "insert_wildcard n name v =
     (case find_child_of_type NODE_WILDCARD (nchildren n) of
        Some i \<Rightarrow>
          (let c = nchildren n ! i
           in if nparam c \<noteq> Some name then (Inl EEXIST, n)
              else if nhandler c \<noteq> None then (Inl EEXIST, n)
              else (Inr (), ioh_radix_increment_priority
                     (Node (ndata n) ((nchildren n)[i := ioh_radix_increment_priority (store_route v c)]))))
      | None \<Rightarrow>
          (let wc = store_route v (named_node NODE_WILDCARD name);
               wc' = Node ((ndata wc)\<lparr>nd_priority := 1\<rparr>) []
           in (Inr (), ioh_radix_increment_priority (ioh_radix_node_add_child n wc'))))"

lemma next_segment_shorter:
  "next_segment pat = (Some (s # name), rest) \<Longrightarrow> length rest < length pat"
proof -
  assume a: "next_segment pat = (Some (s # name), rest)"
  define p where "p = skip_slash pat"
  have p: "length p \<le> length pat"
    by (auto simp: p_def skip_slash_def split: list.splits)
  from a have tw: "takeWhile (\<lambda>c. c \<noteq> slash) p = s # name" and rest: "rest = dropWhile (\<lambda>c. c \<noteq> slash) p"
    by (auto simp: next_segment_def p_def Let_def split: if_splits)
  have "length p = length (takeWhile (\<lambda>c. c \<noteq> slash) p) + length (dropWhile (\<lambda>c. c \<noteq> slash) p)"
    by (metis length_append takeWhile_dropWhile_id)
  with tw rest p show ?thesis by simp
qed

lemma size_child_less: "i < length (nchildren n) \<Longrightarrow> size (nchildren n ! i) < size n"
  by (cases n) (auto intro: size_nth_less order_less_le_trans)

lemma find_static_child_SomeD:
  "find_static_child s cs = Some i \<Longrightarrow>
     i < length cs \<and> ntype (cs ! i) = NODE_STATIC \<and> common_prefix_len s (nprefix (cs ! i)) \<noteq> 0"
  by (induction cs arbitrary: i) (auto split: if_splits)

lemma find_child_of_type_SomeD:
  "find_child_of_type ty cs = Some i \<Longrightarrow> i < length cs \<and> ntype (cs ! i) = ty"
  by (induction cs arbitrary: i) (auto split: if_splits)

text \<open>
  The two mutually recursive insertion routines.  In the source the segment pointer runs on to the
  end of the pattern, so the string \<^verbatim>\<open>common_prefix_len\<close> compares is \<open>seg @ rest\<close>.
\<close>

function (sequential)
  insert_static_segment ::
    "('h, 'o, 'm) rnode \<Rightarrow> string \<Rightarrow> string \<Rightarrow> ('h, 'o, 'm) route_val
     \<Rightarrow> (unit, ('h, 'o, 'm) rnode) outcome" and
  insert_recursive ::
    "('h, 'o, 'm) rnode \<Rightarrow> string \<Rightarrow> ('h, 'o, 'm) route_val
     \<Rightarrow> (unit, ('h, 'o, 'm) rnode) outcome"
where
  "insert_static_segment n seg rest v =
     (case find_static_child (seg @ rest) (nchildren n) of
        Some i \<Rightarrow>
          (let child = nchildren n ! i;
               cplen = common_prefix_len (seg @ rest) (nprefix child);
               put = (\<lambda>c'. Node (ndata n) ((nchildren n)[i := c']))
           in if cplen = length (nprefix child) \<and> cplen = length seg then
                map_prod id put (insert_recursive child rest v)
              else if cplen < length (nprefix child) then
                (let intermediate = split_static_node child cplen
                 in if cplen = length seg then
                      map_prod id put (insert_recursive intermediate rest v)
                    else
                      (let (rc, new_child) =
                         insert_recursive (ioh_radix_node_create (drop cplen seg) NODE_STATIC) rest v
                       in (rc, put (ioh_radix_node_add_child intermediate new_child))))
              else
                map_prod id put (insert_static_segment child (drop cplen seg) rest v))
      | None \<Rightarrow>
          (let (rc, new_child) =
             insert_recursive (ioh_radix_node_create seg NODE_STATIC) rest v
           in (rc, ioh_radix_node_add_child n new_child)))"
| "insert_recursive n pat v =
     (if pat = [] then set_handler_here v n
      else (case next_segment pat of
          (None, _) \<Rightarrow> set_handler_here v n
        | (Some [], _) \<Rightarrow> set_handler_here v n
        | (Some (s # name), rest) \<Rightarrow>
            if s = CHR ''*'' then
              (if rest \<noteq> [] then (Inl EINVAL, n)
               else if name = [] then (Inl EINVAL, n)
               else insert_wildcard n name v)
            else if s = CHR '':'' then
              (if name = [] then (Inl EINVAL, n)
               else (case find_child_of_type NODE_PARAM (nchildren n) of
                   Some i \<Rightarrow>
                     (if nparam (nchildren n ! i) \<noteq> Some name then (Inl EEXIST, n)
                      else map_prod id
                        (\<lambda>c'. ioh_radix_increment_priority (Node (ndata n) ((nchildren n)[i := c'])))
                        (insert_recursive (nchildren n ! i) rest v))
                 | None \<Rightarrow>
                     (let (rc, param) = insert_recursive (named_node NODE_PARAM name) rest v
                      in (rc, ioh_radix_increment_priority (ioh_radix_node_add_child n param)))))
            else
              insert_static_segment (ioh_radix_increment_priority n) (s # name) rest v))"
  by pat_completeness auto

termination
  by (relation "measures
       [case_sum (\<lambda>(n, seg, rest, v). length rest) (\<lambda>(n, pat, v). length pat),
        case_sum (\<lambda>(n, seg, rest, v). Suc (size n)) (\<lambda>(n, pat, v). 0)]")
     (auto simp: size_child_less dest: find_static_child_SomeD find_child_of_type_SomeD
        next_segment_shorter [OF sym])

declare insert_static_segment.simps [simp del] insert_recursive.simps [simp del]

subsection \<open>Lookup\<close>

definition IOH_MAX_PATH_PARAMS :: nat where
  "IOH_MAX_PATH_PARAMS = 8"

record ioh_param =
  p_name :: string
  p_value :: string

record ('h, 'o, 'm) radix_match =
  rm_handler :: "'h option"
  rm_metadata :: "'o option"
  rm_meta :: "'m option"
  rm_params :: "ioh_param list"

text \<open>How a loop over the children ends: a match, a return without one, or falling through.\<close>

datatype loop_exit = Found | Fail | Continue

definition add_param ::
  "string \<Rightarrow> string \<Rightarrow> ('h, 'o, 'm) radix_match \<Rightarrow> ('h, 'o, 'm) radix_match" where
  "add_param name val m = m\<lparr>rm_params := rm_params m @ [\<lparr>p_name = name, p_value = val\<rparr>]\<rparr>"

definition take_route ::
  "('h, 'o, 'm) node_data \<Rightarrow> ('h, 'o, 'm) radix_match \<Rightarrow> ('h, 'o, 'm) radix_match" where
  "take_route d m =
     m\<lparr>rm_handler := nd_handler d, rm_metadata := nd_metadata d, rm_meta := nd_meta d\<rparr>"

fun lookup_wildcards ::
  "('h, 'o, 'm) rnode list \<Rightarrow> string \<Rightarrow> ('h, 'o, 'm) radix_match
   \<Rightarrow> bool \<times> ('h, 'o, 'm) radix_match" where
  "lookup_wildcards [] p m = (False, m)"
| "lookup_wildcards (c # cs) p m =
     (if ntype c \<noteq> NODE_WILDCARD then lookup_wildcards cs p m
      else if nhandler c = None then lookup_wildcards cs p m
      else if length (rm_params m) \<ge> IOH_MAX_PATH_PARAMS then (False, m)
      else (True, take_route (ndata c) (add_param (the (nparam c)) p m)))"

text \<open>
  \<open>lookup_static\<close> and \<open>lookup_params\<close> are the child loops of the two C functions; the match
  record is threaded through every branch, so that what a failed branch leaves behind is visible.
\<close>

fun
  lookup_static ::
    "('h, 'o, 'm) rnode list \<Rightarrow> string \<Rightarrow> string \<Rightarrow> ('h, 'o, 'm) radix_match
     \<Rightarrow> bool \<times> ('h, 'o, 'm) radix_match" and
  lookup_params ::
    "('h, 'o, 'm) rnode list \<Rightarrow> string \<Rightarrow> string \<Rightarrow> ('h, 'o, 'm) radix_match
     \<Rightarrow> loop_exit \<times> ('h, 'o, 'm) radix_match" and
  lookup_recursive ::
    "('h, 'o, 'm) rnode \<Rightarrow> string \<Rightarrow> ('h, 'o, 'm) radix_match
     \<Rightarrow> bool \<times> ('h, 'o, 'm) radix_match"
where
  "lookup_static [] seg rest m = (False, m)"
| "lookup_static (Node d gs # cs) seg rest m =
     (if nd_type d \<noteq> NODE_STATIC then lookup_static cs seg rest m
      else if length (nd_prefix d) > length seg then lookup_static cs seg rest m
      else if take (length (nd_prefix d)) seg \<noteq> nd_prefix d then lookup_static cs seg rest m
      else
        (let (ok, m') =
           (if length (nd_prefix d) = length seg then lookup_recursive (Node d gs) rest m
            else lookup_static gs (drop (length (nd_prefix d)) seg) rest m)
         in if ok then (True, m') else lookup_static cs seg rest m'))"
| "lookup_params [] seg rest m = (Continue, m)"
| "lookup_params (c # cs) seg rest m =
     (if ntype c \<noteq> NODE_PARAM then lookup_params cs seg rest m
      else if length (rm_params m) \<ge> IOH_MAX_PATH_PARAMS then (Fail, m)
      else
        (let saved_count = length (rm_params m);
             (ok, m') = lookup_recursive c rest (add_param (the (nparam c)) seg m)
         in if ok then (Found, m')
            else lookup_params cs seg rest (m'\<lparr>rm_params := take saved_count (rm_params m')\<rparr>)))"
| "lookup_recursive (Node d cs) path m =
     (let p = skip_slash path
      in if p = [] then
           (if nd_handler d \<noteq> None then (True, take_route d m) else (False, m))
         else
           (let seg = takeWhile (\<lambda>c. c \<noteq> slash) p;
                rest = dropWhile (\<lambda>c. c \<noteq> slash) p;
                (ok, m1) = lookup_static cs seg rest m
            in if ok then (True, m1)
               else (case lookup_params cs seg rest m1 of
                   (Found, m2) \<Rightarrow> (True, m2)
                 | (Fail, m2) \<Rightarrow> (False, m2)
                 | (Continue, m2) \<Rightarrow> lookup_wildcards cs p m2)))"

subsection \<open>Public interface\<close>

definition ioh_radix_create :: "('h, 'o, 'm) rnode" where
  "ioh_radix_create = ioh_radix_node_create [] NODE_STATIC"

definition ioh_radix_insert ::
  "('h, 'o, 'm) rnode \<Rightarrow> string \<Rightarrow> 'h option \<Rightarrow> 'o option \<Rightarrow> 'm option
   \<Rightarrow> (unit, ('h, 'o, 'm) rnode) outcome" where
  "ioh_radix_insert tree pattern handler metadata meta =
     (case handler of
        None \<Rightarrow> (Inl EINVAL, tree)
      | Some h \<Rightarrow>
          if pattern = [] \<or> hd pattern \<noteq> slash then (Inl EINVAL, tree)
          else insert_recursive tree pattern
                 \<lparr>rv_handler = h, rv_metadata = metadata, rv_meta = meta\<rparr>)"

definition empty_match :: "('h, 'o, 'm) radix_match" where
  "empty_match = \<lparr>rm_handler = None, rm_metadata = None, rm_meta = None, rm_params = []\<rparr>"

definition ioh_radix_lookup ::
  "('h, 'o, 'm) rnode \<Rightarrow> string \<Rightarrow> errno + ('h, 'o, 'm) radix_match" where
  "ioh_radix_lookup tree path =
     (if path = [] then Inl ENOENT
      else (case lookup_recursive tree path empty_match of
          (True, m) \<Rightarrow> Inr m
        | (False, _) \<Rightarrow> Inl ENOENT))"

end
