(* ===== verification/Request.thy ===== *)
theory Request
  imports Radix "HOL-Library.Char_ord"
begin

text \<open>
  The protocol-independent request of \<^verbatim>\<open>src/http/ioh_request.c\<close>: methods, header, parameter,
  cookie and query lookups, typed parameters and content negotiation.

  A header value is a pointer and a length.  The pointer is modelled by the memory that starts
  there (\<open>h_mem\<close>), the length by \<open>h_value_len\<close>: the functions that use the length see
  \<open>take h_value_len h_mem\<close>, the ones that treat the pointer as a C string see \<open>cstr h_mem\<close>.
\<close>

subsection \<open>Methods\<close>

datatype ioh_method =
    IOH_METHOD_GET | IOH_METHOD_POST | IOH_METHOD_PUT | IOH_METHOD_DELETE | IOH_METHOD_PATCH
  | IOH_METHOD_HEAD | IOH_METHOD_OPTIONS | IOH_METHOD_TRACE | IOH_METHOD_CONNECT
  | IOH_METHOD_UNKNOWN

fun method_index :: "ioh_method \<Rightarrow> nat" where
  "method_index IOH_METHOD_GET = 0"
| "method_index IOH_METHOD_POST = 1"
| "method_index IOH_METHOD_PUT = 2"
| "method_index IOH_METHOD_DELETE = 3"
| "method_index IOH_METHOD_PATCH = 4"
| "method_index IOH_METHOD_HEAD = 5"
| "method_index IOH_METHOD_OPTIONS = 6"
| "method_index IOH_METHOD_TRACE = 7"
| "method_index IOH_METHOD_CONNECT = 8"
| "method_index IOH_METHOD_UNKNOWN = 9"

definition ioh_method_parse :: "string \<Rightarrow> ioh_method" where
  "ioh_method_parse s =
     (if s = [] then IOH_METHOD_UNKNOWN
      else if length s = 3 then
        (if s = ''GET'' then IOH_METHOD_GET
         else if s = ''PUT'' then IOH_METHOD_PUT else IOH_METHOD_UNKNOWN)
      else if length s = 4 then
        (if s = ''POST'' then IOH_METHOD_POST
         else if s = ''HEAD'' then IOH_METHOD_HEAD else IOH_METHOD_UNKNOWN)
      else if length s = 5 then
        (if s = ''PATCH'' then IOH_METHOD_PATCH
         else if s = ''TRACE'' then IOH_METHOD_TRACE else IOH_METHOD_UNKNOWN)
      else if length s = 6 then
        (if s = ''DELETE'' then IOH_METHOD_DELETE else IOH_METHOD_UNKNOWN)
      else if length s = 7 then
        (if s = ''OPTIONS'' then IOH_METHOD_OPTIONS
         else if s = ''CONNECT'' then IOH_METHOD_CONNECT else IOH_METHOD_UNKNOWN)
      else IOH_METHOD_UNKNOWN)"

fun ioh_method_name :: "ioh_method \<Rightarrow> string" where
  "ioh_method_name IOH_METHOD_GET = ''GET''"
| "ioh_method_name IOH_METHOD_POST = ''POST''"
| "ioh_method_name IOH_METHOD_PUT = ''PUT''"
| "ioh_method_name IOH_METHOD_DELETE = ''DELETE''"
| "ioh_method_name IOH_METHOD_PATCH = ''PATCH''"
| "ioh_method_name IOH_METHOD_HEAD = ''HEAD''"
| "ioh_method_name IOH_METHOD_OPTIONS = ''OPTIONS''"
| "ioh_method_name IOH_METHOD_TRACE = ''TRACE''"
| "ioh_method_name IOH_METHOD_CONNECT = ''CONNECT''"
| "ioh_method_name IOH_METHOD_UNKNOWN = ''UNKNOWN''"

subsection \<open>The request\<close>

definition IOH_MAX_HEADERS :: nat where "IOH_MAX_HEADERS = 64"
definition IOH_MAX_HEADER_SIZE :: nat where "IOH_MAX_HEADER_SIZE = 8192"
definition IOH_MAX_URI_SIZE :: nat where "IOH_MAX_URI_SIZE = 4096"

record ioh_header =
  h_name :: string
  h_mem :: string
  h_value_len :: nat

abbreviation h_value :: "ioh_header \<Rightarrow> string" where
  "h_value h \<equiv> take (h_value_len h) (h_mem h)"

record ioh_request =
  req_method :: ioh_method
  req_path :: string
  req_query :: "string option"
  req_headers :: "ioh_header list"
  req_body :: "string option"
  req_params :: "ioh_param list"
  req_version_major :: nat
  req_version_minor :: nat
  req_keep_alive :: bool
  req_content_length :: size_t
  req_content_type :: "string option"
  req_host :: "string option"

definition ioh_request_init :: ioh_request where
  "ioh_request_init =
     \<lparr>req_method = IOH_METHOD_GET, req_path = [], req_query = None, req_headers = [],
      req_body = None, req_params = [], req_version_major = 0, req_version_minor = 0,
      req_keep_alive = False, req_content_length = 0, req_content_type = None, req_host = None\<rparr>"

text \<open>The result is the pointer to the value, that is the memory from there on.\<close>

fun find_header :: "ioh_header list \<Rightarrow> string \<Rightarrow> string option" where
  "find_header [] name = None"
| "find_header (h # hs) name =
     (if length (h_name h) \<noteq> length name then find_header hs name
      else if ci_eq (h_name h) name then Some (h_mem h)
      else find_header hs name)"

definition ioh_request_header :: "ioh_request \<Rightarrow> string \<Rightarrow> string option" where
  "ioh_request_header req name =
     find_header (req_headers req) (take IOH_MAX_HEADER_SIZE (cstr name))"

subsection \<open>Parameters\<close>

fun find_param :: "ioh_param list \<Rightarrow> string \<Rightarrow> ioh_param option" where
  "find_param [] name = None"
| "find_param (p # ps) name =
     (if length (p_name p) = length name \<and> p_name p = name then Some p else find_param ps name)"

definition ioh_request_param :: "ioh_request \<Rightarrow> string \<Rightarrow> string option" where
  "ioh_request_param req name =
     map_option p_value (find_param (req_params req) (take IOH_MAX_URI_SIZE (cstr name)))"

text \<open>
  \<^verbatim>\<open>strtoll\<close> and \<^verbatim>\<open>strtoull\<close> in base 10: white space, an optional sign, digits.  The result is
  the value before clamping, and the rest of the text; without a digit nothing is consumed.
\<close>

definition is_space :: "char \<Rightarrow> bool" where
  "is_space c \<longleftrightarrow> c = CHR '' '' \<or> 9 \<le> byte_val c \<and> byte_val c \<le> 13"

definition strto_scan :: "string \<Rightarrow> (bool \<times> nat \<times> string) option" where
  "strto_scan s =
     (let t = dropWhile is_space s;
          neg = (t \<noteq> [] \<and> hd t = CHR ''-'');
          u = (if t \<noteq> [] \<and> (hd t = CHR ''-'' \<or> hd t = CHR ''+'') then tl t else t);
          ds = takeWhile is_digit u
      in if ds = [] then None else Some (neg, dec_value ds, dropWhile is_digit u))"

definition ioh_request_param_i64 :: "ioh_request \<Rightarrow> string \<Rightarrow> errno + int" where
  "ioh_request_param_i64 req name =
     (case find_param (req_params req) (take IOH_MAX_URI_SIZE (cstr name)) of
        None \<Rightarrow> Inl EINVAL
      | Some p \<Rightarrow>
          if p_value p = [] then Inl EINVAL
          else (case strto_scan (p_value p) of
              None \<Rightarrow> Inl EINVAL
            | Some (neg, n, rest) \<Rightarrow>
                let v = (if neg then - int n else int n)
                in if v < - (2 ^ 63) \<or> v \<ge> 2 ^ 63 then Inl ERANGE
                   else if rest \<noteq> [] then Inl EINVAL
                   else Inr v))"

text \<open>The loop that looks for a minus sign behind leading blanks.\<close>

fun leading_minus :: "string \<Rightarrow> bool" where
  "leading_minus [] = False"
| "leading_minus (c # cs) =
     (if c = CHR ''-'' then True else if c \<noteq> CHR '' '' then False else leading_minus cs)"

definition ioh_request_param_u64 :: "ioh_request \<Rightarrow> string \<Rightarrow> errno + u64" where
  "ioh_request_param_u64 req name =
     (case find_param (req_params req) (take IOH_MAX_URI_SIZE (cstr name)) of
        None \<Rightarrow> Inl EINVAL
      | Some p \<Rightarrow>
          if p_value p = [] then Inl EINVAL
          else if leading_minus (p_value p) then Inl EINVAL
          else (case strto_scan (p_value p) of
              None \<Rightarrow> Inl EINVAL
            | Some (neg, n, rest) \<Rightarrow>
                if n \<ge> 2 ^ 64 then Inl ERANGE
                else if rest \<noteq> [] then Inl EINVAL
                else Inr (if neg then - word_of_nat n else word_of_nat n)))"

definition ioh_request_param_bool :: "ioh_request \<Rightarrow> string \<Rightarrow> errno + bool" where
  "ioh_request_param_bool req name =
     (case find_param (req_params req) (take IOH_MAX_URI_SIZE (cstr name)) of
        None \<Rightarrow> Inl EINVAL
      | Some p \<Rightarrow>
          let v = p_value p
          in if v = [] then Inl EINVAL
             else if ci_eq v ''true'' \<or> v = ''1'' \<or> ci_eq v ''yes'' then Inr True
             else if ci_eq v ''false'' \<or> v = ''0'' \<or> ci_eq v ''no'' then Inr False
             else Inl EINVAL)"

definition ioh_request_param_count :: "ioh_request \<Rightarrow> nat" where
  "ioh_request_param_count req = length (req_params req)"

subsection \<open>Cookies and query parameters\<close>

text \<open>The cookie loop runs over the C string of the header; \<open>n\<close> is the length of the name.\<close>

function cookie_loop :: "string \<Rightarrow> string \<Rightarrow> string option" where
  "cookie_loop name s =
     (if s = [] then None
      else
        (let p = dropWhile (\<lambda>c. c = CHR '' '') s; n = length name
         in if take n p = name \<and> n < length p \<and> p ! n = CHR ''='' then Some (drop (n + 1) p)
            else (case dropWhile (\<lambda>c. c \<noteq> CHR '';'') p of
                [] \<Rightarrow> None
              | _ # q \<Rightarrow> cookie_loop name q)))"
  by pat_completeness auto
termination
proof (relation "measure (\<lambda>(name, s). length s)", goal_cases)
  case (2 name s p n c q)
  then have "length (c # q) \<le> length p" by (metis dropWhile_length_le)
  moreover have "length p \<le> length s" using 2 by simp
  ultimately show ?case by simp
qed simp

declare cookie_loop.simps [simp del]

definition ioh_request_cookie :: "ioh_request \<Rightarrow> string \<Rightarrow> string option" where
  "ioh_request_cookie req name =
     (case ioh_request_header req ''Cookie'' of
        None \<Rightarrow> None
      | Some mem \<Rightarrow> cookie_loop (take IOH_MAX_HEADER_SIZE (cstr name)) (cstr mem))"

function query_loop :: "string \<Rightarrow> string \<Rightarrow> string option" where
  "query_loop name p =
     (if p = [] then None
      else
        (let n = length name
         in if n < length p \<and> take n p = name \<and> p ! n = CHR ''='' then Some (drop (n + 1) p)
            else (case dropWhile (\<lambda>c. c \<noteq> CHR ''&'') p of
                [] \<Rightarrow> None
              | _ # q \<Rightarrow> query_loop name q)))"
  by pat_completeness auto
termination
proof (relation "measure (\<lambda>(name, p). length p)", goal_cases)
  case (2 name p n c q)
  then have "length (c # q) \<le> length p" by (metis dropWhile_length_le)
  then show ?case by simp
qed simp

declare query_loop.simps [simp del]

definition ioh_request_query_param :: "ioh_request \<Rightarrow> string \<Rightarrow> string option" where
  "ioh_request_query_param req name =
     (case req_query req of
        None \<Rightarrow> None
      | Some q \<Rightarrow> query_loop (take IOH_MAX_URI_SIZE (cstr name)) q)"

subsection \<open>Content negotiation\<close>

definition trim_trailing_blanks :: "string \<Rightarrow> string" where
  "trim_trailing_blanks s = rev (dropWhile (\<lambda>c. c = CHR '' '') (rev s))"

text \<open>
  \<^verbatim>\<open>strncasecmp(type, p, n) == 0\<close>, where \<open>p\<close> has at least \<open>n\<close> bytes without a NUL.
\<close>

definition prefix_ci_eq :: "nat \<Rightarrow> string \<Rightarrow> string \<Rightarrow> bool" where
  "prefix_ci_eq n t p \<longleftrightarrow> ci_eq (take n t) (take n p)"

definition accept_one :: "string list \<Rightarrow> string \<Rightarrow> string option" where
  "accept_one types mtype =
     (if mtype = ''*/*'' then Some (hd types)
      else
        (case (if length mtype > 2 \<and> last mtype = CHR ''*'' \<and> mtype ! (length mtype - 2) = slash
               then find (\<lambda>t. prefix_ci_eq (length mtype - 1) t mtype) types else None) of
           Some t \<Rightarrow> Some t
         | None \<Rightarrow> find (\<lambda>t. length t = length mtype \<and> ci_eq t mtype) types))"

function accept_loop :: "string list \<Rightarrow> string \<Rightarrow> string option" where
  "accept_loop types s =
     (if s = [] then None
      else
        (let p = dropWhile (\<lambda>c. c = CHR '' '') s;
             item = takeWhile (\<lambda>c. c \<noteq> CHR '','') p;
             mtype = trim_trailing_blanks (takeWhile (\<lambda>c. c \<noteq> CHR '';'') item)
         in case accept_one types mtype of
              Some t \<Rightarrow> Some t
            | None \<Rightarrow>
                (case dropWhile (\<lambda>c. c \<noteq> CHR '','') p of
                   [] \<Rightarrow> None
                 | _ # q \<Rightarrow> accept_loop types q)))"
  by pat_completeness auto
termination
proof (relation "measure (\<lambda>(types, s). length s)", goal_cases)
  case (2 types s p item mtype c q)
  then have "length (c # q) \<le> length p" by (metis dropWhile_length_le)
  moreover have "length p \<le> length s" using 2 by simp
  ultimately show ?case by simp
qed simp

declare accept_loop.simps [simp del]

definition ioh_request_accepts :: "ioh_request \<Rightarrow> string list \<Rightarrow> string option" where
  "ioh_request_accepts req types =
     (if types = [] then None
      else (case ioh_request_header req ''Accept'' of
          None \<Rightarrow> None
        | Some mem \<Rightarrow> accept_loop types (take IOH_MAX_HEADER_SIZE (cstr mem))))"

subsection \<open>Texts used to state the properties\<close>

text \<open>A query string written from its key/value pairs.\<close>

fun render_query :: "(string \<times> string) list \<Rightarrow> string" where
  "render_query [] = []"
| "render_query [(k, v)] = k @ CHR ''='' # v"
| "render_query ((k, v) # kvs) = k @ CHR ''='' # v @ CHR ''&'' # render_query kvs"

definition query_pair :: "string \<times> string \<Rightarrow> bool" where
  "query_pair kv \<longleftrightarrow> CHR ''='' \<notin> set (fst kv) \<and> CHR ''&'' \<notin> set (fst kv) \<and> CHR ''&'' \<notin> set (snd kv)"

fun render_cookies :: "(string \<times> string) list \<Rightarrow> string" where
  "render_cookies [] = []"
| "render_cookies [(k, v)] = k @ CHR ''='' # v"
| "render_cookies ((k, v) # kvs) = k @ CHR ''='' # v @ ''; '' @ render_cookies kvs"

definition cookie_pair :: "string \<times> string \<Rightarrow> bool" where
  "cookie_pair kv \<longleftrightarrow> fst kv \<noteq> [] \<and> hd (fst kv) \<noteq> CHR '' '' \<and> CHR ''='' \<notin> set (fst kv) \<and>
     CHR '';'' \<notin> set (fst kv) \<and> CHR '';'' \<notin> set (snd kv)"

text \<open>The decimal text of an integer.\<close>

definition int_text :: "int \<Rightarrow> string" where
  "int_text i = (if i < 0 then CHR ''-'' # dec_digits (nat (- i)) else dec_digits (nat i))"

subsection \<open>Lemmas\<close>

text \<open>A key is recognised exactly at its own equals sign.\<close>

lemma key_match_iff:
  assumes "CHR ''='' \<notin> set k" and "CHR ''='' \<notin> set name" and "p = k @ CHR ''='' # r"
  shows "(take (length name) p = name \<and> length name < length p \<and> p ! length name = CHR ''='') \<longleftrightarrow> k = name"
proof
  assume a: "take (length name) p = name \<and> length name < length p \<and> p ! length name = CHR ''=''"
  then have p: "p = name @ CHR ''='' # drop (Suc (length name)) p"
    by (metis append_take_drop_id Cons_nth_drop_Suc)
  have "takeWhile (\<lambda>c. c \<noteq> CHR ''='') p = name"
    using takeWhile_append_delim [OF assms(2), of "CHR ''='' # drop (Suc (length name)) p"] p by simp
  moreover have "takeWhile (\<lambda>c. c \<noteq> CHR ''='') p = k"
    using takeWhile_append_delim [OF assms(1), of "CHR ''='' # r"] assms(3) by simp
  ultimately show "k = name" by simp
qed (use assms in auto)

lemma query_step:
  assumes "CHR ''='' \<notin> set k" and "CHR ''='' \<notin> set name"
  shows "query_loop name (k @ CHR ''='' # r) =
     (if k = name then Some r
      else case dropWhile (\<lambda>c. c \<noteq> CHR ''&'') (k @ CHR ''='' # r) of [] \<Rightarrow> None | _ # q \<Rightarrow> query_loop name q)"
proof (cases "k = name")
  case True
  then show ?thesis by (subst query_loop.simps) simp
next
  case False
  with key_match_iff [OF assms refl, of r] show ?thesis
    by (subst query_loop.simps) (auto simp only: Let_def append_is_Nil_conv list.distinct(2) split: if_split)
qed


lemma cookie_step:
  assumes "CHR ''='' \<notin> set k" and "CHR ''='' \<notin> set name" and "k \<noteq> []" and "hd k \<noteq> CHR '' ''"
  shows "cookie_loop name (k @ CHR ''='' # r) =
     (if k = name then Some r
      else case dropWhile (\<lambda>c. c \<noteq> CHR '';'') (k @ CHR ''='' # r) of [] \<Rightarrow> None | _ # q \<Rightarrow> cookie_loop name q)"
proof -
  have sp: "dropWhile (\<lambda>c. c = CHR '' '') (k @ CHR ''='' # r) = k @ CHR ''='' # r"
    using assms(3,4) by (cases k) auto
  show ?thesis
  proof (cases "k = name")
    case True
    with sp show ?thesis by (subst cookie_loop.simps) simp
  next
    case False
    with key_match_iff [OF assms(1,2) refl, of r] show ?thesis
      by (subst cookie_loop.simps) (auto simp only: sp Let_def append_is_Nil_conv list.distinct(2) split: if_split)
  qed
qed

lemma cookie_skip_blank: "s \<noteq> [] \<Longrightarrow> cookie_loop name (CHR '' '' # s) = cookie_loop name s"
  by (subst (1 2) cookie_loop.simps) simp

lemma query_loop_render:
  assumes "\<forall>kv\<in>set kvs. query_pair kv" and "CHR ''='' \<notin> set name"
  shows "map_option (takeWhile (\<lambda>c. c \<noteq> CHR ''&'')) (query_loop name (render_query kvs)) = map_of kvs name"
  using assms(1)
proof (induction kvs rule: render_query.induct)
  case 1
  then show ?case by (simp add: query_loop.simps)
next
  case (2 k v)
  then have k: "CHR ''='' \<notin> set k" "CHR ''&'' \<notin> set k" "CHR ''&'' \<notin> set v" by (auto simp: query_pair_def)
  have dw: "dropWhile (\<lambda>c. c \<noteq> CHR ''&'') (k @ CHR ''='' # v) = []" using k by auto
  show ?case
    using takeWhile_append_delim [OF k(3), of "[]"]
    by (simp add: query_step [OF k(1) assms(2)] dw del: dropWhile_append)
next
  case (3 k v kv kvs)
  then have k: "CHR ''='' \<notin> set k" "CHR ''&'' \<notin> set k" "CHR ''&'' \<notin> set v" by (auto simp: query_pair_def)
  let ?r = "render_query (kv # kvs)"
  have dw: "dropWhile (\<lambda>c. c \<noteq> CHR ''&'') (k @ CHR ''='' # v @ CHR ''&'' # ?r) = CHR ''&'' # ?r"
    using dropWhile_append_delim [of "CHR ''&''" "k @ CHR ''='' # v" "CHR ''&'' # ?r"] k by simp
  show ?case
    using 3 takeWhile_append_delim [OF k(3), of "CHR ''&'' # ?r"]
    by (simp add: query_step [OF k(1) assms(2)] dw)
qed

lemma cookie_loop_render:
  assumes "\<forall>kv\<in>set kvs. cookie_pair kv" and "CHR ''='' \<notin> set name"
  shows "map_option (takeWhile (\<lambda>c. c \<noteq> CHR '';'')) (cookie_loop name (render_cookies kvs)) = map_of kvs name"
  using assms(1)
proof (induction kvs rule: render_cookies.induct)
  case 1
  then show ?case by (simp add: cookie_loop.simps)
next
  case (2 k v)
  then have k: "CHR ''='' \<notin> set k" "k \<noteq> []" "hd k \<noteq> CHR '' ''" "CHR '';'' \<notin> set k" "CHR '';'' \<notin> set v"
    by (auto simp: cookie_pair_def)
  have dw: "dropWhile (\<lambda>c. c \<noteq> CHR '';'') (k @ CHR ''='' # v) = []" using k by auto
  show ?case
    using takeWhile_append_delim [OF k(5), of "[]"]
    by (simp add: cookie_step [OF k(1) assms(2) k(2,3)] dw del: dropWhile_append)
next
  case (3 k v kv kvs)
  then have k: "CHR ''='' \<notin> set k" "k \<noteq> []" "hd k \<noteq> CHR '' ''" "CHR '';'' \<notin> set k" "CHR '';'' \<notin> set v"
    by (auto simp: cookie_pair_def)
  let ?r = "render_cookies (kv # kvs)"
  have dw: "dropWhile (\<lambda>c. c \<noteq> CHR '';'') (k @ CHR ''='' # v @ CHR '';'' # CHR '' '' # ?r) =
      CHR '';'' # CHR '' '' # ?r"
    using dropWhile_append_delim [of "CHR '';''" "k @ CHR ''='' # v" "CHR '';'' # CHR '' '' # ?r"] k by simp
  have "?r \<noteq> []" by (cases kv; cases kvs) auto
  then show ?case
    using 3 takeWhile_append_delim [OF k(5), of "CHR '';'' # CHR '' '' # ?r"]
    by (simp add: cookie_step [OF k(1) assms(2) k(2,3)] dw cookie_skip_blank)
qed

lemma hd_dec_digits: "is_digit (hd (dec_digits n))"
  using dec_digits_all_digits [of n] dec_digits_nonempty [of n] by (metis list.set_sel(1))

lemma digit_not_blank: "is_digit c \<Longrightarrow> \<not> is_space c \<and> c \<noteq> CHR ''-'' \<and> c \<noteq> CHR ''+''"
  by (auto simp: is_digit_def is_space_def)

lemma strto_scan_int_text: "strto_scan (int_text i) = Some (i < 0, nat \<bar>i\<bar>, [])"
proof -
  obtain c cs where c: "dec_digits (nat \<bar>i\<bar>) = c # cs" by (metis dec_digits_nonempty list.exhaust)
  have d: "is_digit c" using hd_dec_digits [of "nat \<bar>i\<bar>"] by (simp add: c)
  have tw: "takeWhile is_digit cs = cs" "dropWhile is_digit cs = []"
    using dec_digits_all_digits [of "nat \<bar>i\<bar>"] by (auto simp: c takeWhile_eq_all_conv)
  have val: "dec_value (c # cs) = nat \<bar>i\<bar>" using dec_value_digits [of "nat \<bar>i\<bar>"] by (simp add: c)
  show ?thesis
  proof (cases "i < 0")
    case True
    then have "int_text i = CHR ''-'' # c # cs" "nat \<bar>i\<bar> = nat (- i)" using c by (simp_all add: int_text_def)
    with d True show ?thesis by (simp add: tw val strto_scan_def Let_def is_space_def)
  next
    case False
    then have "int_text i = c # cs" "nat \<bar>i\<bar> = nat i" using c by (simp_all add: int_text_def)
    with False digit_not_blank [OF d] d show ?thesis by (simp add: tw val strto_scan_def Let_def)
  qed
qed

lemma int_text_nonempty [simp]: "int_text i \<noteq> []"
  by (simp add: int_text_def)

lemma request_param_SomeD:
  assumes "ioh_request_param req name = Some v"
  obtains p where "find_param (req_params req) (take IOH_MAX_URI_SIZE (cstr name)) = Some p" "p_value p = v"
  using assms by (auto simp: ioh_request_param_def)

subsection \<open>Properties\<close>

text \<open>The method parser and the method names are inverse to each other: a byte string is
  parsed as a known method exactly when it is that method's name, with the right case.\<close>

theorem method_parse_name_iff:
  "(ioh_method_parse s = m \<and> m \<noteq> IOH_METHOD_UNKNOWN) = (s = ioh_method_name m \<and> m \<noteq> IOH_METHOD_UNKNOWN)"
  by (cases m) (auto simp: ioh_method_parse_def)

text \<open>C37: a path parameter that holds the decimal text of an integer is extracted as that
  integer when it fits in 64 bits, and refused with \<^verbatim>\<open>-ERANGE\<close> otherwise.\<close>

theorem param_i64_round_trip:
  assumes "ioh_request_param req name = Some (int_text i)"
  shows "ioh_request_param_i64 req name = (if - (2 ^ 63) \<le> i \<and> i < 2 ^ 63 then Inr i else Inl ERANGE)"
  using assms
  by (rule request_param_SomeD) (auto simp: ioh_request_param_i64_def strto_scan_int_text Let_def)

definition example_param_request :: "string \<Rightarrow> ioh_request" where
  "example_param_request v = ioh_request_init\<lparr>req_params := [\<lparr>p_name = ''id'', p_value = v\<rparr>]\<rparr>"

lemma example_param: "ioh_request_param (example_param_request v) ''id'' = Some v"
  by (simp add: ioh_request_param_def example_param_request_def IOH_MAX_URI_SIZE_def)

theorem param_i64_round_trip_witness:
  "ioh_request_param_i64 (example_param_request (int_text (- 42))) ''id'' = Inr (- 42)"
  using param_i64_round_trip [OF example_param, of "- 42"] by simp


definition example_lookup_request :: ioh_request where
  "example_lookup_request = ioh_request_init\<lparr>req_query := Some ''a=1&b=2'',
     req_headers := [\<lparr>h_name = ''cookie'', h_mem = ''a=x; b=y'' @ [nul], h_value_len = 8\<rparr>]\<rparr>"


text \<open>
  The check for a minus sign in front of an unsigned parameter skips blanks only, while
  \<^verbatim>\<open>strtoull\<close> skips every white space character: a tab lets a negative number through, which wraps.
\<close>

lemma param_u64_accepts_negative_after_tab:
  "ioh_request_param_u64 (example_param_request (tab # ''-5'')) ''id'' = Inr (- 5)"
  by (simp add: ioh_request_param_u64_def example_param_request_def IOH_MAX_URI_SIZE_def strto_scan_def
      is_space_def is_digit_def dec_value_def digit_val_def Let_def)

end
