(* ===== verification/Response.thy ===== *)
theory Response
  imports Request
begin

text \<open>
  The response builder of \<^verbatim>\<open>src/http/ioh_response.c\<close>.

  The header array is a list with its allocated capacity beside it; the header count is the length of
  the list.  A copied string is its characters and a final NUL, so the memory of a header value is the
  value and a NUL.  The body is the list of its \<^verbatim>\<open>body_len\<close> bytes.  Allocation succeeds.
\<close>

record ioh_response =
  rs_status :: u16
  rs_headers :: "ioh_header list"
  rs_header_capacity :: u32
  rs_body :: string
  rs_body_capacity :: nat
  rs_headers_sent :: bool
  rs_chunked :: bool

definition IOH_RESPONSE_INITIAL_HEADERS :: u32 where "IOH_RESPONSE_INITIAL_HEADERS = 16"
definition IOH_RESPONSE_INITIAL_BODY :: nat where "IOH_RESPONSE_INITIAL_BODY = 1024"

definition ioh_response_init :: ioh_response where
  "ioh_response_init =
     \<lparr>rs_status = 200, rs_headers = [], rs_header_capacity = IOH_RESPONSE_INITIAL_HEADERS, rs_body = [],
      rs_body_capacity = IOH_RESPONSE_INITIAL_BODY, rs_headers_sent = False, rs_chunked = False\<rparr>"

definition ioh_response_reset :: "ioh_response \<Rightarrow> ioh_response" where
  "ioh_response_reset resp =
     resp\<lparr>rs_status := 200, rs_headers := [], rs_body := [], rs_headers_sent := False, rs_chunked := False\<rparr>"

text \<open>\<^verbatim>\<open>strnlen\<close> and \<^verbatim>\<open>strndup\<close> with the header size limit.\<close>

definition header_text :: "string \<Rightarrow> string" where
  "header_text s = take IOH_MAX_HEADER_SIZE (cstr s)"

definition dup_header :: "string \<Rightarrow> string \<Rightarrow> ioh_header" where
  "dup_header name v = \<lparr>h_name = name, h_mem = v @ [nul], h_value_len = length v\<rparr>"

definition grow_headers :: "ioh_response \<Rightarrow> ioh_response" where
  "grow_headers resp =
     (if length (rs_headers resp) \<ge> unat (rs_header_capacity resp)
      then resp\<lparr>rs_header_capacity := rs_header_capacity resp * 2\<rparr> else resp)"

definition append_header :: "ioh_response \<Rightarrow> string \<Rightarrow> string \<Rightarrow> ioh_response" where
  "append_header resp name v =
     (grow_headers resp)\<lparr>rs_headers := rs_headers resp @ [dup_header name v]\<rparr>"

fun replace_header :: "ioh_header list \<Rightarrow> string \<Rightarrow> string \<Rightarrow> ioh_header list option" where
  "replace_header [] name v = None"
| "replace_header (h # hs) name v =
     (if length (h_name h) = length name \<and> ci_eq (h_name h) name
      then Some (h\<lparr>h_mem := v @ [nul], h_value_len := length v\<rparr> # hs)
      else map_option ((#) h) (replace_header hs name v))"

definition ioh_response_set_header :: "ioh_response \<Rightarrow> string \<Rightarrow> string \<Rightarrow> ioh_response" where
  "ioh_response_set_header resp name v =
     (let name = header_text name; v = header_text v
      in case replace_header (rs_headers resp) name v of
           Some hs \<Rightarrow> resp\<lparr>rs_headers := hs\<rparr>
         | None \<Rightarrow> append_header resp name v)"

definition ioh_response_add_header :: "ioh_response \<Rightarrow> string \<Rightarrow> string \<Rightarrow> ioh_response" where
  "ioh_response_add_header resp name v = append_header resp (header_text name) (header_text v)"

subsection \<open>Vary\<close>

abbreviation vary_sep :: "char \<Rightarrow> bool" where
  "vary_sep c \<equiv> c = CHR '' '' \<or> c = CHR '','' \<or> c = tab"

function vary_token_exists :: "string \<Rightarrow> string \<Rightarrow> bool" where
  "vary_token_exists v token =
     (let s = dropWhile vary_sep v
      in if s = [] then False
         else let t = takeWhile (\<lambda>c. \<not> vary_sep c) s
              in if length t = length token \<and> ci_eq t token then True
                 else vary_token_exists (dropWhile (\<lambda>c. \<not> vary_sep c) s) token)"
  by pat_completeness auto
termination
proof (relation "measure (\<lambda>(v, token). length v)", goal_cases)
  case (2 v token s t)
  then have "\<not> vary_sep (hd s)" using hd_dropWhile [of vary_sep v] by simp
  with 2 show ?case using dropWhile_shrinks [of s vary_sep v "dropWhile (\<lambda>c. \<not> vary_sep c) s"] by simp
qed simp

declare vary_token_exists.simps [simp del]

fun vary_headers :: "ioh_header list \<Rightarrow> string \<Rightarrow> ioh_header list option" where
  "vary_headers [] token = None"
| "vary_headers (h # hs) token =
     (if length (h_name h) = 4 \<and> ci_eq (h_name h) ''Vary'' then
        (if vary_token_exists (h_value h) token then Some (h # hs)
         else Some (h\<lparr>h_mem := h_value h @ '', '' @ token @ [nul],
                      h_value_len := h_value_len h + 2 + length token\<rparr> # hs))
      else map_option ((#) h) (vary_headers hs token))"

definition ioh_response_add_vary :: "ioh_response \<Rightarrow> string \<Rightarrow> (unit, ioh_response) outcome" where
  "ioh_response_add_vary resp token =
     (let t = header_text token
      in if t = [] then (Inl EINVAL, resp)
         else case vary_headers (rs_headers resp) t of
                Some hs \<Rightarrow> (Inr (), resp\<lparr>rs_headers := hs\<rparr>)
              | None \<Rightarrow> (Inr (), ioh_response_set_header resp ''Vary'' token))"

subsection \<open>Body and convenience builders\<close>

text \<open>The body argument is the pointed-to bytes, or \<open>None\<close> for a null pointer.\<close>

definition ioh_response_set_body :: "ioh_response \<Rightarrow> string option \<Rightarrow> nat \<Rightarrow> (unit, ioh_response) outcome" where
  "ioh_response_set_body resp body len =
     (if len = 0 then (Inr (), resp\<lparr>rs_body := []\<rparr>)
      else case body of
             None \<Rightarrow> (Inl EINVAL, resp)
           | Some b \<Rightarrow>
               (let cap = rs_body_capacity resp;
                    new_cap = (if len > cap then (if len < cap * 2 then cap * 2 else len) else cap)
                in (Inr (), resp\<lparr>rs_body := take len b, rs_body_capacity := new_cap\<rparr>)))"

definition ioh_respond ::
  "ioh_response \<Rightarrow> u16 \<Rightarrow> string option \<Rightarrow> string option \<Rightarrow> nat \<Rightarrow> (unit, ioh_response) outcome" where
  "ioh_respond resp status content_type body body_len =
     (let resp = resp\<lparr>rs_status := status\<rparr>;
          resp = (case content_type of None \<Rightarrow> resp | Some ct \<Rightarrow> ioh_response_set_header resp ''Content-Type'' ct)
      in if body \<noteq> None \<and> body_len > 0 then ioh_response_set_body resp body body_len else (Inr (), resp))"

definition ioh_respond_json :: "ioh_response \<Rightarrow> u16 \<Rightarrow> string \<Rightarrow> (unit, ioh_response) outcome" where
  "ioh_respond_json resp status json =
     ioh_respond resp status (Some ''application/json'') (Some json) (length (take (1024 * 1024) (cstr json)))"

definition status_texts :: "(u16 \<times> string) list" where
  "status_texts =
     [(100, ''Continue''), (101, ''Switching Protocols''), (200, ''OK''), (201, ''Created''), (202, ''Accepted''),
      (204, ''No Content''), (206, ''Partial Content''), (301, ''Moved Permanently''), (302, ''Found''),
      (304, ''Not Modified''), (307, ''Temporary Redirect''), (308, ''Permanent Redirect''), (400, ''Bad Request''),
      (401, ''Unauthorized''), (403, ''Forbidden''), (404, ''Not Found''), (405, ''Method Not Allowed''),
      (406, ''Not Acceptable''), (408, ''Request Timeout''), (409, ''Conflict''), (411, ''Length Required''),
      (413, ''Content Too Large''), (414, ''URI Too Long''), (415, ''Unsupported Media Type''),
      (416, ''Range Not Satisfiable''), (422, ''Unprocessable Content''), (429, ''Too Many Requests''),
      (500, ''Internal Server Error''), (501, ''Not Implemented''), (502, ''Bad Gateway''),
      (503, ''Service Unavailable''), (504, ''Gateway Timeout'')]"

definition ioh_status_text :: "u16 \<Rightarrow> string" where
  "ioh_status_text status = (case map_of status_texts status of Some t \<Rightarrow> t | None \<Rightarrow> ''Unknown'')"

subsection \<open>Lemmas\<close>

text \<open>The header list fits its allocation as long as the doubled capacity has not wrapped.\<close>

definition response_inv :: "ioh_response \<Rightarrow> bool" where
  "response_inv r \<longleftrightarrow> length (rs_headers r) \<le> unat (rs_header_capacity r) \<and> 0 < unat (rs_header_capacity r) \<and>
     length (rs_body r) \<le> rs_body_capacity r"

lemma ci_eq_commute: "ci_eq a b \<longleftrightarrow> ci_eq b a"
  by (auto simp: ci_eq_def)

lemma ci_eq_cong: "ci_eq a b \<Longrightarrow> ci_eq a c \<longleftrightarrow> ci_eq b c"
  by (auto simp: ci_eq_def)

lemma find_header_Cons: "find_header (h # hs) m = (if ci_eq (h_name h) m then Some (h_mem h) else find_header hs m)"
  using ci_eq_length [of "h_name h" m] by auto

lemma find_header_append:
  "find_header (hs @ [h]) m =
     (case find_header hs m of Some x \<Rightarrow> Some x | None \<Rightarrow> if ci_eq (h_name h) m then Some (h_mem h) else None)"
  by (induction hs) (simp_all add: find_header_Cons del: find_header.simps(2))

lemma replace_header_Cons:
  "replace_header (h # hs) n v =
     (if ci_eq (h_name h) n then Some (h\<lparr>h_mem := v @ [nul], h_value_len := length v\<rparr> # hs)
      else map_option ((#) h) (replace_header hs n v))"
  using ci_eq_length [of "h_name h" n] by auto

lemma find_replace_header:
  "replace_header hs n v = Some hs' \<Longrightarrow> find_header hs' m = (if ci_eq n m then Some (v @ [nul]) else find_header hs m)"
proof (induction hs arbitrary: hs')
  case (Cons h hs)
  then show ?case
    using ci_eq_cong [of "h_name h" n m]
    by (auto simp: find_header_Cons replace_header_Cons ci_eq_commute [of m] simp del: find_header.simps(2) replace_header.simps(2)
        split: if_splits)
      (metis ci_eq_commute ci_eq_cong)+
qed simp

lemma replace_header_None: "replace_header hs n v = None \<Longrightarrow> ci_eq n m \<Longrightarrow> find_header hs m = None"
  by (induction hs)
    (auto simp: find_header_Cons replace_header_Cons simp del: find_header.simps(2) replace_header.simps(2)
      split: if_splits dest: ci_eq_cong simp: ci_eq_commute)

lemma replace_header_length: "replace_header hs n v = Some hs' \<Longrightarrow> length hs' = length hs"
  by (induction hs arbitrary: hs') (auto split: if_splits)

lemma find_set_header:
  "find_header (rs_headers (ioh_response_set_header r n v)) m =
     (if ci_eq (header_text n) m then Some (header_text v @ [nul]) else find_header (rs_headers r) m)"
  using find_replace_header [of "rs_headers r" "header_text n" "header_text v" _ m]
    replace_header_None [of "rs_headers r" "header_text n" "header_text v" m]
  by (auto simp: ioh_response_set_header_def Let_def append_header_def grow_headers_def dup_header_def find_header_append
      split: option.split)

subsection \<open>A response as a header map\<close>

definition plain_text :: "string \<Rightarrow> bool" where
  "plain_text s \<longleftrightarrow> nul \<notin> set s \<and> length s \<le> IOH_MAX_HEADER_SIZE"

lemma header_text_plain: "plain_text s \<Longrightarrow> header_text s = s"
  unfolding plain_text_def header_text_def cstr_def by (subst takeWhile_eq_all_conv [THEN iffD2]) auto

definition response_header :: "ioh_response \<Rightarrow> string \<Rightarrow> string option" where
  "response_header r name = map_option cstr (find_header (rs_headers r) name)"

text \<open>
  What the code that fills in responses relies on: a header that was set is found under any spelling
  of its name, and setting it disturbs no other header.
\<close>

locale header_map =
  fixes set_header :: "'s \<Rightarrow> string \<Rightarrow> string \<Rightarrow> 's"
    and get_header :: "'s \<Rightarrow> string \<Rightarrow> string option"
  assumes get_set: "plain_text n \<Longrightarrow> plain_text v \<Longrightarrow>
    get_header (set_header s n v) m = (if ci_eq n m then Some v else get_header s m)"
begin

text \<open>Setting a list of headers in order: the last one of a name wins.\<close>

lemma get_set_all:
  assumes "\<forall>h\<in>set hs. plain_text (fst h) \<and> plain_text (snd h)"
  shows "get_header (foldl (\<lambda>s h. set_header s (fst h) (snd h)) s hs) m =
    (case find (\<lambda>h. ci_eq (fst h) m) (rev hs) of Some h \<Rightarrow> Some (snd h) | None \<Rightarrow> get_header s m)"
  using assms
proof (induction hs rule: rev_induct)
  case (snoc h hs)
  then show ?case by (auto simp: get_set)
qed simp

end

interpretation response: header_map ioh_response_set_header response_header
proof
  fix n v m :: string and s
  assume "plain_text n" and v: "plain_text v"
  then have "nul \<notin> set v" by (simp add: plain_text_def)
  then have "cstr (v @ [nul]) = v" by (simp add: cstr_def takeWhile_append_delim)
  with \<open>plain_text n\<close> v show "response_header (ioh_response_set_header s n v) m = (if ci_eq n m then Some v else response_header s m)"
    by (simp add: response_header_def find_set_header header_text_plain)
qed

lemma response_inv_init: "response_inv ioh_response_init"
  by (simp add: response_inv_def ioh_response_init_def IOH_RESPONSE_INITIAL_HEADERS_def)

lemma grow_capacity:
  assumes "response_inv r" and "length (rs_headers r) < 2 ^ 31"
  shows "length (rs_headers r) < unat (rs_header_capacity (grow_headers r))"
proof (cases "length (rs_headers r) \<ge> unat (rs_header_capacity r)")
  case True
  then have "unat (rs_header_capacity r) < 2 ^ 31" using assms(2) by simp
  then have "unat (rs_header_capacity r * 2) = unat (rs_header_capacity r) * 2"
    by (simp add: unat_word_ariths)
  with True assms(1) show ?thesis by (auto simp: grow_headers_def response_inv_def)
next
  case False
  then show ?thesis by (simp add: grow_headers_def)
qed

lemma response_inv_append:
  assumes "response_inv r" and "length (rs_headers r) < 2 ^ 31"
  shows "response_inv (append_header r n v)"
proof -
  note g = grow_capacity [OF assms]
  have "rs_body (grow_headers r) = rs_body r" "rs_body_capacity (grow_headers r) = rs_body_capacity r"
    by (simp_all add: grow_headers_def)
  with g assms(1) show ?thesis by (auto simp: append_header_def response_inv_def)
qed

lemma response_inv_set_header:
  "response_inv r \<Longrightarrow> length (rs_headers r) < 2 ^ 31 \<Longrightarrow> response_inv (ioh_response_set_header r n v)"
  using replace_header_length [of "rs_headers r" "header_text n" "header_text v"]
  by (auto simp: ioh_response_set_header_def Let_def response_inv_append split: option.split) (auto simp: response_inv_def)

lemma response_inv_set_body: "response_inv r \<Longrightarrow> response_inv (snd (ioh_response_set_body r b n))"
  by (auto simp: ioh_response_set_body_def response_inv_def Let_def split: option.split)

datatype builder_op =
    Set_Header string string | Add_Header string string | Add_Vary string | Set_Body "string option" nat | Reset

fun build :: "ioh_response \<Rightarrow> builder_op \<Rightarrow> ioh_response" where
  "build r (Set_Header n v) = ioh_response_set_header r n v"
| "build r (Add_Header n v) = ioh_response_add_header r n v"
| "build r (Add_Vary t) = snd (ioh_response_add_vary r t)"
| "build r (Set_Body b n) = snd (ioh_response_set_body r b n)"
| "build r Reset = ioh_response_reset r"

lemma vary_headers_length: "vary_headers hs t = Some hs' \<Longrightarrow> length hs' = length hs"
  by (induction hs arbitrary: hs') (auto split: if_splits)

lemma append_header_length: "length (rs_headers (append_header r n v)) = Suc (length (rs_headers r))"
  by (simp add: append_header_def)

lemma set_header_length: "length (rs_headers (ioh_response_set_header r n v)) \<le> Suc (length (rs_headers r))"
  using replace_header_length [of "rs_headers r" "header_text n" "header_text v"]
  by (auto simp: ioh_response_set_header_def Let_def append_header_length split: option.split)

lemma build_inv:
  assumes "response_inv r" and "length (rs_headers r) < 2 ^ 31"
  shows "response_inv (build r x) \<and> length (rs_headers (build r x)) \<le> Suc (length (rs_headers r))"
proof (cases x)
  case (Set_Header n v)
  with assms show ?thesis using response_inv_set_header set_header_length by simp
next
  case (Add_Header n v)
  with assms show ?thesis using response_inv_append by (simp add: ioh_response_add_header_def append_header_length)
next
  case (Add_Vary t)
  with assms show ?thesis
    using vary_headers_length [of "rs_headers r" "header_text t"] response_inv_set_header set_header_length
    by (auto simp: ioh_response_add_vary_def Let_def split: option.split) (auto simp: response_inv_def)
next
  case (Set_Body b n)
  with assms show ?thesis
    using response_inv_set_body [OF assms(1), of b n] by (auto simp: ioh_response_set_body_def Let_def split: option.split)
next
  case Reset
  with assms show ?thesis by (simp add: ioh_response_reset_def response_inv_def)
qed

lemma build_all_inv:
  "response_inv r \<Longrightarrow> length (rs_headers r) + length xs < 2 ^ 31 \<Longrightarrow> response_inv (foldl build r xs)"
proof (induction xs arbitrary: r)
  case (Cons x xs)
  have "length (rs_headers r) < 2 ^ 31" using Cons.prems(2) by simp
  note b = build_inv [OF Cons.prems(1) this, of x]
  show ?case using Cons.IH [of "build r x"] b Cons.prems(2) by simp
qed simp

subsection \<open>Properties\<close>

text \<open>Building a response header by header: whatever response one starts from, after setting a list of
  headers in order, looking a name up in any capitalisation gives the value set last under that name, and
  a name that was not set keeps its old value.\<close>

theorem response_set_headers_last_wins:
  assumes "\<forall>h\<in>set hs. plain_text (fst h) \<and> plain_text (snd h)"
  shows "response_header (foldl (\<lambda>r h. ioh_response_set_header r (fst h) (snd h)) r hs) m =
    (case find (\<lambda>h. ci_eq (fst h) m) (rev hs) of Some h \<Rightarrow> Some (snd h) | None \<Rightarrow> response_header r m)"
  using assms by (rule response.get_set_all)

theorem response_set_headers_last_wins_witness:
  "response_header (foldl (\<lambda>r h. ioh_response_set_header r (fst h) (snd h)) ioh_response_init
     [(''X-A'', ''1''), (''X-B'', ''2''), (''x-a'', ''3'')]) ''X-A'' = Some ''3''"
proof -
  have plain: "\<forall>h\<in>set [(''X-A'', ''1''), (''X-B'', ''2''), (''x-a'', ''3'')]. plain_text (fst h) \<and> plain_text (snd h)"
    by (simp add: plain_text_def IOH_MAX_HEADER_SIZE_def)
  have "ci_eq ''x-a'' ''X-A''" by code_simp
  then show ?thesis by (simp only: response_set_headers_last_wins [OF plain]) simp
qed

text \<open>C33: The response never holds more than was allocated for it: after any sequence of fewer than \<open>2 ^ 31\<close>
  builder calls on a new response, the headers fit the header array, whose 32-bit capacity has not wrapped to zero,
  and the body fits the body buffer.\<close>

theorem response_within_allocation:
  assumes "length xs < 2 ^ 31"
  shows "response_inv (foldl build ioh_response_init xs)"
  using build_all_inv [OF response_inv_init] assms by (simp add: ioh_response_init_def)

theorem response_within_allocation_witness:
  "response_inv (foldl build ioh_response_init [Set_Header ''A'' ''1'', Add_Header ''B'' ''2'', Set_Body (Some ''xyz'') 3])"
  by (rule response_within_allocation) simp

end
