(* ===== verification/Pico.thy ===== *)
theory Pico
  imports Iohttp_Prelude
begin

text \<open>
  The request, response and header parsers of \<^verbatim>\<open>src/http/picohttpparser.c\<close>.

  A parser takes the unread suffix of the buffer.  It fails (\<^verbatim>\<open>*ret = -1\<close>), asks for more input
  (\<^verbatim>\<open>*ret = -2\<close>), or returns a value and the suffix it stopped at.  The scanner that uses the
  vector instruction \<^verbatim>\<open>pcmpestri\<close> is compiled in or not; the flag \<open>sse\<close> is the value of
  \<^verbatim>\<open>__SSE4_2__\<close>.  The out parameters are described for a successful parse only.

  The pointer to a header value is the memory from there up to the end of the buffer
  (\<open>ph_mem\<close>), with its length beside it.
\<close>

datatype 'a presult = Failed | Partial | Done 'a string

fun pbind :: "'a presult \<Rightarrow> ('a \<Rightarrow> string \<Rightarrow> 'b presult) \<Rightarrow> 'b presult" where
  "pbind Failed f = Failed"
| "pbind Partial f = Partial"
| "pbind (Done a rest) f = f a rest"

record phr_header =
  ph_name :: "string option"
  ph_mem :: string
  ph_value_len :: nat

abbreviation ph_value :: "phr_header \<Rightarrow> string" where
  "ph_value h \<equiv> take (ph_value_len h) (ph_mem h)"

subsection \<open>Character classes and scanning\<close>

definition is_printable_ascii :: "char \<Rightarrow> bool" where
  "is_printable_ascii c \<longleftrightarrow> 32 \<le> byte_val c \<and> byte_val c < 127"

text \<open>The rows of \<^verbatim>\<open>token_char_map\<close> for 32 to 127; the other rows are zero.\<close>

definition token_rows :: "nat list" where
  "token_rows =
     [0,1,0,1,1,1,1,1,0,0,1,1,0,1,1,0,1,1,1,1,1,1,1,1,1,1,0,0,0,0,0,0,
      0,1,1,1,1,1,1,1,1,1,1,1,1,1,1,1,1,1,1,1,1,1,1,1,1,1,1,0,0,0,1,1,
      1,1,1,1,1,1,1,1,1,1,1,1,1,1,1,1,1,1,1,1,1,1,1,1,1,1,1,0,1,0,1,0]"

definition token_char_map :: "char \<Rightarrow> bool" where
  "token_char_map c \<longleftrightarrow> 32 \<le> byte_val c \<and> byte_val c < 128 \<and> token_rows ! (byte_val c - 32) = 1"

text \<open>
  \<^verbatim>\<open>pcmpestri\<close> with unsigned bytes, ranges and least significant index: the first of sixteen bytes
  that lies in one of the closed ranges.
\<close>

definition in_ranges :: "(nat \<times> nat) list \<Rightarrow> char \<Rightarrow> bool" where
  "in_ranges rs c \<longleftrightarrow> list_ex (\<lambda>(lo, hi). lo \<le> byte_val c \<and> byte_val c \<le> hi) rs"

text \<open>The bytes passed over, the position reached and the found flag.\<close>

function find_blocks :: "(nat \<times> nat) list \<Rightarrow> string \<Rightarrow> string \<Rightarrow> string \<times> string \<times> bool" where
  "find_blocks rs skipped buf =
     (if length buf < 16 then (skipped, buf, False)
      else (let r = takeWhile (\<lambda>c. \<not> in_ranges rs c) (take 16 buf)
            in if length r \<noteq> 16 then (skipped @ r, drop (length r) buf, True)
               else find_blocks rs (skipped @ take 16 buf) (drop 16 buf)))"
  by pat_completeness auto
termination
  by (relation "measure (\<lambda>(rs, skipped, buf). length buf)") auto

declare find_blocks.simps [simp del]

definition findchar_fast :: "bool \<Rightarrow> (nat \<times> nat) list \<Rightarrow> string \<Rightarrow> string \<times> string \<times> bool" where
  "findchar_fast sse rs buf = (if sse then find_blocks rs [] buf else ([], buf, False))"

text \<open>The loop of \<^verbatim>\<open>ADVANCE_TOKEN\<close>, entered at a readable position.\<close>

fun advance_loop :: "string \<Rightarrow> string \<Rightarrow> string presult" where
  "advance_loop tok [] = Partial"
| "advance_loop tok (c # buf) =
     (if c = CHR '' '' then Done tok (c # buf)
      else if \<not> is_printable_ascii c \<and> (byte_val c < 32 \<or> byte_val c = 127) then Failed
      else advance_loop (tok @ [c]) buf)"

definition advance_token :: "bool \<Rightarrow> string \<Rightarrow> string presult" where
  "advance_token sse buf =
     (case findchar_fast sse [(0, 32), (127, 127)] buf of (tok, buf', found) \<Rightarrow>
        if \<not> found \<and> buf' = [] then Partial else advance_loop tok buf')"

definition is_ctl :: "char \<Rightarrow> bool" where
  "is_ctl c \<longleftrightarrow> byte_val c < 32 \<and> c \<noteq> tab \<or> byte_val c = 127"

text \<open>
  The part of \<^verbatim>\<open>get_token_to_eol\<close> before the simple loop: with the vector instruction, or the loop
  unrolled eight times.  The flag says that a control character was found.
\<close>

function eol_unrolled :: "string \<Rightarrow> string \<Rightarrow> string \<times> string \<times> bool" where
  "eol_unrolled tok buf =
     (if length buf < 8 then (tok, buf, False)
      else (let r = takeWhile is_printable_ascii (take 8 buf)
            in if length r = 8 then eol_unrolled (tok @ take 8 buf) (drop 8 buf)
               else if is_ctl (buf ! length r) then (tok @ r, drop (length r) buf, True)
               else eol_unrolled (tok @ take (Suc (length r)) buf) (drop (Suc (length r)) buf)))"
  by pat_completeness auto
termination
  by (relation "measure (\<lambda>(tok, buf). length buf)") auto

declare eol_unrolled.simps [simp del]

fun eol_loop :: "string \<Rightarrow> string \<Rightarrow> string presult" where
  "eol_loop tok [] = Partial"
| "eol_loop tok (c # buf) =
     (if \<not> is_printable_ascii c \<and> is_ctl c then Done tok (c # buf) else eol_loop (tok @ [c]) buf)"

fun expect_char :: "char \<Rightarrow> string \<Rightarrow> unit presult" where
  "expect_char ch [] = Partial"
| "expect_char ch (c # buf) = (if c \<noteq> ch then Failed else Done () buf)"

fun found_ctl :: "string \<Rightarrow> string \<Rightarrow> string presult" where
  "found_ctl tok [] = Partial"
| "found_ctl tok (c # buf) =
     (if c = cr then pbind (expect_char lf buf) (\<lambda>_ rest. Done tok rest)
      else if c = lf then Done tok buf
      else Failed)"

definition get_token_to_eol :: "bool \<Rightarrow> string \<Rightarrow> string presult" where
  "get_token_to_eol sse buf =
     (case (if sse then findchar_fast True [(0, 8), (10, 31), (127, 127)] buf else eol_unrolled [] buf) of
        (tok, buf', found) \<Rightarrow>
          if found then found_ctl tok buf' else pbind (eol_loop tok buf') found_ctl)"

text \<open>\<^verbatim>\<open>is_complete\<close>: the position after an empty line, searched from three bytes before the end of
  what was seen last time.\<close>

fun complete_loop :: "nat \<Rightarrow> string \<Rightarrow> unit presult" where
  "complete_loop ret_cnt [] = Partial"
| "complete_loop ret_cnt (c # buf) =
     (if c = cr then
        (case buf of
           [] \<Rightarrow> Partial
         | d # buf' \<Rightarrow>
             if d \<noteq> lf then Failed
             else if ret_cnt + 1 = 2 then Done () buf' else complete_loop (ret_cnt + 1) buf')
      else if c = lf then (if ret_cnt + 1 = 2 then Done () buf else complete_loop (ret_cnt + 1) buf)
      else complete_loop 0 buf)"

definition is_complete :: "string \<Rightarrow> nat \<Rightarrow> unit presult" where
  "is_complete buf last_len = complete_loop 0 (if last_len < 3 then buf else drop (last_len - 3) buf)"

subsection \<open>Tokens and the version\<close>

fun token_loop :: "char \<Rightarrow> string \<Rightarrow> string \<Rightarrow> string presult" where
  "token_loop next_char tok [] = Partial"
| "token_loop next_char tok (c # buf) =
     (if c = next_char then Done tok (c # buf)
      else if \<not> token_char_map c then Failed
      else token_loop next_char (tok @ [c]) buf)"

definition token_ranges :: "(nat \<times> nat) list" where
  "token_ranges = [(0, 32), (34, 34), (40, 41), (44, 44), (47, 47), (58, 64), (91, 93), (123, 255)]"

definition parse_token :: "bool \<Rightarrow> char \<Rightarrow> string \<Rightarrow> string presult" where
  "parse_token sse next_char buf =
     (case findchar_fast sse token_ranges buf of (tok, buf', found) \<Rightarrow>
        if \<not> found \<and> buf' = [] then Partial else token_loop next_char tok buf')"

fun expect_chars :: "string \<Rightarrow> string \<Rightarrow> unit presult" where
  "expect_chars [] buf = Done () buf"
| "expect_chars (ch # chs) buf = pbind (expect_char ch buf) (\<lambda>_ rest. expect_chars chs rest)"

fun parse_int :: "nat \<Rightarrow> string \<Rightarrow> nat presult" where
  "parse_int mul [] = Partial"
| "parse_int mul (c # buf) =
     (if byte_val c < 48 \<or> 57 < byte_val c then Failed else Done (mul * (byte_val c - 48)) buf)"

definition parse_int_3 :: "string \<Rightarrow> nat presult" where
  "parse_int_3 buf =
     pbind (parse_int 100 buf) (\<lambda>a buf. pbind (parse_int 10 buf) (\<lambda>b buf.
       pbind (parse_int 1 buf) (\<lambda>c buf. Done (a + b + c) buf)))"

definition parse_http_version :: "string \<Rightarrow> nat presult" where
  "parse_http_version buf =
     (if length buf < 9 then Partial
      else pbind (expect_chars ''HTTP/1.'' buf) (\<lambda>_ rest. parse_int 1 rest))"

subsection \<open>Headers\<close>

abbreviation is_blank :: "char \<Rightarrow> bool" where
  "is_blank c \<equiv> c = CHR '' '' \<or> c = tab"

definition skip_blanks :: "string \<Rightarrow> unit presult" where
  "skip_blanks buf = (case dropWhile is_blank buf of [] \<Rightarrow> Partial | c # rest \<Rightarrow> Done () (c # rest))"

text \<open>The length of a value without its trailing blanks.\<close>

definition trimmed_len :: "string \<Rightarrow> nat" where
  "trimmed_len v = length (dropWhile is_blank (rev v))"

definition parse_header_name :: "bool \<Rightarrow> nat \<Rightarrow> string \<Rightarrow> string option presult" where
  "parse_header_name sse n buf =
     (if \<not> (n \<noteq> 0 \<and> is_blank (hd buf)) then
        pbind (parse_token sse CHR '':'' buf) (\<lambda>name buf.
          if name = [] then Failed
          else pbind (skip_blanks (tl buf)) (\<lambda>_ buf. Done (Some name) buf))
      else Done None buf)"

definition parse_header_line :: "bool \<Rightarrow> nat \<Rightarrow> string \<Rightarrow> phr_header presult" where
  "parse_header_line sse n buf =
     pbind (parse_header_name sse n buf) (\<lambda>name value.
       pbind (get_token_to_eol sse value) (\<lambda>v rest.
         Done \<lparr>ph_name = name, ph_mem = value, ph_value_len = trimmed_len v\<rparr> rest))"

text \<open>
  The loop over the header lines; \<open>slots\<close> is the room left in the header array, that is
  \<^verbatim>\<open>max_headers - *num_headers\<close>.
\<close>

fun headers_loop :: "bool \<Rightarrow> nat \<Rightarrow> phr_header list \<Rightarrow> string \<Rightarrow> phr_header list presult" where
  "headers_loop sse slots hs [] = Partial"
| "headers_loop sse slots hs (c # buf) =
     (if c = cr then pbind (expect_char lf buf) (\<lambda>_ rest. Done hs rest)
      else if c = lf then Done hs buf
      else (case slots of
              0 \<Rightarrow> Failed
            | Suc slots' \<Rightarrow>
                pbind (parse_header_line sse (length hs) (c # buf)) (\<lambda>h rest.
                  headers_loop sse slots' (hs @ [h]) rest)))"

definition parse_headers :: "bool \<Rightarrow> nat \<Rightarrow> string \<Rightarrow> phr_header list presult" where
  "parse_headers sse max_headers buf = headers_loop sse max_headers [] buf"

subsection \<open>Requests\<close>

definition skip_eol :: "string \<Rightarrow> unit presult" where
  "skip_eol buf =
     (case buf of
        [] \<Rightarrow> Partial
      | c # rest \<Rightarrow>
          if c = cr then expect_char lf rest else if c = lf then Done () rest else Done () buf)"

text \<open>\<^verbatim>\<open>do { ++buf; CHECK_EOF(); } while (*buf == ' ')\<close>\<close>

definition skip_spaces :: "string \<Rightarrow> unit presult" where
  "skip_spaces buf =
     (case dropWhile (\<lambda>c. c = CHR '' '') (tl buf) of [] \<Rightarrow> Partial | c # rest \<Rightarrow> Done () (c # rest))"

definition end_of_request_line :: "string \<Rightarrow> unit presult" where
  "end_of_request_line buf =
     (case buf of
        [] \<Rightarrow> Partial
      | c # rest \<Rightarrow>
          if c = cr then expect_char lf rest else if c = lf then Done () rest else Failed)"

record phr_request =
  pr_method :: string
  pr_path :: string
  pr_minor :: nat
  pr_headers :: "phr_header list"

definition parse_request :: "bool \<Rightarrow> nat \<Rightarrow> string \<Rightarrow> phr_request presult" where
  "parse_request sse max_headers buf =
     pbind (skip_eol buf) (\<lambda>_ buf.
     pbind (parse_token sse CHR '' '' buf) (\<lambda>mth buf.
     pbind (skip_spaces buf) (\<lambda>_ buf.
     pbind (advance_token sse buf) (\<lambda>path buf.
     pbind (skip_spaces buf) (\<lambda>_ buf.
       if mth = [] \<or> path = [] then Failed
       else pbind (parse_http_version buf) (\<lambda>minor buf.
            pbind (end_of_request_line buf) (\<lambda>_ buf.
            pbind (parse_headers sse max_headers buf) (\<lambda>hs rest.
              Done \<lparr>pr_method = mth, pr_path = path, pr_minor = minor, pr_headers = hs\<rparr> rest))))))))"

text \<open>
  The entry points return the number of bytes consumed; it is the length of the buffer less the
  length of the rest.
\<close>

definition phr_parse_request :: "bool \<Rightarrow> string \<Rightarrow> nat \<Rightarrow> nat \<Rightarrow> phr_request presult" where
  "phr_parse_request sse buf max_headers last_len =
     (if last_len \<noteq> 0 then pbind (is_complete buf last_len) (\<lambda>_ _. parse_request sse max_headers buf)
      else parse_request sse max_headers buf)"

definition phr_parse_headers :: "bool \<Rightarrow> string \<Rightarrow> nat \<Rightarrow> nat \<Rightarrow> phr_header list presult" where
  "phr_parse_headers sse buf max_headers last_len =
     (if last_len \<noteq> 0 then pbind (is_complete buf last_len) (\<lambda>_ _. parse_headers sse max_headers buf)
      else parse_headers sse max_headers buf)"

subsection \<open>Responses\<close>

record phr_response =
  ps_minor :: nat
  ps_status :: nat
  ps_msg :: string
  ps_headers :: "phr_header list"

text \<open>The spaces before the reason phrase are removed; anything else there is an error.\<close>

definition status_message :: "string \<Rightarrow> string option" where
  "status_message msg =
     (if msg = [] then Some []
      else if hd msg = CHR '' '' then Some (dropWhile (\<lambda>c. c = CHR '' '') msg)
      else None)"

definition parse_response :: "bool \<Rightarrow> nat \<Rightarrow> string \<Rightarrow> phr_response presult" where
  "parse_response sse max_headers buf =
     pbind (parse_http_version buf) (\<lambda>minor buf.
       if buf = [] \<or> hd buf \<noteq> CHR '' '' then Failed
       else pbind (skip_spaces buf) (\<lambda>_ buf.
         if length buf < 4 then Partial
         else pbind (parse_int_3 buf) (\<lambda>status buf.
              pbind (get_token_to_eol sse buf) (\<lambda>msg buf.
                case status_message msg of
                  None \<Rightarrow> Failed
                | Some m \<Rightarrow>
                    pbind (parse_headers sse max_headers buf) (\<lambda>hs rest.
                      Done \<lparr>ps_minor = minor, ps_status = status, ps_msg = m, ps_headers = hs\<rparr> rest)))))"

definition phr_parse_response :: "bool \<Rightarrow> string \<Rightarrow> nat \<Rightarrow> nat \<Rightarrow> phr_response presult" where
  "phr_parse_response sse buf max_headers last_len =
     (if last_len \<noteq> 0 then pbind (is_complete buf last_len) (\<lambda>_ _. parse_response sse max_headers buf)
      else parse_response sse max_headers buf)"

end
