(* ===== verification/Pico_Stream.thy ===== *)
theory Pico_Stream
  imports Pico
begin

text \<open>
  Facts about the parsers of \<open>Pico\<close>: the vectorised and the portable scanners compute the same
  function, a verdict reached on a buffer does not change when more bytes arrive, and a printed
  request is parsed back.
\<close>

subsection \<open>The scanners as splits\<close>

definition split_at :: "(char \<Rightarrow> bool) \<Rightarrow> string \<Rightarrow> string presult" where
  "split_at P buf = (case dropWhile P buf of [] \<Rightarrow> Partial | c # r \<Rightarrow> Done (takeWhile P buf) (c # r))"

definition path_char :: "char \<Rightarrow> bool" where
  "path_char c \<longleftrightarrow> 32 < byte_val c \<and> byte_val c \<noteq> 127"

definition token_char :: "char \<Rightarrow> char \<Rightarrow> bool" where
  "token_char d c \<longleftrightarrow> c \<noteq> d \<and> token_char_map c"

lemma byte_val_inj [simp]: "byte_val c = byte_val d \<longleftrightarrow> c = d"
  by simp

lemma byte_val_eqI: "byte_val c = n \<Longrightarrow> c = char_of n"
  by auto

lemma space_byte: "c = CHR '' '' \<longleftrightarrow> byte_val c = 32"
  using byte_val_inj [of c "CHR '' ''"] by simp

lemma split_at_Cons: "split_at P (c # buf) =
    (if P c then pbind (split_at P buf) (\<lambda>t r. Done (c # t) r) else Done [] (c # buf))"
  by (cases "dropWhile P buf") (simp_all add: split_at_def del: dropWhile_eq_Nil_conv)

lemma split_at_append: "list_all P p \<Longrightarrow> split_at P (p @ buf) = pbind (split_at P buf) (\<lambda>t r. Done (p @ t) r)"
  by (cases "dropWhile P buf") (simp_all add: split_at_def list_all_iff del: dropWhile_eq_Nil_conv)

lemma split_at_Nil [simp]: "split_at P [] = Partial"
  by (simp add: split_at_def)

lemma pbind_assoc [simp]: "pbind (pbind p f) g = pbind p (\<lambda>a r. pbind (f a r) g)"
  by (cases p) simp_all

lemma pbind_Done_id [simp]: "pbind p Done = p"
  by (cases p) simp_all

lemma advance_loop_eq:
  "advance_loop tok buf = pbind (split_at path_char buf) (\<lambda>t r.
     if hd r = CHR '' '' then Done (tok @ t) r else Failed)"
proof (induction buf arbitrary: tok)
  case (Cons c buf)
  show ?case
  proof (cases "path_char c")
    case True
    then show ?thesis by (auto simp: split_at_Cons Cons path_char_def space_byte cong: if_cong)
  next
    case False
    then have "c = CHR '' '' \<or> byte_val c < 32 \<or> byte_val c = 127" by (auto simp: path_char_def space_byte)
    with False show ?thesis by (auto simp: split_at_Cons is_printable_ascii_def space_byte)
  qed
qed simp

lemma token_loop_eq:
  "token_loop d tok buf = pbind (split_at (token_char d) buf) (\<lambda>t r.
     if hd r = d then Done (tok @ t) r else Failed)"
  by (induction buf arbitrary: tok) (auto simp: split_at_Cons token_char_def cong: if_cong)

lemma is_ctl_not_printable: "is_ctl c \<Longrightarrow> \<not> is_printable_ascii c"
  by (auto simp: is_ctl_def is_printable_ascii_def)

lemma eol_loop_eq: "eol_loop tok buf = pbind (split_at (\<lambda>c. \<not> is_ctl c) buf) (\<lambda>t r. Done (tok @ t) r)"
  by (induction buf arbitrary: tok) (auto simp: split_at_Cons is_ctl_not_printable)

text \<open>What the block scanners guarantee: they pass over harmless bytes only.\<close>

lemma find_blocks_skips:
  "find_blocks rs tok buf = (tok', buf', found) \<Longrightarrow>
     \<exists>p. tok' = tok @ p \<and> buf = p @ buf' \<and> list_all (\<lambda>c. \<not> in_ranges rs c) p \<and> (found \<longrightarrow> buf' \<noteq> [] \<and> in_ranges rs (hd buf'))"
proof (induction rs tok buf rule: find_blocks.induct)
  case (1 rs tok buf)
  let ?r = "takeWhile (\<lambda>c. \<not> in_ranges rs c) (take 16 buf)"
  show ?case
  proof (cases "length buf < 16")
    case True
    with "1.prems" show ?thesis by (simp add: find_blocks.simps)
  next
    case long: False
    define d where "d = dropWhile (\<lambda>c. \<not> in_ranges rs c) (take 16 buf)"
    have r_d: "take 16 buf = ?r @ d" by (simp add: d_def)
    then have buf: "buf = ?r @ d @ drop 16 buf" by (metis append.assoc append_take_drop_id)
    have ok: "list_all (\<lambda>c. \<not> in_ranges rs c) ?r" by (auto simp: list_all_iff dest: set_takeWhileD)
    have "length (take 16 buf) = 16" using long by simp
    then have len: "length ?r + length d = 16" using r_d by (metis length_append)
    show ?thesis
    proof (cases "length ?r = 16")
      case True
      with len r_d have r: "?r = take 16 buf" by simp
      from "1.prems" long True have "find_blocks rs (tok @ take 16 buf) (drop 16 buf) = (tok', buf', found)"
        by (simp add: find_blocks.simps [of rs tok buf])
      from "1.IH" [OF long refl _ this] True obtain p where p: "tok' = (tok @ take 16 buf) @ p" "drop 16 buf = p @ buf'"
        "list_all (\<lambda>c. \<not> in_ranges rs c) p" "found \<longrightarrow> buf' \<noteq> [] \<and> in_ranges rs (hd buf')" by auto
      have "buf = (take 16 buf @ p) @ buf'" using p(2) by (metis append.assoc append_take_drop_id)
      then show ?thesis using p ok unfolding r by (intro exI [of _ "take 16 buf @ p"]) simp
    next
      case False
      with len have d: "d \<noteq> []" by auto
      then have hd: "in_ranges rs (hd d)" using hd_dropWhile [of "\<lambda>c. \<not> in_ranges rs c"] by (simp add: d_def)
      from "1.prems" long False have "tok' = tok @ ?r" "buf' = drop (length ?r) buf" "found"
        by (simp_all add: find_blocks.simps [of rs tok buf] Let_def)
      moreover have "drop (length ?r) buf = d @ drop 16 buf" using buf by (metis append_eq_conv_conj)
      ultimately show ?thesis using buf ok d hd by (intro exI [of _ ?r]) simp
    qed
  qed
qed

lemma findchar_fast_skips:
  assumes "findchar_fast sse rs buf = (tok, buf', found)"
  obtains "buf = tok @ buf'" "list_all (\<lambda>c. \<not> in_ranges rs c) tok" "found \<Longrightarrow> buf' \<noteq> [] \<and> in_ranges rs (hd buf')"
  using assms find_blocks_skips [of rs "[]" buf tok buf' found]
  by (cases sse) (auto simp: findchar_fast_def)

lemma eol_unrolled_skips:
  "eol_unrolled tok buf = (tok', buf', found) \<Longrightarrow>
     \<exists>p. tok' = tok @ p \<and> buf = p @ buf' \<and> list_all (\<lambda>c. \<not> is_ctl c) p \<and> (found \<longrightarrow> buf' \<noteq> [] \<and> is_ctl (hd buf'))"
proof (induction tok buf rule: eol_unrolled.induct)
  case (1 tok buf)
  let ?r = "takeWhile is_printable_ascii (take 8 buf)"
  show ?case
  proof (cases "length buf < 8")
    case True
    with "1.prems" show ?thesis by (simp add: eol_unrolled.simps)
  next
    case long: False
    define d where "d = dropWhile is_printable_ascii (take 8 buf)"
    have r_d: "take 8 buf = ?r @ d" by (simp add: d_def)
    then have buf: "buf = ?r @ d @ drop 8 buf" by (metis append.assoc append_take_drop_id)
    have ok: "list_all (\<lambda>c. \<not> is_ctl c) ?r" by (auto simp: list_all_iff dest: set_takeWhileD is_ctl_not_printable)
    have "length (take 8 buf) = 8" using long by simp
    then have len: "length ?r + length d = 8" using r_d by (metis length_append)
    show ?thesis
    proof (cases "length ?r = 8")
      case True
      with len r_d have r: "?r = take 8 buf" by simp
      from "1.prems" long True have "eol_unrolled (tok @ take 8 buf) (drop 8 buf) = (tok', buf', found)"
        by (simp add: eol_unrolled.simps [of tok buf])
      from "1.IH"(1) [OF long refl True this] obtain p where p: "tok' = (tok @ take 8 buf) @ p" "drop 8 buf = p @ buf'"
        "list_all (\<lambda>c. \<not> is_ctl c) p" "found \<longrightarrow> buf' \<noteq> [] \<and> is_ctl (hd buf')" by auto
      have "buf = (take 8 buf @ p) @ buf'" using p(2) by (metis append.assoc append_take_drop_id)
      then show ?thesis using p ok unfolding r by (intro exI [of _ "take 8 buf @ p"]) simp
    next
      case False
      with len obtain x xs where d: "d = x # xs" by (cases d) auto
      have nth: "buf ! length ?r = x" using buf d by (metis append_Cons nth_append_length)
      have rest: "drop (length ?r) buf = d @ drop 8 buf" using buf by (metis append_eq_conv_conj)
      show ?thesis
      proof (cases "is_ctl x")
        case True
        with "1.prems" long False nth have "tok' = tok @ ?r" "buf' = drop (length ?r) buf" "found"
          by (simp_all add: eol_unrolled.simps [of tok buf] Let_def)
        then show ?thesis using buf ok d True rest by (intro exI [of _ ?r]) simp
      next
        case ctl: False
        have buf2: "buf = (?r @ [x]) @ xs @ drop 8 buf" using buf d by simp
        have take: "take (Suc (length ?r)) buf = ?r @ [x]"
          by (subst buf2) simp
        have "drop (Suc (length ?r)) buf = xs @ drop 8 buf" by (subst buf2) simp
        from "1.prems" long False nth ctl
        have "eol_unrolled (tok @ take (Suc (length ?r)) buf) (drop (Suc (length ?r)) buf) = (tok', buf', found)"
          by (simp add: eol_unrolled.simps [of tok buf] Let_def)
        from "1.IH"(2) [OF long refl False _ this] nth ctl obtain p where
          p: "tok' = (tok @ take (Suc (length ?r)) buf) @ p" "drop (Suc (length ?r)) buf = p @ buf'"
          "list_all (\<lambda>c. \<not> is_ctl c) p" "found \<longrightarrow> buf' \<noteq> [] \<and> is_ctl (hd buf')" by auto
        have "buf = (?r @ [x] @ p) @ buf'"
          using p(2) take by (metis append.assoc append_take_drop_id)
        then show ?thesis using p ok ctl unfolding take by (intro exI [of _ "?r @ [x] @ p"]) simp
      qed
    qed
  qed
qed

lemma all_bytes: "(\<forall>n<256. P n) \<Longrightarrow> P (byte_val c)"
  using nat_of_char_less_256 by blast

lemma harmless_path: "\<not> in_ranges [(0, 32), (127, 127)] c \<Longrightarrow> path_char c"
  by (auto simp: in_ranges_def path_char_def)

lemma harmless_eol: "in_ranges [(0, 8), (10, 31), (127, 127)] c \<longleftrightarrow> is_ctl c"
proof -
  have "c = tab \<longleftrightarrow> byte_val c = 9" using byte_val_inj [of c tab] by simp
  then show ?thesis by (auto simp: in_ranges_def is_ctl_def)
qed

lemma token_table: "list_all (\<lambda>(n, b). b = 1 \<or> list_ex (\<lambda>(lo, hi). lo \<le> n \<and> n \<le> hi) token_ranges) (enumerate 32 token_rows)"
  by (simp add: token_rows_def token_ranges_def)

lemma harmless_token:
  assumes "\<not> in_ranges token_ranges c"
  shows "token_char_map c"
proof -
  have "\<not> list_ex (\<lambda>(lo, hi). lo \<le> byte_val c \<and> byte_val c \<le> hi) token_ranges"
    using assms by (simp add: in_ranges_def)
  moreover from this have n: "32 \<le> byte_val c" "byte_val c < 128"
    using nat_of_char_less_256 [of c] by (auto simp: token_ranges_def)
  moreover have "length token_rows = 96" by (simp add: token_rows_def)
  then have "(byte_val c, token_rows ! (byte_val c - 32)) \<in> set (enumerate 32 token_rows)"
    using n by (auto simp: in_set_enumerate_eq)
  ultimately have "token_rows ! (byte_val c - 32) = 1"
    using token_table unfolding list_all_iff by blast
  with n show ?thesis by (simp add: token_char_map_def)
qed

lemma delimiter_in_ranges: "d = CHR '' '' \<or> d = CHR '':'' \<Longrightarrow> in_ranges token_ranges d"
  by (elim disjE) (simp_all add: in_ranges_def token_ranges_def)

named_theorems scanner_eqs "the scanners as splits at the first character of a class"

lemma advance_token_eq [scanner_eqs]:
  "advance_token sse buf = pbind (split_at path_char buf) (\<lambda>t r. if hd r = CHR '' '' then Done t r else Failed)"
proof -
  obtain tok buf' found where f: "findchar_fast sse [(0, 32), (127, 127)] buf = (tok, buf', found)"
    by (metis prod_cases3)
  from f show ?thesis
  proof (rule findchar_fast_skips)
    assume buf: "buf = tok @ buf'" and ok: "list_all (\<lambda>c. \<not> in_ranges [(0, 32), (127, 127)] c) tok"
      and found: "found \<Longrightarrow> buf' \<noteq> [] \<and> in_ranges [(0, 32), (127, 127)] (hd buf')"
    have "list_all path_char tok" using ok by (auto simp: list_all_iff harmless_path)
    then have "split_at path_char buf = pbind (split_at path_char buf') (\<lambda>t r. Done (tok @ t) r)"
      unfolding buf by (rule split_at_append)
    then show ?thesis using found by (simp add: advance_token_def f advance_loop_eq)
  qed
qed

lemma parse_token_eq [scanner_eqs]:
  assumes "d = CHR '' '' \<or> d = CHR '':''"
  shows "parse_token sse d buf = pbind (split_at (token_char d) buf) (\<lambda>t r. if hd r = d then Done t r else Failed)"
proof -
  obtain tok buf' found where f: "findchar_fast sse token_ranges buf = (tok, buf', found)"
    by (metis prod_cases3)
  from f show ?thesis
  proof (rule findchar_fast_skips)
    assume buf: "buf = tok @ buf'" and ok: "list_all (\<lambda>c. \<not> in_ranges token_ranges c) tok"
      and found: "found \<Longrightarrow> buf' \<noteq> [] \<and> in_ranges token_ranges (hd buf')"
    have "list_all (token_char d) tok"
      using ok delimiter_in_ranges [OF assms] by (auto simp: list_all_iff token_char_def harmless_token)
    then have "split_at (token_char d) buf = pbind (split_at (token_char d) buf') (\<lambda>t r. Done (tok @ t) r)"
      unfolding buf by (rule split_at_append)
    then show ?thesis using found by (simp add: parse_token_def f token_loop_eq)
  qed
qed

lemma get_token_to_eol_eq [scanner_eqs]:
  "get_token_to_eol sse buf = pbind (split_at (\<lambda>c. \<not> is_ctl c) buf) found_ctl"
proof -
  obtain tok buf' found where
    f: "(if sse then findchar_fast True [(0, 8), (10, 31), (127, 127)] buf else eol_unrolled [] buf) = (tok, buf', found)"
    by (metis prod_cases3)
  have skip: "buf = tok @ buf'" "list_all (\<lambda>c. \<not> is_ctl c) tok" "found \<Longrightarrow> buf' \<noteq> [] \<and> is_ctl (hd buf')"
    using f find_blocks_skips [of "[(0, 8), (10, 31), (127, 127)]" "[]" buf tok buf' found]
      eol_unrolled_skips [of "[]" buf tok buf' found]
    by (cases sse; fastforce simp: findchar_fast_def harmless_eol)+
  have split: "split_at (\<lambda>c. \<not> is_ctl c) buf = pbind (split_at (\<lambda>c. \<not> is_ctl c) buf') (\<lambda>t r. Done (tok @ t) r)"
    unfolding skip(1) by (rule split_at_append) (fact skip(2))
  show ?thesis
  proof (cases found)
    case True
    with skip(3) obtain c r where "buf' = c # r" "is_ctl c" by (cases buf') auto
    then show ?thesis using True split by (simp add: get_token_to_eol_def f split_at_Cons)
  next
    case False
    then show ?thesis using split by (simp add: get_token_to_eol_def f eol_loop_eq)
  qed
qed

subsection \<open>The two builds agree\<close>

lemma parse_header_line_sse: "parse_header_line sse n buf = parse_header_line sse' n buf"
  by (simp add: parse_header_line_def parse_header_name_def scanner_eqs)

lemma headers_loop_sse: "headers_loop sse slots hs buf = headers_loop sse' slots hs buf"
proof (induction slots arbitrary: hs buf)
  case 0
  show ?case by (cases buf) simp_all
next
  case (Suc slots)
  show ?case
    by (cases buf; cases "parse_header_line sse (length hs) buf")
      (simp_all add: Suc [of "_ @ [_]"] parse_header_line_sse [of sse' _ _ sse])
qed

lemma scanners_sse:
  "parse_token sse CHR '' '' = parse_token sse' CHR '' ''" "advance_token sse = advance_token sse'"
  "get_token_to_eol sse = get_token_to_eol sse'" "parse_headers sse n = parse_headers sse' n"
  by (auto simp: fun_eq_iff scanner_eqs parse_headers_def headers_loop_sse [of sse _ _ _ sse'])

lemma parse_request_sse: "parse_request sse n buf = parse_request sse' n buf"
  unfolding parse_request_def scanners_sse [where sse = sse and sse' = sse'] ..

lemma parse_response_sse: "parse_response sse n buf = parse_response sse' n buf"
  unfolding parse_response_def scanners_sse [where sse = sse and sse' = sse'] ..

subsection \<open>Verdicts are stable under more input\<close>

text \<open>
  When a parser has failed on a buffer it fails on every extension, and when it has returned it
  returns the same on every extension, with the new bytes after the rest.  The function \<open>ext\<close> says how the new
  bytes show in the value, through a pointer into the buffer.
\<close>

definition stable :: "(string \<Rightarrow> 'a \<Rightarrow> 'a) \<Rightarrow> (string \<Rightarrow> 'a presult) \<Rightarrow> bool" where
  "stable ext p \<longleftrightarrow> (\<forall>buf ys.
     (p buf = Failed \<longrightarrow> p (buf @ ys) = Failed) \<and>
     (\<forall>v r. p buf = Done v r \<longrightarrow> p (buf @ ys) = Done (ext ys v) (r @ ys)))"

abbreviation same :: "string \<Rightarrow> 'a \<Rightarrow> 'a" where
  "same _ v \<equiv> v"

named_theorems stable_intros "parsers whose verdict is stable under more input"

lemma stableI:
  assumes "\<And>buf ys. p buf = Failed \<Longrightarrow> p (buf @ ys) = Failed"
    and "\<And>buf ys v r. p buf = Done v r \<Longrightarrow> p (buf @ ys) = Done (ext ys v) (r @ ys)"
  shows "stable ext p"
  using assms by (simp add: stable_def)

lemma stable_bind:
  assumes p: "stable same p" and f: "\<And>v. stable ext (f v)"
  shows "stable ext (\<lambda>buf. pbind (p buf) f)"
proof (rule stableI)
  fix buf ys
  assume "pbind (p buf) f = Failed"
  then show "pbind (p (buf @ ys)) f = Failed"
    using p f by (cases "p buf") (auto simp: stable_def)
next
  fix buf ys v r
  assume "pbind (p buf) f = Done v r"
  then show "pbind (p (buf @ ys)) f = Done (ext ys v) (r @ ys)"
    using p f by (cases "p buf") (auto simp: stable_def)
qed

lemma stable_Done [stable_intros]: "stable same (Done v)"
  by (simp add: stable_def)

lemma stable_Failed [stable_intros]: "stable ext (\<lambda>buf. Failed)"
  by (simp add: stable_def)

lemma stable_if [stable_intros]: "(b \<Longrightarrow> stable ext p) \<Longrightarrow> (\<not> b \<Longrightarrow> stable ext q) \<Longrightarrow> stable ext (\<lambda>buf. if b then p buf else q buf)"
  by (cases b) simp_all

lemma stable_if_Partial [stable_intros]:
  "stable ext p \<Longrightarrow> stable ext (\<lambda>buf. if length buf < n then Partial else p buf)"
  by (auto simp: stable_def)

lemma split_at_more: "split_at P buf = Done t r \<Longrightarrow> split_at P (buf @ ys) = Done t (r @ ys) \<and> r \<noteq> []"
proof (induction buf arbitrary: t)
  case (Cons c buf)
  show ?case
  proof (cases "P c")
    case True
    with Cons.prems obtain t' where "split_at P buf = Done t' r" "t = c # t'"
      by (cases "split_at P buf") (auto simp: split_at_Cons)
    with Cons.IH [of t'] True show ?thesis by (simp add: split_at_Cons)
  qed (use Cons.prems in \<open>auto simp: split_at_Cons\<close>)
qed simp

lemma split_at_not_Failed [simp]: "split_at P buf \<noteq> Failed"
  by (simp add: split_at_def split: list.split)

lemma stable_split [stable_intros]:
  assumes "\<And>t. stable ext (f t)"
  shows "stable ext (\<lambda>buf. pbind (split_at P buf) (\<lambda>t r. if hd r = d then f t r else Failed))"
proof (rule stableI)
  fix buf ys
  assume "pbind (split_at P buf) (\<lambda>t r. if hd r = d then f t r else Failed) = Failed"
  then show "pbind (split_at P (buf @ ys)) (\<lambda>t r. if hd r = d then f t r else Failed) = Failed"
    using assms split_at_more [of P buf _ _ ys] by (cases "split_at P buf") (auto simp: stable_def split: if_splits)
next
  fix buf ys v r
  assume "pbind (split_at P buf) (\<lambda>t r. if hd r = d then f t r else Failed) = Done v r"
  then show "pbind (split_at P (buf @ ys)) (\<lambda>t r. if hd r = d then f t r else Failed) = Done (ext ys v) (r @ ys)"
    using assms split_at_more [of P buf _ _ ys] by (cases "split_at P buf") (auto simp: stable_def split: if_splits)
qed

lemma expect_char_eq: "expect_char ch = (\<lambda>buf. case buf of [] \<Rightarrow> Partial | c # r \<Rightarrow> if c \<noteq> ch then Failed else Done () r)"
  by (auto simp: fun_eq_iff split: list.split)

lemma stable_list_case [stable_intros]:
  assumes "\<And>c. stable ext (f c)"
  shows "stable ext (\<lambda>buf. case buf of [] \<Rightarrow> Partial | c # r \<Rightarrow> f c r)"
proof (rule stableI)
  show "(case buf @ ys of [] \<Rightarrow> Partial | c # r \<Rightarrow> f c r) = Failed"
    if "(case buf of [] \<Rightarrow> Partial | c # r \<Rightarrow> f c r) = Failed" for buf ys
    using that assms by (cases buf) (auto simp: stable_def)
  show "(case buf @ ys of [] \<Rightarrow> Partial | c # r \<Rightarrow> f c r) = Done (ext ys v) (r @ ys)"
    if "(case buf of [] \<Rightarrow> Partial | c # r \<Rightarrow> f c r) = Done v r" for buf ys v r
    using that assms by (cases buf) (auto simp: stable_def)
qed

lemma stable_expect_char [stable_intros]: "stable same (expect_char ch)"
  unfolding expect_char_eq by (intro stable_intros)

lemma stable_drop_case:
  "stable same (\<lambda>buf. case dropWhile P buf of [] \<Rightarrow> Partial | c # r \<Rightarrow> Done () (c # r))"
proof (rule stableI)
  show "(case dropWhile P (buf @ ys) of [] \<Rightarrow> Partial | c # r \<Rightarrow> Done () (c # r)) = Done v (r @ ys)"
    if "(case dropWhile P buf of [] \<Rightarrow> Partial | c # r \<Rightarrow> Done () (c # r)) = Done v r" for buf ys v r
    using that by (induction buf) (auto split: if_splits)
qed (simp split: list.splits)

lemma stable_skip_blanks [stable_intros]: "stable same skip_blanks"
  unfolding skip_blanks_def [abs_def] by (rule stable_drop_case)

lemma skip_spaces_Cons: "skip_spaces (c # buf) = (case dropWhile (\<lambda>c. c = CHR '' '') buf of [] \<Rightarrow> Partial | c # r \<Rightarrow> Done () (c # r))"
  by (simp add: skip_spaces_def)

lemma stable_skip_spaces [stable_intros]: "stable same skip_spaces"
proof (rule stableI)
  note s = stable_drop_case [of "\<lambda>c. c = CHR '' ''", unfolded stable_def]
  show "skip_spaces (buf @ ys) = Failed" if "skip_spaces buf = Failed" for buf ys
    using that by (simp add: skip_spaces_def split: list.splits)
  show "skip_spaces (buf @ ys) = Done v (r @ ys)" if "skip_spaces buf = Done v r" for buf ys v r
    using that s by (cases buf) (simp_all add: skip_spaces_Cons, simp add: skip_spaces_def)
qed

lemma stable_skip_eol [stable_intros]: "stable same skip_eol"
proof -
  have eq: "skip_eol = (\<lambda>buf. case buf of [] \<Rightarrow> Partial | c # r \<Rightarrow>
      if c = cr then expect_char lf r else if c = lf then Done () r else Done () (c # r))"
    by (auto simp: fun_eq_iff skip_eol_def split: list.split)
  have keep: "stable same (\<lambda>r. Done () (c # r))" for c by (simp add: stable_def)
  show ?thesis unfolding eq by (intro stable_intros keep)
qed

lemma stable_end_of_request_line [stable_intros]: "stable same end_of_request_line"
  unfolding end_of_request_line_def [abs_def] by (intro stable_intros)

lemma stable_expect_chars [stable_intros]: "stable same (expect_chars chs)"
proof (induction chs)
  case Nil
  have eq: "expect_chars [] = Done ()" by (rule ext) simp
  show ?case unfolding eq by (rule stable_Done)
next
  case (Cons ch chs)
  have eq: "expect_chars (ch # chs) = (\<lambda>buf. pbind (expect_char ch buf) (\<lambda>_ rest. expect_chars chs rest))"
    by (rule ext) simp
  show ?case unfolding eq by (rule stable_bind [OF stable_expect_char Cons])
qed

lemma stable_parse_int [stable_intros]: "stable same (parse_int mul)"
proof -
  have "parse_int mul = (\<lambda>buf. case buf of [] \<Rightarrow> Partial | c # r \<Rightarrow>
      if byte_val c < 48 \<or> 57 < byte_val c then Failed else Done (mul * (byte_val c - 48)) r)"
    by (auto simp: fun_eq_iff split: list.split)
  then show ?thesis by (simp only:) (intro stable_intros)
qed

lemma stable_http_version [stable_intros]: "stable same parse_http_version"
  unfolding parse_http_version_def [abs_def] by (intro stable_intros stable_bind)

lemma found_ctl_eq: "found_ctl tok = (\<lambda>buf. case buf of [] \<Rightarrow> Partial | c # r \<Rightarrow>
    if c = cr then pbind (expect_char lf r) (\<lambda>_ rest. Done tok rest) else if c = lf then Done tok r else Failed)"
  by (auto simp: fun_eq_iff split: list.split)

lemma stable_split_at: "(\<And>t. stable ext (f t)) \<Longrightarrow> stable ext (\<lambda>buf. pbind (split_at P buf) f)"
  by (rule stable_bind) (auto simp: stable_def dest: split_at_more)

lemma stable_get_token_to_eol [stable_intros]: "stable same (get_token_to_eol sse)"
  unfolding get_token_to_eol_eq [abs_def] found_ctl_eq [abs_def]
  by (intro stable_split_at stable_intros stable_bind)

lemma stable_advance_token [stable_intros]: "stable same (advance_token sse)"
  unfolding advance_token_eq [abs_def] by (intro stable_intros)

lemma stable_parse_token: "d = CHR '' '' \<or> d = CHR '':'' \<Longrightarrow> stable same (parse_token sse d)"
  by (subst ext [OF parse_token_eq]) (assumption | intro stable_intros)+

lemmas stable_parse_tokens [stable_intros] = stable_parse_token [of "CHR '' ''", simplified] stable_parse_token [of "CHR '':''", simplified]

lemma stable_Cons: "stable ext p \<Longrightarrow> stable ext (\<lambda>buf. p (c # buf))"
  unfolding stable_def by (metis append_Cons)

lemma stable_tl: "stable same p \<Longrightarrow> p [] = Partial \<Longrightarrow> stable same (\<lambda>buf. p (tl buf))"
  unfolding stable_def by (metis list.sel(2) presult.distinct(1,5) tl_append2)

definition ext_header :: "string \<Rightarrow> phr_header \<Rightarrow> phr_header" where
  "ext_header ys h = h\<lparr>ph_mem := ph_mem h @ ys\<rparr>"

definition ext_request :: "string \<Rightarrow> phr_request \<Rightarrow> phr_request" where
  "ext_request ys r = r\<lparr>pr_headers := map (ext_header ys) (pr_headers r)\<rparr>"

lemma stable_header_name: "stable same (\<lambda>buf. parse_header_name sse n (c # buf))"
proof -
  have "skip_blanks [] = Partial" by (simp add: skip_blanks_def)
  note blanks = stable_tl [OF stable_skip_blanks this]
  have "stable same (\<lambda>buf. if \<not> (n \<noteq> 0 \<and> is_blank c) then
      pbind (parse_token sse CHR '':'' (c # buf)) (\<lambda>name buf.
        if name = [] then Failed else pbind (skip_blanks (tl buf)) (\<lambda>_ buf. Done (Some name) buf))
      else Done None (c # buf))"
    by (intro stable_if stable_bind [OF stable_Cons [where p = "parse_token sse CHR '':''"]]
        stable_bind [OF blanks] stable_intros stable_Cons [OF stable_Done])
  then show ?thesis by (simp add: parse_header_name_def)
qed

lemma stable_header_line: "stable ext_header (\<lambda>buf. parse_header_line sse n (c # buf))"
proof -
  have "stable ext_header (\<lambda>val. pbind (get_token_to_eol sse val) (\<lambda>v rest.
      Done \<lparr>ph_name = name, ph_mem = val, ph_value_len = trimmed_len v\<rparr> rest))" for name
  proof (rule stableI)
    note s = stable_get_token_to_eol [of sse, unfolded stable_def, rule_format]
    fix val ys v r
    show "pbind (get_token_to_eol sse (val @ ys)) (\<lambda>v rest.
        Done \<lparr>ph_name = name, ph_mem = val @ ys, ph_value_len = trimmed_len v\<rparr> rest) = Failed"
      if "pbind (get_token_to_eol sse val) (\<lambda>v rest.
        Done \<lparr>ph_name = name, ph_mem = val, ph_value_len = trimmed_len v\<rparr> rest) = Failed"
      using that s [of val ys] by (cases "get_token_to_eol sse val") auto
    show "pbind (get_token_to_eol sse (val @ ys)) (\<lambda>v rest.
        Done \<lparr>ph_name = name, ph_mem = val @ ys, ph_value_len = trimmed_len v\<rparr> rest) = Done (ext_header ys v) (r @ ys)"
      if "pbind (get_token_to_eol sse val) (\<lambda>v rest.
        Done \<lparr>ph_name = name, ph_mem = val, ph_value_len = trimmed_len v\<rparr> rest) = Done v r"
      using that s [of val ys] by (cases "get_token_to_eol sse val") (auto simp: ext_header_def)
  qed
  then show ?thesis unfolding parse_header_line_def by (intro stable_bind [OF stable_header_name])
qed

lemma headers_loop_stable:
  "(headers_loop sse slots hs buf = Failed \<longrightarrow> headers_loop sse slots (map (ext_header ys) hs) (buf @ ys) = Failed) \<and>
   (\<forall>v r. headers_loop sse slots hs buf = Done v r \<longrightarrow>
      headers_loop sse slots (map (ext_header ys) hs) (buf @ ys) = Done (map (ext_header ys) v) (r @ ys))"
proof (induction slots arbitrary: hs buf)
  case 0
  show ?case by (cases buf; cases "tl buf") (auto split: if_splits)
next
  case (Suc slots)
  show ?case
  proof (cases buf)
    case (Cons c b)
    note line = stable_header_line [of sse "length hs" c, unfolded stable_def, rule_format, of b ys]
    show ?thesis
    proof (cases "c = cr \<or> c = lf")
      case True
      then show ?thesis using Cons by (cases b) auto
    next
      case False
      then show ?thesis
        using Cons line Suc [of "hs @ [_]"]
        by (cases "parse_header_line sse (length hs) (c # b)") auto
    qed
  qed simp
qed

lemma stable_parse_headers: "stable (\<lambda>ys. map (ext_header ys)) (parse_headers sse n)"
  using headers_loop_stable [of sse n "[]"] by (simp add: stable_def parse_headers_def)

lemma stable_parse_request: "stable ext_request (parse_request sse n)"
proof -
  have hs: "stable ext_request (\<lambda>buf. pbind (parse_headers sse n buf) (\<lambda>hs rest.
      Done \<lparr>pr_method = m, pr_path = p, pr_minor = v, pr_headers = hs\<rparr> rest))" for m p v
  proof (rule stableI)
    fix buf ys w r
    note s = stable_parse_headers [of sse n, unfolded stable_def, rule_format, of buf ys]
    show "pbind (parse_headers sse n (buf @ ys)) (\<lambda>hs rest.
        Done \<lparr>pr_method = m, pr_path = p, pr_minor = v, pr_headers = hs\<rparr> rest) = Failed"
      if "pbind (parse_headers sse n buf) (\<lambda>hs rest.
        Done \<lparr>pr_method = m, pr_path = p, pr_minor = v, pr_headers = hs\<rparr> rest) = Failed"
      using that s by (cases "parse_headers sse n buf") auto
    show "pbind (parse_headers sse n (buf @ ys)) (\<lambda>hs rest.
        Done \<lparr>pr_method = m, pr_path = p, pr_minor = v, pr_headers = hs\<rparr> rest) = Done (ext_request ys w) (r @ ys)"
      if "pbind (parse_headers sse n buf) (\<lambda>hs rest.
        Done \<lparr>pr_method = m, pr_path = p, pr_minor = v, pr_headers = hs\<rparr> rest) = Done w r"
      using that s by (cases "parse_headers sse n buf") (auto simp: ext_request_def)
  qed
  show ?thesis unfolding parse_request_def [abs_def] by (intro stable_bind stable_intros hs)
qed

subsection \<open>What is consumed is a prefix\<close>

definition suffixing :: "(string \<Rightarrow> 'a presult) \<Rightarrow> bool" where
  "suffixing p \<longleftrightarrow> (\<forall>buf v r. p buf = Done v r \<longrightarrow> suffix r buf)"

named_theorems suffix_intros "parsers that stop at a suffix of their input"

lemma suffixing_bind: "suffixing p \<Longrightarrow> (\<And>v. suffixing (f v)) \<Longrightarrow> suffixing (\<lambda>buf. pbind (p buf) f)"
  unfolding suffixing_def
proof (intro allI impI)
  fix buf v r
  assume p: "\<forall>buf v r. p buf = Done v r \<longrightarrow> suffix r buf" and f: "\<And>v. \<forall>buf w r. f v buf = Done w r \<longrightarrow> suffix r buf"
    and r: "pbind (p buf) f = Done v r"
  then obtain w b where "p buf = Done w b" "f w b = Done v r" by (cases "p buf") auto
  with p f show "suffix r buf" using suffix_order.trans by blast
qed

lemma suffixing_basic [suffix_intros]:
  "suffixing (Done v)" "suffixing (\<lambda>buf. Failed)" "suffixing (\<lambda>buf. Partial)"
  by (auto simp: suffixing_def)

lemma suffixing_if [suffix_intros]:
  "suffixing p \<Longrightarrow> suffixing q \<Longrightarrow> suffixing (\<lambda>buf. if b buf then p buf else q buf)"
  by (auto simp: suffixing_def)

lemma suffixing_list_case [suffix_intros]:
  "(\<And>c. suffixing (f c)) \<Longrightarrow> suffixing (\<lambda>buf. case buf of [] \<Rightarrow> Partial | c # r \<Rightarrow> f c r)"
  unfolding suffixing_def by (auto split: list.split intro: suffix_ConsI)

lemma suffixing_expect_char [suffix_intros]: "suffixing (expect_char ch)"
  unfolding expect_char_eq by (intro suffix_intros)

lemma suffixing_expect_chars [suffix_intros]: "suffixing (expect_chars chs)"
proof (induction chs)
  case (Cons ch chs)
  have eq: "expect_chars (ch # chs) = (\<lambda>buf. pbind (expect_char ch buf) (\<lambda>_ rest. expect_chars chs rest))"
    by (rule ext) simp
  show ?case unfolding eq by (rule suffixing_bind [OF suffixing_expect_char Cons])
qed (auto simp: suffixing_def)

lemma suffix_dropWhile': "suffix (dropWhile P xs) xs"
  by (rule suffix_dropWhile)

lemma suffixing_dropWhile [suffix_intros]:
  "suffixing (\<lambda>buf. case dropWhile P buf of [] \<Rightarrow> Partial | c # r \<Rightarrow> Done v (c # r))"
  unfolding suffixing_def by (metis list.simps(4,5) neq_Nil_conv presult.distinct(6) presult.inject suffix_dropWhile)

lemma suffixing_split_at [suffix_intros]: "suffixing (split_at P)"
  unfolding suffixing_def split_at_def
  by (metis list.simps(4,5) neq_Nil_conv presult.distinct(6) presult.inject suffix_dropWhile)

lemma suffixing_skip_eol [suffix_intros]: "suffixing skip_eol"
  using suffixing_expect_char [of lf]
  by (auto simp: suffixing_def skip_eol_def split: list.splits if_splits intro: suffix_ConsI)

lemma suffixing_skips [suffix_intros]: "suffixing skip_blanks" "suffixing skip_spaces"
  using suffixing_dropWhile [of "()" "\<lambda>c. c = CHR '' ''"] suffixing_dropWhile [of "()" is_blank]
  unfolding suffixing_def skip_blanks_def skip_spaces_def
  by (blast, meson suffix_order.trans suffix_tl)

lemma suffixing_end_of_request_line [suffix_intros]: "suffixing end_of_request_line"
  unfolding end_of_request_line_def [abs_def] by (intro suffix_intros)

lemma suffixing_parse_int [suffix_intros]: "suffixing (parse_int mul)"
  unfolding suffixing_def
proof (intro allI impI)
  fix buf v r
  assume "parse_int mul buf = Done v r"
  then show "suffix r buf" by (cases buf) (auto split: if_splits intro: suffix_ConsI)
qed

lemma suffixing_parse_int_3 [suffix_intros]: "suffixing parse_int_3"
  unfolding parse_int_3_def [abs_def] by (intro suffixing_bind suffix_intros)

lemma suffixing_http_version [suffix_intros]: "suffixing parse_http_version"
  unfolding parse_http_version_def [abs_def] by (intro suffixing_bind suffix_intros)

lemma suffixing_found_ctl [suffix_intros]: "suffixing (found_ctl tok)"
  unfolding found_ctl_eq by (intro suffixing_bind suffix_intros)

lemma suffixing_tokens [suffix_intros]:
  "suffixing (parse_token sse CHR '' '')" "suffixing (parse_token sse CHR '':'')" "suffixing (advance_token sse)"
  "suffixing (get_token_to_eol sse)"
proof -
  show "suffixing (parse_token sse CHR '' '')" "suffixing (parse_token sse CHR '':'')" "suffixing (advance_token sse)"
    "suffixing (get_token_to_eol sse)"
    unfolding advance_token_eq [abs_def] get_token_to_eol_eq [abs_def] ext [OF parse_token_eq [OF disjI1 [OF refl]]]
      ext [OF parse_token_eq [OF disjI2 [OF refl]]]
    by (intro suffixing_bind suffix_intros)+
qed

lemma suffixing_header_line: "suffixing (parse_header_line sse n)"
proof -
  have blanks: "suffixing (\<lambda>buf. skip_blanks (tl buf))"
    using suffixing_skips(1) unfolding suffixing_def by (meson suffix_order.trans suffix_tl)
  have name: "suffixing (parse_header_name sse n)"
    unfolding parse_header_name_def [abs_def]
    by (intro suffixing_if suffixing_bind [OF suffixing_tokens(2)] suffixing_bind [OF blanks] suffixing_basic)
  have val: "suffixing (\<lambda>value. pbind (get_token_to_eol sse value) (\<lambda>v rest.
      Done \<lparr>ph_name = nm, ph_mem = value, ph_value_len = trimmed_len v\<rparr> rest))" for nm
    unfolding suffixing_def
  proof (intro allI impI)
    fix buf v r
    assume "pbind (get_token_to_eol sse buf) (\<lambda>v rest.
      Done \<lparr>ph_name = nm, ph_mem = buf, ph_value_len = trimmed_len v\<rparr> rest) = Done v r"
    then show "suffix r buf"
      using suffixing_tokens(4) [of sse] by (cases "get_token_to_eol sse buf") (auto simp: suffixing_def)
  qed
  show ?thesis unfolding parse_header_line_def [abs_def] by (intro suffixing_bind name val)
qed

lemma suffixing_headers_loop: "suffixing (headers_loop sse slots hs)"
proof (induction slots arbitrary: hs)
  case 0
  show ?case unfolding suffixing_def
  proof (intro allI impI)
    fix buf v r
    assume "headers_loop sse 0 hs buf = Done v r"
    then show "suffix r buf"
      by (cases buf; cases "tl buf") (auto split: if_splits intro: suffix_ConsI)
  qed
next
  case (Suc slots)
  have bind: "suffixing (\<lambda>buf. pbind (parse_header_line sse (length hs) buf) (\<lambda>h. headers_loop sse slots (hs @ [h])))"
    by (rule suffixing_bind [OF suffixing_header_line Suc])
  show ?case unfolding suffixing_def
  proof (intro allI impI)
    fix buf v r
    assume r: "headers_loop sse (Suc slots) hs buf = Done v r"
    show "suffix r buf"
    proof (cases "buf \<noteq> [] \<and> hd buf \<noteq> cr \<and> hd buf \<noteq> lf")
      case True
      with r bind show ?thesis unfolding suffixing_def by (cases buf) auto
    next
      case False
      with r show ?thesis by (cases buf; cases "tl buf") (auto split: if_splits intro: suffix_ConsI)
    qed
  qed
qed

lemma suffixing_parse_headers [suffix_intros]: "suffixing (parse_headers sse n)"
  unfolding parse_headers_def [abs_def] by (rule suffixing_headers_loop)

lemma suffixing_parse_request: "suffixing (parse_request sse n)"
  unfolding parse_request_def [abs_def] by (intro suffixing_bind suffix_intros)

subsection \<open>Printing a request and parsing it back\<close>

definition print_header :: "string \<times> string \<Rightarrow> string" where
  "print_header h = fst h @ '': '' @ snd h @ [cr, lf]"

definition print_headers :: "(string \<times> string) list \<Rightarrow> string" where
  "print_headers hs = concat (map print_header hs) @ [cr, lf]"

definition print_request :: "string \<Rightarrow> string \<Rightarrow> nat \<Rightarrow> (string \<times> string) list \<Rightarrow> string" where
  "print_request mth path minor hs =
     mth @ '' '' @ path @ '' HTTP/1.'' @ [char_of (48 + minor)] @ [cr, lf] @ print_headers hs"

definition valid_header :: "string \<times> string \<Rightarrow> bool" where
  "valid_header h \<longleftrightarrow> fst h \<noteq> [] \<and> list_all token_char_map (fst h) \<and> list_all (\<lambda>c. \<not> is_ctl c) (snd h) \<and>
     (snd h \<noteq> [] \<longrightarrow> \<not> is_blank (hd (snd h)) \<and> \<not> is_blank (last (snd h)))"

definition header_view :: "phr_header \<Rightarrow> string option \<times> string" where
  "header_view h = (ph_name h, ph_value h)"

lemma split_at_stop: "list_all P t \<Longrightarrow> \<not> P d \<Longrightarrow> split_at P (t @ d # r) = Done t (d # r)"
  by (simp add: split_at_append split_at_Cons)

lemma not_token [simp]: "\<not> token_char_map CHR '':''" "\<not> token_char_map CHR '' ''" "\<not> token_char_map tab"
    "\<not> token_char_map cr" "\<not> token_char_map lf"
  by (simp_all add: token_char_map_def token_rows_def)

lemma not_token_delim [simp]: "\<not> token_char d d"
  by (simp add: token_char_def)

lemma all_token_char: "list_all token_char_map t \<Longrightarrow> \<not> token_char_map d \<Longrightarrow> list_all (token_char d) t"
  by (auto simp: list_all_iff token_char_def)

lemma eol_ctl [simp]: "is_ctl cr" "is_ctl lf"
  by (simp_all add: is_ctl_def)

lemma trimmed_len_id: "(v \<noteq> [] \<Longrightarrow> \<not> is_blank (last v)) \<Longrightarrow> trimmed_len v = length v"
  by (cases v rule: rev_cases) (auto simp: trimmed_len_def)

lemma trimmed_len_le: "trimmed_len v \<le> length v"
  unfolding trimmed_len_def by (metis length_dropWhile_le length_rev)

lemma parse_header_line_print:
  assumes "valid_header h"
  shows "parse_header_line sse n (print_header h @ rest) =
    Done \<lparr>ph_name = Some (fst h), ph_mem = snd h @ cr # lf # rest, ph_value_len = length (snd h)\<rparr> rest"
proof -
  obtain nm v where h: "h = (nm, v)" by (rule prod.exhaust)
  obtain c nm' where nm: "nm = c # nm'" using assms h by (cases nm) (auto simp: valid_header_def)
  have c: "c \<noteq> CHR '' ''" "c \<noteq> tab" using assms h nm not_token by (auto simp: valid_header_def)
  have tok: "split_at (token_char CHR '':'') (nm @ CHR '':'' # CHR '' '' # v @ cr # lf # rest) =
      Done nm (CHR '':'' # CHR '' '' # v @ cr # lf # rest)"
    using assms h by (intro split_at_stop all_token_char) (simp_all add: valid_header_def)
  have blanks: "skip_blanks (CHR '' '' # v @ cr # lf # rest) = Done () (v @ cr # lf # rest)"
    using assms h by (cases v) (auto simp: skip_blanks_def valid_header_def)
  have name: "parse_header_name sse n (print_header h @ rest) = Done (Some nm) (v @ cr # lf # rest)"
    using c tok blanks nm by (simp add: parse_header_name_def print_header_def h scanner_eqs)
  have eol: "get_token_to_eol sse (v @ cr # lf # rest) = Done v rest"
    using assms h by (simp add: scanner_eqs split_at_stop valid_header_def)
  have "trimmed_len v = length v" using assms h by (intro trimmed_len_id) (simp add: valid_header_def)
  then show ?thesis by (simp add: parse_header_line_def name [unfolded h] eol h)
qed

lemma headers_loop_print:
  assumes "list_all valid_header hs" and "length hs \<le> slots"
  shows "\<exists>phs. headers_loop sse slots acc (print_headers hs @ rest) = Done (acc @ phs) rest \<and>
    map header_view phs = map (\<lambda>h. (Some (fst h), snd h)) hs"
  using assms
proof (induction hs arbitrary: slots acc)
  case Nil
  show ?case by (simp add: print_headers_def)
next
  case (Cons h hs)
  then obtain s where s: "slots = Suc s" by (cases slots) auto
  obtain c nm where nm: "fst h = c # nm" using Cons.prems by (cases "fst h") (auto simp: valid_header_def)
  then have c: "c \<noteq> cr" "c \<noteq> lf" using Cons.prems(1) not_token by (auto simp: valid_header_def)
  define buf where "buf = print_headers (h # hs) @ rest"
  have buf: "buf = print_header h @ print_headers hs @ rest" by (simp add: buf_def print_headers_def)
  then have hd: "c # tl buf = buf" by (simp add: print_header_def nm)
  have "headers_loop sse slots acc (c # tl buf) =
      pbind (parse_header_line sse (length acc) (c # tl buf)) (\<lambda>h. headers_loop sse s (acc @ [h]))"
    using c by (simp add: s)
  then have "headers_loop sse slots acc buf = pbind (parse_header_line sse (length acc) buf) (\<lambda>h. headers_loop sse s (acc @ [h]))"
    unfolding hd .
  moreover have "valid_header h" using Cons.prems by simp
  note line = parse_header_line_print [OF this, of sse "length acc" "print_headers hs @ rest"]
  ultimately have step: "headers_loop sse slots acc buf = headers_loop sse s
      (acc @ [\<lparr>ph_name = Some (fst h), ph_mem = snd h @ cr # lf # print_headers hs @ rest, ph_value_len = length (snd h)\<rparr>])
      (print_headers hs @ rest)"
    by (simp add: buf)
  obtain phs where "headers_loop sse s (acc @ [\<lparr>ph_name = Some (fst h), ph_mem = snd h @ cr # lf # print_headers hs @ rest,
        ph_value_len = length (snd h)\<rparr>]) (print_headers hs @ rest)
      = Done ((acc @ [\<lparr>ph_name = Some (fst h), ph_mem = snd h @ cr # lf # print_headers hs @ rest,
        ph_value_len = length (snd h)\<rparr>]) @ phs) rest" "map header_view phs = map (\<lambda>h. (Some (fst h), snd h)) hs"
    using Cons.IH [of s "acc @ [_]"] Cons.prems s by fastforce
  then show ?case using step unfolding buf_def
    by (intro exI [of _ "_ # phs"]) (auto simp: header_view_def [of "phr_header.make _ _ _", unfolded phr_header.make_def])
qed

lemma header_value_fits:
  assumes "parse_header_line sse n buf = Done h r"
  shows "ph_value_len h \<le> length (ph_mem h)"
proof -
  from assms obtain nm val v where v: "get_token_to_eol sse val = Done v r"
    and h: "h = \<lparr>ph_name = nm, ph_mem = val, ph_value_len = trimmed_len v\<rparr>"
    by (cases "parse_header_name sse n buf"; fastforce simp: parse_header_line_def elim: pbind.elims)
  from v obtain t d where "split_at (\<lambda>c. \<not> is_ctl c) val = Done t d" "found_ctl t d = Done v r"
    by (cases "split_at (\<lambda>c. \<not> is_ctl c) val") (auto simp: scanner_eqs)
  then have "v = takeWhile (\<lambda>c. \<not> is_ctl c) val"
    by (cases d; cases "tl d") (auto simp: split_at_def split: list.splits if_splits)
  then have "trimmed_len v \<le> length val"
    using trimmed_len_le [of v] length_takeWhile_le [of "\<lambda>c. \<not> is_ctl c" val] by simp
  with h show ?thesis by simp
qed

lemma headers_loop_fits:
  "headers_loop sse slots hs buf = Done v r \<Longrightarrow> list_all (\<lambda>h. ph_value_len h \<le> length (ph_mem h)) hs \<Longrightarrow>
     list_all (\<lambda>h. ph_value_len h \<le> length (ph_mem h)) v"
proof (induction slots arbitrary: hs buf)
  case 0
  then show ?case by (cases buf; cases "tl buf") (auto split: if_splits)
next
  case (Suc slots)
  show ?case
  proof (cases "buf \<noteq> [] \<and> hd buf \<noteq> cr \<and> hd buf \<noteq> lf")
    case True
    with Suc.prems(1) obtain h b where "parse_header_line sse (length hs) buf = Done h b"
      "headers_loop sse slots (hs @ [h]) b = Done v r"
      by (cases buf; cases "parse_header_line sse (length hs) buf") auto
    with Suc.IH [of "hs @ [h]" b] Suc.prems(2) header_value_fits show ?thesis by fastforce
  next
    case False
    with Suc.prems show ?thesis by (cases buf; cases "tl buf") (auto split: if_splits)
  qed
qed

definition request_view :: "phr_request \<Rightarrow> string \<times> string \<times> nat \<times> (string option \<times> string) list" where
  "request_view r = (pr_method r, pr_path r, pr_minor r, map header_view (pr_headers r))"

lemma pbind_DoneD: "pbind p f = Done v r \<Longrightarrow> \<exists>a b. p = Done a b \<and> f a b = Done v r"
  by (cases p) auto

lemma parse_request_headers:
  "parse_request sse n buf = Done req rest \<Longrightarrow> \<exists>b. parse_headers sse n b = Done (pr_headers req) rest"
  by (fastforce simp: parse_request_def dest!: pbind_DoneD split: if_splits)

lemma request_view_ext:
  assumes "parse_request sse n buf = Done req rest"
  shows "request_view (ext_request ys req) = request_view req"
proof -
  have "list_all (\<lambda>h. ph_value_len h \<le> length (ph_mem h)) (pr_headers req)"
    using parse_request_headers [OF assms] headers_loop_fits [of sse n "[]"] by (auto simp: parse_headers_def)
  then have "map (header_view \<circ> ext_header ys) (pr_headers req) = map header_view (pr_headers req)"
    by (auto simp: list_all_iff header_view_def ext_header_def)
  then show ?thesis by (simp add: request_view_def ext_request_def)
qed

lemma parse_request_print:
  assumes "mth \<noteq> []" "list_all token_char_map mth" "path \<noteq> []" "list_all path_char path" "minor < 10"
    and "list_all valid_header hs" "length hs \<le> n"
  shows "\<exists>req. parse_request sse n (print_request mth path minor hs @ rest) = Done req rest \<and>
    request_view req = (mth, path, minor, map (\<lambda>h. (Some (fst h), snd h)) hs)"
proof -
  define tail1 where "tail1 = cr # lf # print_headers hs @ rest"
  define tail2 where "tail2 = ''HTTP/1.'' @ char_of (48 + minor) # tail1"
  have len: "\<not> length tail2 < 9" by (simp add: tail2_def tail1_def)
  obtain phs where hs: "parse_headers sse n (print_headers hs @ rest) = Done phs rest"
    "map header_view phs = map (\<lambda>h. (Some (fst h), snd h)) hs"
    using headers_loop_print [OF assms(6,7), of sse "[]" rest] by (auto simp: parse_headers_def)
  obtain m ms where m: "mth = m # ms" using assms(1) by (cases mth) auto
  obtain p ps where p: "path = p # ps" using assms(3) by (cases path) auto
  have eol: "skip_eol (mth @ CHR '' '' # path @ CHR '' '' # tail2) = Done () (mth @ CHR '' '' # path @ CHR '' '' # tail2)"
    using assms(2) m not_token by (auto simp: skip_eol_def)
  have tok: "parse_token sse CHR '' '' (mth @ CHR '' '' # path @ CHR '' '' # tail2) = Done mth (CHR '' '' # path @ CHR '' '' # tail2)"
    using split_at_stop [OF all_token_char [OF assms(2), of "CHR '' ''"]] by (simp add: scanner_eqs)
  have sp1: "skip_spaces (CHR '' '' # path @ CHR '' '' # tail2) = Done () (path @ CHR '' '' # tail2)"
    using assms(4) p by (auto simp: skip_spaces_def path_char_def)
  have adv: "advance_token sse (path @ CHR '' '' # tail2) = Done path (CHR '' '' # tail2)"
    using split_at_stop [OF assms(4), of "CHR '' ''" tail2] by (simp add: scanner_eqs path_char_def)
  have sp2: "skip_spaces (CHR '' '' # tail2) = Done () tail2" by (simp add: skip_spaces_def tail2_def)
  have "byte_val (char_of (48 + minor) :: char) = 48 + minor" using assms(5) by simp
  then have version: "parse_http_version tail2 = Done minor tail1"
    using assms(5) len unfolding parse_http_version_def by (simp add: tail2_def)
  have line: "end_of_request_line tail1 = Done () (print_headers hs @ rest)"
    by (simp add: end_of_request_line_def tail1_def)
  have "print_request mth path minor hs @ rest = mth @ CHR '' '' # path @ CHR '' '' # tail2"
    by (simp add: print_request_def tail1_def tail2_def)
  then have "parse_request sse n (print_request mth path minor hs @ rest) =
      Done \<lparr>pr_method = mth, pr_path = path, pr_minor = minor, pr_headers = phs\<rparr> rest"
    using assms(1,3) by (simp add: parse_request_def eol tok sp1 adv sp2 version line hs(1))
  then show ?thesis using hs(2) by (simp add: request_view_def)
qed

subsection \<open>Properties\<close>

text \<open>C17: The build that scans sixteen bytes at a time with the vector instruction and the portable build
  parse every buffer alike: the request, response and header parsers return the same verdict, values
  and consumed length.\<close>

theorem parser_builds_agree:
  "phr_parse_request True buf n last_len = phr_parse_request False buf n last_len \<and>
   phr_parse_response True buf n last_len = phr_parse_response False buf n last_len \<and>
   phr_parse_headers True buf n last_len = phr_parse_headers False buf n last_len"
  unfolding phr_parse_request_def phr_parse_response_def phr_parse_headers_def
    parse_request_sse [of True _ _ False] parse_response_sse [of True _ _ False]
    scanners_sse(4) [of True _ False] by simp

text \<open>C10: The parser's verdict does not depend on how the bytes arrive.  A buffer that is rejected stays
  rejected whatever follows.  When a request is complete, the same request is found whatever bytes follow it,
  and every proper prefix of it is answered with "need more data", never with an error.\<close>

theorem request_parser_streaming:
  "case phr_parse_request sse buf n 0 of
     Failed \<Rightarrow> (\<forall>ys. phr_parse_request sse (buf @ ys) n 0 = Failed)
   | Partial \<Rightarrow> True
   | Done req rest \<Rightarrow>
       (\<exists>consumed. buf = consumed @ rest \<and>
          (\<forall>ys. \<exists>req'. phr_parse_request sse (buf @ ys) n 0 = Done req' (rest @ ys) \<and> request_view req' = request_view req) \<and>
          (\<forall>k < length consumed. phr_parse_request sse (take k buf) n 0 = Partial))"
proof (cases "parse_request sse n buf")
  case Failed
  then show ?thesis using stable_parse_request [of sse n] by (simp add: stable_def phr_parse_request_def)
next
  case Partial
  then show ?thesis by (simp add: phr_parse_request_def)
next
  case (Done req rest)
  note stable = stable_parse_request [of sse n, unfolded stable_def, rule_format]
  obtain consumed where consumed: "buf = consumed @ rest"
    using suffixing_parse_request [of sse n] Done unfolding suffixing_def suffix_def by blast
  have more: "parse_request sse n (buf @ ys) = Done (ext_request ys req) (rest @ ys)" for ys
    using stable [of buf ys] Done by blast
  have "parse_request sse n (take k buf) = Partial" if k: "k < length consumed" for k
  proof (cases "parse_request sse n (take k buf)")
    case Failed
    then have "parse_request sse n (take k buf @ drop k buf) = Failed" using stable by blast
    with Done show ?thesis by simp
  next
    case (Done req' rest')
    then have "parse_request sse n (take k buf @ drop k buf) = Done (ext_request (drop k buf) req') (rest' @ drop k buf)"
      using stable by blast
    with \<open>parse_request sse n buf = Done req rest\<close> have "rest = rest' @ drop k buf" by simp
    then have "length (drop k buf) \<le> length rest" by simp
    with k show ?thesis by (simp add: consumed)
  qed
  then show ?thesis
    using Done consumed more request_view_ext [OF Done] by (auto simp: phr_parse_request_def)
qed

theorem request_parser_streaming_witness:
  "phr_parse_request False (take 10 (''GET / HTTP/1.1'' @ [cr, lf, cr, lf])) 8 0 = Partial"
proof -
  let ?buf = "''GET / HTTP/1.1'' @ [cr, lf, cr, lf]"
  have eq: "phr_parse_request False ?buf 8 0 = Done \<lparr>pr_method = ''GET'', pr_path = ''/'', pr_minor = 1, pr_headers = []\<rparr> []"
    by code_simp
  obtain consumed where c: "?buf = consumed @ []" and k: "\<forall>k < length consumed. phr_parse_request False (take k ?buf) 8 0 = Partial"
    using request_parser_streaming [of False ?buf 8, unfolded eq presult.case] by blast
  have "10 < length consumed" using arg_cong [OF c, of length] by simp
  with k show ?thesis by blast
qed

end
