(* ===== verification/Chunked.thy ===== *)
theory Chunked
  imports Iohttp_Prelude
begin

text \<open>
  The decoder of chunked transfer encoding, \<^verbatim>\<open>phr_decode_chunked\<close> of
  \<^verbatim>\<open>src/http/picohttpparser.c\<close>.

  The decoder rewrites the buffer in place: \<open>dst\<close> bytes of decoded data at the front, the unread
  bytes from \<open>src\<close> on.  Every case of the switch sets the state before it falls through to the
  next case, so one round of the loop is one case.
\<close>

datatype chunked_state =
    CHUNKED_IN_CHUNK_SIZE | CHUNKED_IN_CHUNK_EXT | CHUNKED_IN_CHUNK_HEADER_EXPECT_LF
  | CHUNKED_IN_CHUNK_DATA | CHUNKED_IN_CHUNK_DATA_EXPECT_CR | CHUNKED_IN_CHUNK_DATA_EXPECT_LF
  | CHUNKED_IN_TRAILERS_LINE_HEAD | CHUNKED_IN_TRAILERS_LINE_MIDDLE

record phr_chunked_decoder =
  bytes_left_in_chunk :: size_t
  consume_trailer :: bool
  hex_count :: nat
  dec_state :: chunked_state
  total_read :: u64
  total_overhead :: u64

text \<open>The return value: -2, -1, or the number of bytes left undecoded.\<close>

datatype chunked_ret = Incomplete | Bad_Encoding | Complete nat

definition decode_hex :: "char \<Rightarrow> nat option" where
  "decode_hex ch =
     (let n = byte_val ch
      in if 48 \<le> n \<and> n \<le> 57 then Some (n - 48)
         else if 65 \<le> n \<and> n \<le> 70 then Some (n - 65 + 10)
         else if 97 \<le> n \<and> n \<le> 102 then Some (n - 97 + 10)
         else None)"

definition memmove :: "string \<Rightarrow> nat \<Rightarrow> nat \<Rightarrow> nat \<Rightarrow> string" where
  "memmove buf d s n = take (length buf) (take d buf @ take n (drop s buf) @ drop (d + n) buf)"

text \<open>The loop over the digits of a chunk size: how it ends and how many bytes it consumed.\<close>

datatype scan_end = At_End | Bad | Found

fun size_loop :: "phr_chunked_decoder \<Rightarrow> string \<Rightarrow> scan_end \<times> phr_chunked_decoder \<times> nat" where
  "size_loop d [] = (At_End, d, 0)"
| "size_loop d (c # cs) =
     (case decode_hex c of
        None \<Rightarrow>
          if hex_count d = 0 then (Bad, d, 0)
          else if c = CHR '' '' \<or> c = tab \<or> c = CHR '';'' \<or> c = lf \<or> c = cr then (Found, d, 0)
          else (Bad, d, 0)
      | Some v \<Rightarrow>
          if hex_count d = 16 then (Bad, d, 0)
          else (case size_loop (d\<lparr>bytes_left_in_chunk := bytes_left_in_chunk d * 16 + of_nat v,
                                  hex_count := hex_count d + 1\<rparr>) cs of
                  (r, d', n) \<Rightarrow> (r, d', Suc n)))"

text \<open>A round of the loop goes on or leaves it; \<open>None\<close> stands for \<^verbatim>\<open>goto Complete\<close>.\<close>

datatype chunk_step =
    Leave "chunked_ret option" phr_chunked_decoder string nat nat
  | Again phr_chunked_decoder string nat nat

definition expect_step :: "char \<Rightarrow> phr_chunked_decoder \<Rightarrow> phr_chunked_decoder \<Rightarrow> string \<Rightarrow> nat \<Rightarrow> nat \<Rightarrow> chunk_step" where
  "expect_step ch d d' buf dst src =
     (case drop src buf of
        [] \<Rightarrow> Leave (Some Incomplete) d buf dst src
      | c # _ \<Rightarrow> if c \<noteq> ch then Leave (Some Bad_Encoding) d buf dst src else Again d' buf dst (src + 1))"

definition chunk_round :: "phr_chunked_decoder \<Rightarrow> string \<Rightarrow> nat \<Rightarrow> nat \<Rightarrow> chunk_step" where
  "chunk_round d buf dst src =
     (let s = drop src buf in
      case dec_state d of
        CHUNKED_IN_CHUNK_SIZE \<Rightarrow>
          (case size_loop d s of
             (At_End, d', n) \<Rightarrow> Leave (Some Incomplete) d' buf dst (src + n)
           | (Bad, d', n) \<Rightarrow> Leave (Some Bad_Encoding) d' buf dst (src + n)
           | (Found, d', n) \<Rightarrow>
               Again (d'\<lparr>hex_count := 0, dec_state := CHUNKED_IN_CHUNK_EXT\<rparr>) buf dst (src + n))
      | CHUNKED_IN_CHUNK_EXT \<Rightarrow>
          (let n = length (takeWhile (\<lambda>c. c \<noteq> cr \<and> c \<noteq> lf) s)
           in if n = length s then Leave (Some Incomplete) d buf dst (src + n)
              else if s ! n = lf then Leave (Some Bad_Encoding) d buf dst (src + n)
              else Again (d\<lparr>dec_state := CHUNKED_IN_CHUNK_HEADER_EXPECT_LF\<rparr>) buf dst (src + n + 1))
      | CHUNKED_IN_CHUNK_HEADER_EXPECT_LF \<Rightarrow>
          (if s = [] then Leave (Some Incomplete) d buf dst src
           else if hd s \<noteq> lf then Leave (Some Bad_Encoding) d buf dst src
           else if bytes_left_in_chunk d = 0 then
             (if consume_trailer d
              then Again (d\<lparr>dec_state := CHUNKED_IN_TRAILERS_LINE_HEAD\<rparr>) buf dst (src + 1)
              else Leave None d buf dst (src + 1))
           else Again (d\<lparr>dec_state := CHUNKED_IN_CHUNK_DATA\<rparr>) buf dst (src + 1))
      | CHUNKED_IN_CHUNK_DATA \<Rightarrow>
          (let avail = length buf - src; left = unat (bytes_left_in_chunk d)
           in if avail < left
              then Leave (Some Incomplete) (d\<lparr>bytes_left_in_chunk := bytes_left_in_chunk d - of_nat avail\<rparr>)
                     (if dst \<noteq> src then memmove buf dst src avail else buf) (dst + avail) (src + avail)
              else Again (d\<lparr>bytes_left_in_chunk := 0, dec_state := CHUNKED_IN_CHUNK_DATA_EXPECT_CR\<rparr>)
                     (if dst \<noteq> src then memmove buf dst src left else buf) (dst + left) (src + left))
      | CHUNKED_IN_CHUNK_DATA_EXPECT_CR \<Rightarrow>
          expect_step cr d (d\<lparr>dec_state := CHUNKED_IN_CHUNK_DATA_EXPECT_LF\<rparr>) buf dst src
      | CHUNKED_IN_CHUNK_DATA_EXPECT_LF \<Rightarrow>
          expect_step lf d (d\<lparr>dec_state := CHUNKED_IN_CHUNK_SIZE\<rparr>) buf dst src
      | CHUNKED_IN_TRAILERS_LINE_HEAD \<Rightarrow>
          (let n = length (takeWhile (\<lambda>c. c = cr) s)
           in if n = length s then Leave (Some Incomplete) d buf dst (src + n)
              else if s ! n = lf then Leave None d buf dst (src + n + 1)
              else Again (d\<lparr>dec_state := CHUNKED_IN_TRAILERS_LINE_MIDDLE\<rparr>) buf dst (src + n + 1))
      | CHUNKED_IN_TRAILERS_LINE_MIDDLE \<Rightarrow>
          (let n = length (takeWhile (\<lambda>c. c \<noteq> lf) s)
           in if n = length s then Leave (Some Incomplete) d buf dst (src + n)
              else Again (d\<lparr>dec_state := CHUNKED_IN_TRAILERS_LINE_HEAD\<rparr>) buf dst (src + n + 1)))"

text \<open>Every round consumes input or moves to a state that does.\<close>

fun state_rank :: "chunked_state \<Rightarrow> nat" where
  "state_rank CHUNKED_IN_CHUNK_SIZE = 1"
| "state_rank CHUNKED_IN_CHUNK_DATA = 1"
| "state_rank _ = 0"

definition round_measure :: "phr_chunked_decoder \<Rightarrow> string \<Rightarrow> nat \<Rightarrow> nat" where
  "round_measure d buf src = 2 * (length buf - src) + state_rank (dec_state d)"

lemma length_memmove_le: "length (memmove buf d s n) \<le> length buf"
  by (simp add: memmove_def)

lemma size_loop_state: "size_loop d s = (r, d', n) \<Longrightarrow> dec_state d' = dec_state d"
  by (induction d s arbitrary: n rule: size_loop.induct) (auto split: option.splits if_splits prod.splits)

lemma skip_decreases:
  "length (takeWhile P (drop src buf)) \<noteq> length buf - src \<Longrightarrow>
     length buf - Suc (src + length (takeWhile P (drop src buf))) < length buf - src"
  using length_takeWhile_le [of P "drop src buf"] by simp

lemma move_decreases:
  "length (memmove buf dst src n) - (src + n) \<le> length buf - src" "length buf - (src + n) \<le> length buf - src"
  using length_memmove_le [of buf dst src n] by simp_all

lemma drop_Cons_less: "drop n xs = y # ys \<Longrightarrow> n < length xs"
  by (metis drop_eq_Nil2 list.discI not_le)

lemma chunk_round_decreases:
  assumes "chunk_round d buf dst src = Again d' buf' dst' src'"
  shows "round_measure d' buf' src' < round_measure d buf src"
proof -
  note defs = chunk_round_def round_measure_def expect_step_def Let_def
  show ?thesis
  proof (cases "dec_state d")
    case CHUNKED_IN_CHUNK_SIZE
    with assms show ?thesis by (auto simp: defs split: prod.splits scan_end.splits)
  next
    case CHUNKED_IN_CHUNK_DATA
    with assms show ?thesis
      by (auto simp: defs less_Suc_eq_le split: if_splits intro!: move_decreases)
  qed (use assms in \<open>auto simp: defs split: if_splits list.splits intro!: skip_decreases dest!: drop_Cons_less\<close>)
qed

function decode_loop :: "phr_chunked_decoder \<Rightarrow> string \<Rightarrow> nat \<Rightarrow> nat \<Rightarrow>
    chunked_ret option \<times> phr_chunked_decoder \<times> string \<times> nat \<times> nat" where
  "decode_loop d buf dst src =
     (case chunk_round d buf dst src of
        Leave r d' buf' dst' src' \<Rightarrow> (r, d', buf', dst', src')
      | Again d' buf' dst' src' \<Rightarrow> decode_loop d' buf' dst' src')"
  by pat_completeness auto
termination
  by (relation "measure (\<lambda>(d, buf, dst, src). round_measure d buf src)") (simp_all add: chunk_round_decreases)

declare decode_loop.simps [simp del]

definition phr_decode_chunked ::
  "phr_chunked_decoder \<Rightarrow> string \<Rightarrow> chunked_ret \<times> phr_chunked_decoder \<times> string \<times> nat" where
  "phr_decode_chunked d buf =
     (let bufsz = length buf;
          d = d\<lparr>total_read := total_read d + of_nat bufsz\<rparr>
      in case decode_loop d buf 0 0 of
           (r, d, buf, dst, src) \<Rightarrow>
             (let ret = (case r of Some e \<Rightarrow> e | None \<Rightarrow> Complete (bufsz - src));
                  buf = (if dst \<noteq> src then memmove buf dst src (bufsz - src) else buf)
              in if ret = Incomplete then
                   (let d = d\<lparr>total_overhead := total_overhead d + of_nat (bufsz - dst)\<rparr>
                    in if total_overhead d \<ge> 100 * 1024 \<and>
                          total_read d - total_overhead d < total_read d div 4
                       then (Bad_Encoding, d, buf, dst) else (Incomplete, d, buf, dst))
                 else (ret, d, buf, dst)))"

definition phr_decode_chunked_is_in_data :: "phr_chunked_decoder \<Rightarrow> bool" where
  "phr_decode_chunked_is_in_data d \<longleftrightarrow> dec_state d = CHUNKED_IN_CHUNK_DATA"

subsection \<open>The wrapper of the HTTP/1.1 layer\<close>

definition ioh_http1_chunked_init :: phr_chunked_decoder where
  "ioh_http1_chunked_init =
     \<lparr>bytes_left_in_chunk = 0, consume_trailer = True, hex_count = 0, dec_state = CHUNKED_IN_CHUNK_SIZE,
      total_read = 0, total_overhead = 0\<rparr>"

text \<open>The result: the number of trailing bytes, or the error; then the decoder, the buffer and the
  number of decoded bytes.\<close>

definition ioh_http1_chunked_decode ::
  "phr_chunked_decoder \<Rightarrow> string \<Rightarrow> (errno + nat) \<times> phr_chunked_decoder \<times> string \<times> nat" where
  "ioh_http1_chunked_decode d buf =
     (case phr_decode_chunked d buf of
        (Complete n, d, buf, len) \<Rightarrow> (Inr n, d, buf, len)
      | (Incomplete, d, buf, len) \<Rightarrow> (Inl EAGAIN, d, buf, len)
      | (Bad_Encoding, d, buf, len) \<Rightarrow> (Inl EINVAL, d, buf, len))"

end
