(* ===== verification/Chunked_Stream.thy ===== *)
theory Chunked_Stream
  imports Chunked
begin

text \<open>
  The in-place decoder of \<open>Chunked\<close> implements a machine that reads one byte at a time and emits the
  payload.  Two consequences: decoding does not depend on how the input is cut into reads, and an
  encoded body is decoded to itself.
\<close>

subsection \<open>The byte machine\<close>

datatype byte_result = B_Error | B_End | B_Next phr_chunked_decoder string

definition ext_byte :: "phr_chunked_decoder \<Rightarrow> char \<Rightarrow> byte_result" where
  "ext_byte d c =
     (if c = cr then B_Next (d\<lparr>dec_state := CHUNKED_IN_CHUNK_HEADER_EXPECT_LF\<rparr>) []
      else if c = lf then B_Error else B_Next d [])"

definition chunk_byte :: "phr_chunked_decoder \<Rightarrow> char \<Rightarrow> byte_result" where
  "chunk_byte d c =
     (case dec_state d of
        CHUNKED_IN_CHUNK_SIZE \<Rightarrow>
          (case decode_hex c of
             Some v \<Rightarrow>
               if hex_count d = 16 then B_Error
               else B_Next (d\<lparr>bytes_left_in_chunk := bytes_left_in_chunk d * 16 + of_nat v, hex_count := hex_count d + 1\<rparr>) []
           | None \<Rightarrow>
               if hex_count d \<noteq> 0 \<and> (c = CHR '' '' \<or> c = tab \<or> c = CHR '';'' \<or> c = lf \<or> c = cr)
               then ext_byte (d\<lparr>hex_count := 0, dec_state := CHUNKED_IN_CHUNK_EXT\<rparr>) c
               else B_Error)
      | CHUNKED_IN_CHUNK_EXT \<Rightarrow> ext_byte d c
      | CHUNKED_IN_CHUNK_HEADER_EXPECT_LF \<Rightarrow>
          (if c \<noteq> lf then B_Error
           else if bytes_left_in_chunk d \<noteq> 0 then B_Next (d\<lparr>dec_state := CHUNKED_IN_CHUNK_DATA\<rparr>) []
           else if consume_trailer d then B_Next (d\<lparr>dec_state := CHUNKED_IN_TRAILERS_LINE_HEAD\<rparr>) []
           else B_End)
      | CHUNKED_IN_CHUNK_DATA \<Rightarrow>
          B_Next (d\<lparr>bytes_left_in_chunk := bytes_left_in_chunk d - 1,
             dec_state := (if bytes_left_in_chunk d = 1 then CHUNKED_IN_CHUNK_DATA_EXPECT_CR else CHUNKED_IN_CHUNK_DATA)\<rparr>) [c]
      | CHUNKED_IN_CHUNK_DATA_EXPECT_CR \<Rightarrow>
          (if c \<noteq> cr then B_Error else B_Next (d\<lparr>dec_state := CHUNKED_IN_CHUNK_DATA_EXPECT_LF\<rparr>) [])
      | CHUNKED_IN_CHUNK_DATA_EXPECT_LF \<Rightarrow>
          (if c \<noteq> lf then B_Error else B_Next (d\<lparr>dec_state := CHUNKED_IN_CHUNK_SIZE\<rparr>) [])
      | CHUNKED_IN_TRAILERS_LINE_HEAD \<Rightarrow>
          (if c = cr then B_Next d []
           else if c = lf then B_End
           else B_Next (d\<lparr>dec_state := CHUNKED_IN_TRAILERS_LINE_MIDDLE\<rparr>) [])
      | CHUNKED_IN_TRAILERS_LINE_MIDDLE \<Rightarrow>
          (if c = lf then B_Next (d\<lparr>dec_state := CHUNKED_IN_TRAILERS_LINE_HEAD\<rparr>) [] else B_Next d []))"

datatype run_end = Run_More phr_chunked_decoder | Run_Bad | Run_Done

text \<open>How the run ends, the payload, and the unread input.\<close>

fun prepend :: "string \<Rightarrow> run_end \<times> string \<times> string \<Rightarrow> run_end \<times> string \<times> string" where
  "prepend xs (e, out, rest) = (e, xs @ out, rest)"

fun chunk_run :: "phr_chunked_decoder \<Rightarrow> string \<Rightarrow> run_end \<times> string \<times> string" where
  "chunk_run d [] = (Run_More d, [], [])"
| "chunk_run d (c # cs) =
     (case chunk_byte d c of
        B_Error \<Rightarrow> (Run_Bad, [], c # cs)
      | B_End \<Rightarrow> (Run_Done, [], cs)
      | B_Next d' xs \<Rightarrow> prepend xs (chunk_run d' cs))"

lemma prepend_Nil [simp]: "prepend [] r = r"
  by (cases r) simp

lemma prepend_prepend [simp]: "prepend xs (prepend ys r) = prepend (xs @ ys) r"
  by (cases r) simp

lemma chunk_run_append:
  "chunk_run d (a @ b) =
     (case chunk_run d a of
        (Run_More d', out, _) \<Rightarrow> prepend out (chunk_run d' b)
      | (e, out, rest) \<Rightarrow> (e, out, rest @ b))"
proof (induction a arbitrary: d)
  case (Cons c a)
  show ?case
  proof (cases "chunk_byte d c")
    case (B_Next d' xs)
    obtain e out rest where "chunk_run d' a = (e, out, rest)" by (rule prod_cases3)
    then show ?thesis using Cons [of d'] B_Next by (cases e) simp_all
  qed simp_all
qed simp

lemma chunk_run_skip:
  "(\<And>c. c \<in> set p \<Longrightarrow> chunk_byte d c = B_Next d []) \<Longrightarrow> chunk_run d (p @ s) = chunk_run d s"
  by (induction p) simp_all

lemma chunk_run_data:
  assumes "dec_state d = CHUNKED_IN_CHUNK_DATA" and "unat (bytes_left_in_chunk d) = length p" and "p \<noteq> []"
  shows "chunk_run d (p @ s) =
    prepend p (chunk_run (d\<lparr>bytes_left_in_chunk := 0, dec_state := CHUNKED_IN_CHUNK_DATA_EXPECT_CR\<rparr>) s)"
  using assms
proof (induction p arbitrary: d)
  case (Cons c p)
  show ?case
  proof (cases p)
    case Nil
    with Cons.prems(2) have "bytes_left_in_chunk d = 1" by (simp add: word_unat_eq_iff)
    with Cons.prems(1) Nil show ?thesis by (simp add: chunk_byte_def)
  next
    case (Cons x xs)
    have left: "unat (bytes_left_in_chunk d) = Suc (length p)" using Cons.prems(2) by simp
    then have "bytes_left_in_chunk d \<noteq> 0" "bytes_left_in_chunk d \<noteq> 1" using Cons by auto
    moreover from this left have "unat (bytes_left_in_chunk d - 1) = length p" by (simp add: unat_decrement)
    ultimately show ?thesis
      using Cons.IH [of "d\<lparr>bytes_left_in_chunk := bytes_left_in_chunk d - 1\<rparr>"] Cons.prems(1) Cons
      by (simp add: chunk_byte_def)
  qed
qed simp

lemma chunk_run_short_data:
  assumes "dec_state d = CHUNKED_IN_CHUNK_DATA" and "length s < unat (bytes_left_in_chunk d)"
  shows "chunk_run d s = (Run_More (d\<lparr>bytes_left_in_chunk := bytes_left_in_chunk d - of_nat (length s)\<rparr>), s, [])"
  using assms
proof (induction s arbitrary: d)
  case (Cons c s)
  have "bytes_left_in_chunk d \<noteq> 0" "bytes_left_in_chunk d \<noteq> 1" using Cons.prems(2) by auto
  moreover from this Cons.prems(2) have "length s < unat (bytes_left_in_chunk d - 1)" by (simp add: unat_decrement)
  ultimately show ?case
    using Cons.IH [of "d\<lparr>bytes_left_in_chunk := bytes_left_in_chunk d - 1, dec_state := CHUNKED_IN_CHUNK_DATA\<rparr>"] Cons.prems(1)
    by (cases d) (simp add: chunk_byte_def algebra_simps)
qed simp

lemma size_loop_run:
  assumes "size_loop d s = (r, d', n)" and "dec_state d = CHUNKED_IN_CHUNK_SIZE"
  shows "case r of
      At_End \<Rightarrow> n = length s \<and> chunk_run d s = (Run_More d', [], [])
    | Bad \<Rightarrow> n < length s \<and> chunk_run d s = (Run_Bad, [], drop n s)
    | Found \<Rightarrow> n < length s \<and>
        chunk_run d s = chunk_run (d'\<lparr>hex_count := 0, dec_state := CHUNKED_IN_CHUNK_EXT\<rparr>) (drop n s)"
  using assms
proof (induction s arbitrary: d n)
  case (Cons c s)
  show ?case
  proof (cases "decode_hex c")
    case None
    with Cons.prems show ?thesis by (auto simp: chunk_byte_def split: if_splits)
  next
    case (Some v)
    show ?thesis
    proof (cases "hex_count d = 16")
      case True
      with Cons.prems Some show ?thesis by (auto simp: chunk_byte_def)
    next
      case False
      define d1 where "d1 = d\<lparr>bytes_left_in_chunk := bytes_left_in_chunk d * 16 + of_nat v, hex_count := hex_count d + 1\<rparr>"
      obtain m where m: "size_loop d1 s = (r, d', m)" "n = Suc m"
        using Cons.prems(1) Some False by (auto simp: d1_def split: prod.splits)
      have step: "chunk_run d (c # s) = chunk_run d1 s"
        using Cons.prems(2) Some False by (simp add: chunk_byte_def d1_def)
      have "dec_state d1 = CHUNKED_IN_CHUNK_SIZE" using Cons.prems(2) by (simp add: d1_def)
      from Cons.IH [OF m(1) this] m(2) show ?thesis
        unfolding step by (simp split: scan_end.splits)
    qed
  qed
qed simp

subsection \<open>The in-place decoder implements the machine\<close>

definition dec_inv :: "phr_chunked_decoder \<Rightarrow> string \<Rightarrow> nat \<Rightarrow> nat \<Rightarrow> bool" where
  "dec_inv d buf dst src \<longleftrightarrow> dst \<le> src \<and> src \<le> length buf \<and>
     (dec_state d = CHUNKED_IN_CHUNK_DATA \<longrightarrow> bytes_left_in_chunk d \<noteq> 0)"

definition agrees :: "string \<Rightarrow> nat \<Rightarrow> chunked_ret option \<times> phr_chunked_decoder \<times> string \<times> nat \<times> nat \<Rightarrow>
    run_end \<times> string \<times> string \<Rightarrow> bool" where
  "agrees done n res run \<longleftrightarrow>
     (case res of (r, d', buf', dst', src') \<Rightarrow> case run of (e, out, rest) \<Rightarrow>
        dst' \<le> src' \<and> src' \<le> n \<and> length buf' = n \<and> take dst' buf' = done @ out \<and> drop src' buf' = rest \<and>
        (case e of
           Run_More d0 \<Rightarrow> r = Some Incomplete \<and> d' = d0 \<and> rest = []
         | Run_Bad \<Rightarrow> r = Some Bad_Encoding
         | Run_Done \<Rightarrow> r = None))"

definition continues :: "phr_chunked_decoder \<Rightarrow> string \<Rightarrow> nat \<Rightarrow> nat \<Rightarrow>
    phr_chunked_decoder \<Rightarrow> string \<Rightarrow> nat \<Rightarrow> nat \<Rightarrow> bool" where
  "continues d buf dst src d' buf' dst' src' \<longleftrightarrow>
     dec_inv d' buf' dst' src' \<and> length buf' = length buf \<and>
     (\<exists>xs. take dst' buf' = take dst buf @ xs \<and> chunk_run d (drop src buf) = prepend xs (chunk_run d' (drop src' buf')))"

definition round_ok :: "phr_chunked_decoder \<Rightarrow> string \<Rightarrow> nat \<Rightarrow> nat \<Rightarrow> chunk_step \<Rightarrow> bool" where
  "round_ok d buf dst src st \<longleftrightarrow>
     (case st of
        Again d' buf' dst' src' \<Rightarrow> continues d buf dst src d' buf' dst' src'
      | Leave r d' buf' dst' src' \<Rightarrow>
          agrees (take dst buf) (length buf) (r, d', buf', dst', src') (chunk_run d (drop src buf)))"

lemma span_cases:
  obtains (all) "length (takeWhile P s) = length s" "\<forall>c\<in>set s. P c"
  | (stop) x xs where "length (takeWhile P s) < length s" "s = takeWhile P s @ x # xs" "\<not> P x"
      "s ! length (takeWhile P s) = x" "drop (Suc (length (takeWhile P s))) s = xs" "drop (length (takeWhile P s)) s = x # xs"
proof (cases "dropWhile P s")
  case Nil
  then show ?thesis by (intro all) (metis takeWhile_dropWhile_id append_Nil2, simp)
next
  case (Cons x xs)
  have eq: "s = takeWhile P s @ x # xs" using Cons by (metis takeWhile_dropWhile_id)
  show ?thesis
  proof (rule stop [OF _ eq])
    show "length (takeWhile P s) < length s" using arg_cong [OF eq, of length] by simp
    show "\<not> P x" using Cons by (metis hd_dropWhile list.sel(1) list.discI)
    show "s ! length (takeWhile P s) = x" using eq by (metis nth_append_length)
    show "drop (Suc (length (takeWhile P s))) s = xs" "drop (length (takeWhile P s)) s = x # xs"
      by (subst (2) eq, simp)+
  qed
qed

lemma memmove_facts:
  assumes "d \<le> s" and "s + n \<le> length buf"
  shows "length (memmove buf d s n) = length buf"
    and "take (d + n) (memmove buf d s n) = take d buf @ take n (drop s buf)"
    and "drop (s + n) (memmove buf d s n) = drop (s + n) buf"
proof -
  have eq: "memmove buf d s n = take d buf @ take n (drop s buf) @ drop (d + n) buf"
    using assms by (simp add: memmove_def)
  show "length (memmove buf d s n) = length buf" using assms by (simp add: eq)
  show "take (d + n) (memmove buf d s n) = take d buf @ take n (drop s buf)" using assms by (simp add: eq)
  have "s + n - (d + n) = s - d" by simp
  then show "drop (s + n) (memmove buf d s n) = drop (s + n) buf" using assms by (simp add: eq add.commute)
qed

lemma move_facts:
  assumes "d \<le> s" and "s + n \<le> length buf"
  defines "buf' \<equiv> (if d \<noteq> s then memmove buf d s n else buf)"
  shows "length buf' = length buf" "take (d + n) buf' = take d buf @ take n (drop s buf)" "drop (s + n) buf' = drop (s + n) buf"
  using memmove_facts [OF assms(1,2)] by (auto simp: buf'_def take_add)

lemma continues_same:
  assumes "dst \<le> src'" "src' \<le> length buf" "chunk_run d (drop src buf) = chunk_run d' (drop src' buf)"
    and "dec_state d' = CHUNKED_IN_CHUNK_DATA \<Longrightarrow> bytes_left_in_chunk d' \<noteq> 0"
  shows "continues d buf dst src d' buf dst src'"
  using assms by (auto simp: continues_def dec_inv_def intro!: exI [of _ "[]"])

lemma round_size:
  assumes inv: "dec_inv d buf dst src" and st: "dec_state d = CHUNKED_IN_CHUNK_SIZE"
  shows "round_ok d buf dst src (chunk_round d buf dst src)"
proof -
  obtain r d' n where l: "size_loop d (drop src buf) = (r, d', n)" by (rule prod_cases3)
  note run = size_loop_run [OF l st]
  have bounds: "dst \<le> src + n" "src + n \<le> length buf" and drop: "drop n (drop src buf) = drop (src + n) buf"
    using inv run by (cases r; auto simp: dec_inv_def add.commute)+
  show ?thesis
  proof (cases r)
    case At_End
    then show ?thesis using run l st bounds drop inv
      by (auto simp: chunk_round_def round_ok_def dec_inv_def agrees_def)
  next
    case Bad
    then show ?thesis using run l st bounds drop
      by (auto simp: chunk_round_def round_ok_def agrees_def)
  next
    case Found
    then show ?thesis using run l st bounds drop
      by (auto simp: chunk_round_def round_ok_def intro!: continues_same)
  qed
qed

lemma round_scan:
  assumes inv: "dec_inv d buf dst src"
    and all: "\<And>c. P c \<Longrightarrow> chunk_byte d c = B_Next d []"
    and stop: "\<And>x xs n. \<not> P x \<Longrightarrow> src + n < length buf \<Longrightarrow> drop (src + n) buf = x # xs \<Longrightarrow> n = length (takeWhile P (drop src buf)) \<Longrightarrow>
      chunk_run d (drop src buf) = chunk_run d (x # xs) \<Longrightarrow> drop src buf ! n = x \<Longrightarrow> xs = drop (src + n + 1) buf \<Longrightarrow>
      round_ok d buf dst src (f n)"
    and f: "length (takeWhile P (drop src buf)) = length (drop src buf) \<Longrightarrow>
      f (length (takeWhile P (drop src buf))) = Leave (Some Incomplete) d buf dst (src + length (takeWhile P (drop src buf)))"
  shows "round_ok d buf dst src (f (length (takeWhile P (drop src buf))))"
proof (cases rule: span_cases [of P "drop src buf"])
  case all': all
  have "chunk_run d (drop src buf @ []) = chunk_run d []"
    by (rule chunk_run_skip) (use all all' in blast)
  then have "chunk_run d (drop src buf) = (Run_More d, [], [])" by simp
  then show ?thesis
    using f [OF all'(1)] all'(1) inv by (auto simp: round_ok_def dec_inv_def agrees_def)
next
  case stop': (stop x xs)
  let ?n = "length (takeWhile P (drop src buf))"
  have "chunk_run d (takeWhile P (drop src buf) @ x # xs) = chunk_run d (x # xs)"
    by (rule chunk_run_skip) (use all set_takeWhileD in metis)
  then have run: "chunk_run d (drop src buf) = chunk_run d (x # xs)" using stop'(2) by metis
  show ?thesis
  proof (rule stop [OF stop'(3) _ _ refl run stop'(4)])
    show "src + ?n < length buf" using stop'(1) by simp
    show "drop (src + ?n) buf = x # xs" using stop'(6) by (simp add: add.commute)
    show "xs = drop (src + ?n + 1) buf" using stop'(5) by (simp add: add.commute)
  qed
qed

lemma round_data:
  assumes inv: "dec_inv d buf dst src" and st: "dec_state d = CHUNKED_IN_CHUNK_DATA"
  shows "round_ok d buf dst src (chunk_round d buf dst src)"
proof -
  let ?left = "unat (bytes_left_in_chunk d)" and ?avail = "length buf - src"
  have b: "dst \<le> src" "src \<le> length buf" "?left \<noteq> 0"
    using inv st by (simp_all add: dec_inv_def unat_eq_zero)
  show ?thesis
  proof (cases "?avail < ?left")
    case True
    have "src + ?avail \<le> length buf" using b by simp
    note m = move_facts [OF b(1) this]
    have "chunk_run d (drop src buf) =
        (Run_More (d\<lparr>bytes_left_in_chunk := bytes_left_in_chunk d - of_nat ?avail\<rparr>), drop src buf, [])"
      using chunk_run_short_data [OF st, of "drop src buf"] True by simp
    then show ?thesis
      using True st m b by (simp add: chunk_round_def round_ok_def agrees_def Let_def del: of_nat_diff)
  next
    case False
    then have le: "src + ?left \<le> length buf" using b by simp
    note m = move_facts [OF b(1) le]
    have "length (take ?left (drop src buf)) = ?left" using le by simp
    then have "chunk_run d (take ?left (drop src buf) @ drop ?left (drop src buf)) =
        prepend (take ?left (drop src buf))
          (chunk_run (d\<lparr>bytes_left_in_chunk := 0, dec_state := CHUNKED_IN_CHUNK_DATA_EXPECT_CR\<rparr>) (drop ?left (drop src buf)))"
      using b(3) by (intro chunk_run_data [OF st]) auto
    then have run: "chunk_run d (drop src buf) = prepend (take ?left (drop src buf))
        (chunk_run (d\<lparr>bytes_left_in_chunk := 0, dec_state := CHUNKED_IN_CHUNK_DATA_EXPECT_CR\<rparr>) (drop (src + ?left) buf))"
      unfolding append_take_drop_id unfolding drop_drop add.commute [of ?left src] .
    show ?thesis
      using False st m b le
      by (simp add: chunk_round_def round_ok_def continues_def dec_inv_def Let_def run)
  qed
qed

lemma round_expect:
  assumes inv: "dec_inv d buf dst src"
    and bad: "\<And>c. c \<noteq> ch \<Longrightarrow> chunk_byte d c = B_Error" and good: "chunk_byte d ch = B_Next d' []"
    and st: "dec_state d' \<noteq> CHUNKED_IN_CHUNK_DATA"
  shows "round_ok d buf dst src (expect_step ch d d' buf dst src)"
proof (cases "drop src buf")
  case Nil
  then show ?thesis using inv by (auto simp: expect_step_def round_ok_def agrees_def dec_inv_def)
next
  case (Cons c cs)
  note cs = drop_Cons_less [OF Cons] Cons
  have "cs = drop (src + 1) buf" using Cons by (metis drop_Suc tl_drop list.sel(3) Suc_eq_plus1)
  then show ?thesis
    using cs inv bad good st
    by (auto simp: expect_step_def round_ok_def agrees_def dec_inv_def intro!: continues_same)
qed

lemma round_header_lf:
  assumes inv: "dec_inv d buf dst src" and st: "dec_state d = CHUNKED_IN_CHUNK_HEADER_EXPECT_LF"
  shows "round_ok d buf dst src (chunk_round d buf dst src)"
proof (cases "drop src buf")
  case Nil
  then show ?thesis using inv st by (auto simp: chunk_round_def round_ok_def agrees_def dec_inv_def)
next
  case (Cons c cs)
  note cs = drop_Cons_less [OF Cons] Cons
  have "cs = drop (src + 1) buf" using Cons by (metis drop_Suc tl_drop list.sel(3) Suc_eq_plus1)
  then show ?thesis
    using cs inv st
    by (auto simp: chunk_round_def round_ok_def agrees_def dec_inv_def chunk_byte_def intro!: continues_same)
qed

lemma round_refines:
  assumes inv: "dec_inv d buf dst src"
  shows "round_ok d buf dst src (chunk_round d buf dst src)"
proof (cases "dec_state d")
  case CHUNKED_IN_CHUNK_SIZE
  with inv show ?thesis by (rule round_size)
next
  case CHUNKED_IN_CHUNK_DATA
  with inv show ?thesis by (rule round_data)
next
  case CHUNKED_IN_CHUNK_HEADER_EXPECT_LF
  with inv show ?thesis by (rule round_header_lf)
next
  case st: CHUNKED_IN_CHUNK_DATA_EXPECT_CR
  then have "chunk_round d buf dst src = expect_step cr d (d\<lparr>dec_state := CHUNKED_IN_CHUNK_DATA_EXPECT_LF\<rparr>) buf dst src"
    by (simp add: chunk_round_def)
  then show ?thesis using st by (auto simp: chunk_byte_def intro!: round_expect [OF inv])
next
  case st: CHUNKED_IN_CHUNK_DATA_EXPECT_LF
  then have "chunk_round d buf dst src = expect_step lf d (d\<lparr>dec_state := CHUNKED_IN_CHUNK_SIZE\<rparr>) buf dst src"
    by (simp add: chunk_round_def)
  then show ?thesis using st by (auto simp: chunk_byte_def intro!: round_expect [OF inv])
next
  case st: CHUNKED_IN_CHUNK_EXT
  define f where "f n = (if n = length (drop src buf) then Leave (Some Incomplete) d buf dst (src + n)
      else if drop src buf ! n = lf then Leave (Some Bad_Encoding) d buf dst (src + n)
      else Again (d\<lparr>dec_state := CHUNKED_IN_CHUNK_HEADER_EXPECT_LF\<rparr>) buf dst (src + n + 1))" for n
  have "chunk_round d buf dst src = f (length (takeWhile (\<lambda>c. c \<noteq> cr \<and> c \<noteq> lf) (drop src buf)))"
    using st by (simp add: chunk_round_def f_def)
  moreover have "round_ok d buf dst src (f (length (takeWhile (\<lambda>c. c \<noteq> cr \<and> c \<noteq> lf) (drop src buf))))"
  proof (rule round_scan [OF inv])
    fix x xs n
    assume x: "\<not> (x \<noteq> cr \<and> x \<noteq> lf)" and n: "src + n < length buf" "drop (src + n) buf = x # xs"
      and run: "chunk_run d (drop src buf) = chunk_run d (x # xs)" and nth: "drop src buf ! n = x" "xs = drop (src + n + 1) buf"
    have "dst \<le> src" using inv by (simp add: dec_inv_def)
    then show "round_ok d buf dst src (f n)"
      using x n run nth st
      by (auto simp: f_def round_ok_def agrees_def chunk_byte_def ext_byte_def intro!: continues_same)
  qed (use st in \<open>simp_all add: chunk_byte_def ext_byte_def f_def\<close>)
  ultimately show ?thesis by simp
next
  case st: CHUNKED_IN_TRAILERS_LINE_HEAD
  define f where "f n = (if n = length (drop src buf) then Leave (Some Incomplete) d buf dst (src + n)
      else if drop src buf ! n = lf then Leave None d buf dst (src + n + 1)
      else Again (d\<lparr>dec_state := CHUNKED_IN_TRAILERS_LINE_MIDDLE\<rparr>) buf dst (src + n + 1))" for n
  have "chunk_round d buf dst src = f (length (takeWhile (\<lambda>c. c = cr) (drop src buf)))"
    using st by (simp add: chunk_round_def f_def)
  moreover have "round_ok d buf dst src (f (length (takeWhile (\<lambda>c. c = cr) (drop src buf))))"
  proof (rule round_scan [OF inv])
    fix x xs n
    assume x: "x \<noteq> cr" and n: "src + n < length buf" "drop (src + n) buf = x # xs"
      and run: "chunk_run d (drop src buf) = chunk_run d (x # xs)" and nth: "drop src buf ! n = x" "xs = drop (src + n + 1) buf"
    have "dst \<le> src" using inv by (simp add: dec_inv_def)
    then show "round_ok d buf dst src (f n)"
      using x n run nth st
      by (auto simp: f_def round_ok_def agrees_def chunk_byte_def intro!: continues_same)
  qed (use st in \<open>simp_all add: chunk_byte_def f_def\<close>)
  ultimately show ?thesis by simp
next
  case st: CHUNKED_IN_TRAILERS_LINE_MIDDLE
  define f where "f n = (if n = length (drop src buf) then Leave (Some Incomplete) d buf dst (src + n)
      else Again (d\<lparr>dec_state := CHUNKED_IN_TRAILERS_LINE_HEAD\<rparr>) buf dst (src + n + 1))" for n
  have "chunk_round d buf dst src = f (length (takeWhile (\<lambda>c. c \<noteq> lf) (drop src buf)))"
    using st by (simp add: chunk_round_def f_def)
  moreover have "round_ok d buf dst src (f (length (takeWhile (\<lambda>c. c \<noteq> lf) (drop src buf))))"
  proof (rule round_scan [OF inv])
    fix x xs n
    assume x: "\<not> x \<noteq> lf" and n: "src + n < length buf" "drop (src + n) buf = x # xs"
      and run: "chunk_run d (drop src buf) = chunk_run d (x # xs)" and nth: "drop src buf ! n = x" "xs = drop (src + n + 1) buf"
    have "dst \<le> src" using inv by (simp add: dec_inv_def)
    then show "round_ok d buf dst src (f n)"
      using x n run nth st
      by (auto simp: f_def round_ok_def agrees_def chunk_byte_def intro!: continues_same)
  qed (use st in \<open>simp_all add: chunk_byte_def f_def\<close>)
  ultimately show ?thesis by simp
qed

lemma agrees_prepend:
  "agrees (done @ xs) n res run \<Longrightarrow> agrees done n res (prepend xs run)"
  by (cases run) (auto simp: agrees_def)

lemma decode_loop_refines:
  "dec_inv d buf dst src \<Longrightarrow>
     agrees (take dst buf) (length buf) (decode_loop d buf dst src) (chunk_run d (drop src buf))"
proof (induction d buf dst src rule: decode_loop.induct)
  case (1 d buf dst src)
  note ok = round_refines [OF "1.prems"]
  show ?case
  proof (cases "chunk_round d buf dst src")
    case (Leave r d' buf' dst' src')
    then show ?thesis using ok by (simp add: decode_loop.simps round_ok_def)
  next
    case (Again d' buf' dst' src')
    then have c: "continues d buf dst src d' buf' dst' src'" using ok by (simp add: round_ok_def)
    then obtain xs where xs: "take dst' buf' = take dst buf @ xs"
      "chunk_run d (drop src buf) = prepend xs (chunk_run d' (drop src' buf'))" and len: "length buf' = length buf"
      and inv: "dec_inv d' buf' dst' src'" by (auto simp: continues_def)
    from "1.IH" [OF Again inv] have "agrees (take dst buf @ xs) (length buf) (decode_loop d' buf' dst' src') (chunk_run d' (drop src' buf'))"
      by (simp add: xs(1) len)
    then show ?thesis
      using agrees_prepend by (simp add: xs(2) decode_loop.simps [of d buf dst src] Again)
  qed
qed

definition dec_ready :: "phr_chunked_decoder \<Rightarrow> bool" where
  "dec_ready d \<longleftrightarrow> (dec_state d = CHUNKED_IN_CHUNK_DATA \<longrightarrow> bytes_left_in_chunk d \<noteq> 0)"

text \<open>The verdict of the overhead check at the end of an incomplete call.\<close>

definition too_much_overhead :: "phr_chunked_decoder \<Rightarrow> bool" where
  "too_much_overhead d \<longleftrightarrow> total_overhead d \<ge> 100 * 1024 \<and> total_read d - total_overhead d < total_read d div 4"

lemma phr_decode_refines:
  assumes "dec_ready d" and run: "chunk_run (d\<lparr>total_read := total_read d + of_nat (length buf)\<rparr>) buf = (e, out, rest)"
  shows "\<exists>ret d' buf'. phr_decode_chunked d buf = (ret, d', buf', length out) \<and> take (length out) buf' = out \<and>
    length out \<le> length buf \<and>
    (case e of
       Run_Done \<Rightarrow> ret = Complete (length rest) \<and> take (length rest) (drop (length out) buf') = rest
     | Run_Bad \<Rightarrow> ret = Bad_Encoding
     | Run_More d1 \<Rightarrow> d' = d1\<lparr>total_overhead := total_overhead d1 + of_nat (length buf - length out)\<rparr> \<and>
         ret = (if too_much_overhead d' then Bad_Encoding else Incomplete))"
proof -
  let ?d = "d\<lparr>total_read := total_read d + of_nat (length buf)\<rparr>"
  obtain r d' buf' dst src where loop: "decode_loop ?d buf 0 0 = (r, d', buf', dst, src)" by (rule prod_cases5)
  have "dec_inv ?d buf 0 0" using assms(1) by (simp add: dec_inv_def dec_ready_def)
  from decode_loop_refines [OF this] have a: "dst \<le> src" "src \<le> length buf" "length buf' = length buf"
    "take dst buf' = out" "drop src buf' = rest"
    "case e of Run_More d0 \<Rightarrow> r = Some Incomplete \<and> d' = d0 \<and> rest = [] | Run_Bad \<Rightarrow> r = Some Bad_Encoding | Run_Done \<Rightarrow> r = None"
    by (simp_all add: agrees_def loop run)
  have dst: "dst = length out" using a(1-4) by auto
  have rest: "length rest = length buf - src" using a(3,5) by auto
  define buf2 where "buf2 = (if dst \<noteq> src then memmove buf' dst src (length buf - src) else buf')"
  have le: "src + (length buf - src) \<le> length buf'" using a by simp
  note m = move_facts [OF a(1) le, folded buf2_def]
  have moved: "take dst buf2 = out" "take (length rest) (drop dst buf2) = rest"
  proof -
    have "take (dst + (length buf - src)) buf2 = out @ rest"
      using m(2) a(4,5) rest by simp
    then have eq: "buf2 = out @ rest @ drop (dst + (length buf - src)) buf2"
      by (metis append.assoc append_take_drop_id)
    show "take dst buf2 = out" "take (length rest) (drop dst buf2) = rest"
      by (subst eq, simp add: dst)+
  qed
  have out: "length out \<le> length buf" using a dst by simp
  define ret where "ret = (case r of Some x \<Rightarrow> x | None \<Rightarrow> Complete (length buf - src))"
  define d2 where "d2 = d'\<lparr>total_overhead := total_overhead d' + of_nat (length buf - dst)\<rparr>"
  have eq: "phr_decode_chunked d buf =
      (if ret = Incomplete then (if too_much_overhead d2 then Bad_Encoding else Incomplete, d2, buf2, dst) else (ret, d', buf2, dst))"
    unfolding phr_decode_chunked_def Let_def loop prod.case buf2_def too_much_overhead_def ret_def d2_def by (rule if_cong) auto
  show ?thesis
    using a(6) moved rest out dst unfolding eq ret_def d2_def by (cases e) auto
qed

subsection \<open>Totals and readiness\<close>

abbreviation with_totals :: "u64 \<Rightarrow> u64 \<Rightarrow> phr_chunked_decoder \<Rightarrow> phr_chunked_decoder" where
  "with_totals a b d \<equiv> d\<lparr>total_read := a, total_overhead := b\<rparr>"

lemma chunk_byte_totals:
  "chunk_byte (with_totals a b d) c =
     (case chunk_byte d c of B_Next d' xs \<Rightarrow> B_Next (with_totals a b d') xs | r \<Rightarrow> r)"
  by (cases d; cases "dec_state d") (auto simp: chunk_byte_def ext_byte_def split: option.splits)

lemma chunk_byte_keeps_totals:
  "chunk_byte d c = B_Next d' xs \<Longrightarrow> total_read d' = total_read d \<and> total_overhead d' = total_overhead d"
  by (cases "dec_state d") (auto simp: chunk_byte_def ext_byte_def split: option.splits if_splits)

lemma chunk_run_totals:
  "chunk_run (with_totals a b d) s =
     (case chunk_run d s of (e, out, rest) \<Rightarrow>
        (case e of Run_More d' \<Rightarrow> Run_More (with_totals a b d') | r \<Rightarrow> r, out, rest))"
proof (induction s arbitrary: d)
  case (Cons c s)
  show ?case
  proof (cases "chunk_byte d c")
    case (B_Next d' xs)
    obtain e out rest where "chunk_run d' s = (e, out, rest)" by (rule prod_cases3)
    then show ?thesis using Cons [of d'] B_Next by (simp add: chunk_byte_totals)
  qed (simp_all add: chunk_byte_totals)
qed simp

lemma chunk_run_keeps_totals:
  "chunk_run d s = (Run_More d', out, rest) \<Longrightarrow> total_read d' = total_read d \<and> total_overhead d' = total_overhead d"
proof (induction s arbitrary: d out)
  case (Cons c s)
  then obtain d1 xs where b: "chunk_byte d c = B_Next d1 xs" by (cases "chunk_byte d c") auto
  then obtain out' where "chunk_run d1 s = (Run_More d', out', rest)"
    using Cons.prems by (cases "chunk_run d1 s") auto
  from Cons.IH [OF this] chunk_byte_keeps_totals [OF b] show ?case by simp
qed simp

lemma chunk_byte_ready: "dec_ready d \<Longrightarrow> chunk_byte d c = B_Next d' xs \<Longrightarrow> dec_ready d'"
  by (cases "dec_state d") (auto simp: dec_ready_def chunk_byte_def ext_byte_def split: option.splits if_splits)

lemma chunk_run_ready: "dec_ready d \<Longrightarrow> chunk_run d s = (Run_More d', out, rest) \<Longrightarrow> dec_ready d'"
proof (induction s arbitrary: d out)
  case (Cons c s)
  then obtain d1 xs where b: "chunk_byte d c = B_Next d1 xs" by (cases "chunk_byte d c") auto
  then obtain out' where "chunk_run d1 s = (Run_More d', out', rest)"
    using Cons.prems by (cases "chunk_run d1 s") auto
  with Cons.IH chunk_byte_ready [OF Cons.prems(1) b] show ?case by blast
qed simp

text \<open>The call in terms of the machine run from the decoder as it is before the call.\<close>

lemma decode_run:
  assumes "dec_ready d" and "chunk_run d buf = (e, out, rest)"
  shows "\<exists>ret d' buf'. phr_decode_chunked d buf = (ret, d', buf', length out) \<and> take (length out) buf' = out \<and>
    length out \<le> length buf \<and>
    (case e of
       Run_Done \<Rightarrow> ret = Complete (length rest) \<and> take (length rest) (drop (length out) buf') = rest
     | Run_Bad \<Rightarrow> ret = Bad_Encoding
     | Run_More d1 \<Rightarrow> d' = with_totals (total_read d + of_nat (length buf))
           (total_overhead d + of_nat (length buf - length out)) d1 \<and>
         ret = (if too_much_overhead d' then Bad_Encoding else Incomplete))"
proof -
  let ?d = "with_totals (total_read d + of_nat (length buf)) (total_overhead d) d"
  let ?e = "case e of Run_More d' \<Rightarrow> Run_More (with_totals (total_read d + of_nat (length buf)) (total_overhead d) d') | r \<Rightarrow> r"
  have "chunk_run ?d buf = (?e, out, rest)" unfolding chunk_run_totals assms(2) by simp
  moreover have "?d = d\<lparr>total_read := total_read d + of_nat (length buf)\<rparr>" by simp
  ultimately have "chunk_run (d\<lparr>total_read := total_read d + of_nat (length buf)\<rparr>) buf = (?e, out, rest)" by metis
  from phr_decode_refines [OF assms(1) this] show ?thesis
    by (cases e) (auto simp del: of_nat_diff)
qed

subsection \<open>Encoding a body\<close>

definition hex_char :: "nat \<Rightarrow> char" where
  "hex_char n = (if n < 10 then char_of (48 + n) else char_of (87 + n))"

fun hex_digits :: "nat \<Rightarrow> string" where
  "hex_digits n = (if n < 16 then [hex_char n] else hex_digits (n div 16) @ [hex_char (n mod 16)])"

declare hex_digits.simps [simp del]

definition chunk_encode :: "string list \<Rightarrow> string" where
  "chunk_encode cs = concat (map (\<lambda>c. hex_digits (length c) @ [cr, lf] @ c @ [cr, lf]) cs) @ [CHR ''0'', cr, lf, cr, lf]"

lemma decode_hex_char: "n < 16 \<Longrightarrow> decode_hex (hex_char n) = Some n"
  by (auto simp: decode_hex_def hex_char_def Let_def)

lemma hex_digits_length: "n < 16 ^ k \<Longrightarrow> 0 < k \<Longrightarrow> length (hex_digits n) \<le> k"
proof (induction n arbitrary: k rule: hex_digits.induct)
  case (1 n)
  show ?case
  proof (cases "n < 16")
    case True
    with "1.prems" show ?thesis by (simp add: hex_digits.simps)
  next
    case False
    with "1.prems" obtain j where j: "k = Suc j" "0 < j" by (cases k; cases "k - 1") auto
    then have "n div 16 < 16 ^ j" using "1.prems" by (simp add: less_mult_imp_div_less mult.commute)
    from "1.IH" [OF False this j(2)] False show ?thesis by (simp add: hex_digits.simps [of n] j(1))
  qed
qed

definition at_size :: "phr_chunked_decoder \<Rightarrow> nat \<Rightarrow> nat \<Rightarrow> phr_chunked_decoder" where
  "at_size d n k = d\<lparr>bytes_left_in_chunk := of_nat n, hex_count := k, dec_state := CHUNKED_IN_CHUNK_SIZE\<rparr>"

lemma chunk_run_hex:
  "length (hex_digits n) \<le> 16 \<Longrightarrow>
     chunk_run (at_size d 0 0) (hex_digits n @ s) = chunk_run (at_size d n (length (hex_digits n))) s"
proof (induction n arbitrary: s rule: hex_digits.induct)
  case (1 n)
  have byte: "chunk_run (at_size d m k) (hex_char v # s) = chunk_run (at_size d (m * 16 + v) (Suc k)) s"
    if "v < 16" "k < 16" for m k v s
    using that by (cases d) (simp add: chunk_byte_def at_size_def decode_hex_char)
  show ?case
  proof (cases "n < 16")
    case True
    then show ?thesis using byte [of n 0 0 s] by (simp add: hex_digits.simps)
  next
    case False
    let ?m = "n div 16"
    have digits: "hex_digits n = hex_digits ?m @ [hex_char (n mod 16)]" using False by (subst hex_digits.simps) simp
    with "1.prems" have len: "length (hex_digits ?m) < 16" by simp
    have "chunk_run (at_size d 0 0) (hex_digits ?m @ (hex_char (n mod 16) # s)) =
        chunk_run (at_size d ?m (length (hex_digits ?m))) (hex_char (n mod 16) # s)"
      by (rule "1.IH" [OF False]) (use len in simp)
    also have "\<dots> = chunk_run (at_size d n (Suc (length (hex_digits ?m)))) s"
      using byte [of "n mod 16" "length (hex_digits ?m)" ?m s] len by simp
    finally show ?thesis by (simp add: digits)
  qed
qed

lemma hex_digits_nonempty: "hex_digits n \<noteq> []"
  by (subst hex_digits.simps) simp

lemma chunk_run_chunk:
  assumes "c \<noteq> []" and "length c < 2 ^ 64"
  shows "chunk_run (at_size d 0 0) (hex_digits (length c) @ [cr, lf] @ c @ [cr, lf] @ s) =
    prepend c (chunk_run (at_size d 0 0) s)"
proof -
  have not_hex: "decode_hex cr = None" by (simp add: decode_hex_def)
  have "length c < 16 ^ 16" using assms(2) by simp
  then have "length (hex_digits (length c)) \<le> 16" by (rule hex_digits_length) simp
  then have "chunk_run (at_size d 0 0) (hex_digits (length c) @ [cr, lf] @ c @ [cr, lf] @ s) =
      chunk_run (at_size d (length c) (length (hex_digits (length c)))) ([cr, lf] @ c @ [cr, lf] @ s)"
    by (rule chunk_run_hex)
  also have "\<dots> = chunk_run (d\<lparr>bytes_left_in_chunk := of_nat (length c), hex_count := 0,
      dec_state := CHUNKED_IN_CHUNK_HEADER_EXPECT_LF\<rparr>) ([lf] @ c @ [cr, lf] @ s)"
    using hex_digits_nonempty [of "length c"] by (cases d) (simp add: chunk_byte_def at_size_def not_hex ext_byte_def)
  also have "\<dots> = chunk_run (d\<lparr>bytes_left_in_chunk := of_nat (length c), hex_count := 0,
      dec_state := CHUNKED_IN_CHUNK_DATA\<rparr>) (c @ [cr, lf] @ s)"
  proof -
    have "(of_nat (length c) :: 64 word) \<noteq> 0"
      using assms by (simp add: word_unat_eq_iff unat_of_nat take_bit_nat_eq_self)
    then show ?thesis by (cases d) (simp add: chunk_byte_def)
  qed
  also have "\<dots> = prepend c (chunk_run (d\<lparr>bytes_left_in_chunk := 0, hex_count := 0,
      dec_state := CHUNKED_IN_CHUNK_DATA_EXPECT_CR\<rparr>) ([cr, lf] @ s))"
    using assms by (cases d, subst chunk_run_data) (simp_all add: unat_of_nat take_bit_nat_eq_self)
  also have "\<dots> = prepend c (chunk_run (at_size d 0 0) s)"
    by (cases d) (simp add: chunk_byte_def at_size_def)
  finally show ?thesis .
qed

lemma chunk_run_encode:
  assumes "consume_trailer d" and "\<forall>c\<in>set cs. c \<noteq> [] \<and> length c < 2 ^ 64"
  shows "chunk_run (at_size d 0 0) (chunk_encode cs @ rest) = (Run_Done, concat cs, rest)"
  using assms(2)
proof (induction cs)
  case Nil
  have hex: "decode_hex cr = None" "decode_hex CHR ''0'' = Some 0" by (simp_all add: decode_hex_def)
  show ?case using assms(1) hex by (simp add: chunk_encode_def at_size_def chunk_byte_def ext_byte_def)
next
  case (Cons c cs)
  have "chunk_encode (c # cs) @ rest = hex_digits (length c) @ [cr, lf] @ c @ [cr, lf] @ (chunk_encode cs @ rest)"
    by (simp add: chunk_encode_def)
  then show ?case
    using chunk_run_chunk [of c d "chunk_encode cs @ rest"] Cons by simp
qed

lemma init_ready: "dec_ready ioh_http1_chunked_init"
  by (simp add: dec_ready_def ioh_http1_chunked_init_def)

subsection \<open>Properties\<close>

text \<open>C11: Decoding an encoded body.  For every list of non-empty chunks, the decoder, started anew on the
  encoding followed by any bytes, ends with success; the buffer then starts with exactly the concatenated chunks,
  and the return value counts exactly the bytes that followed the encoding, which stand right after the data.\<close>

theorem chunked_round_trip:
  assumes "\<forall>c\<in>set cs. c \<noteq> [] \<and> length c < 2 ^ 64"
  shows "\<exists>d buf. ioh_http1_chunked_decode ioh_http1_chunked_init (chunk_encode cs @ rest) =
      (Inr (length rest), d, buf, length (concat cs)) \<and>
    take (length (concat cs)) buf = concat cs \<and> take (length rest) (drop (length (concat cs)) buf) = rest"
proof -
  have init: "at_size ioh_http1_chunked_init 0 0 = ioh_http1_chunked_init"
    by (simp add: at_size_def ioh_http1_chunked_init_def)
  have "consume_trailer ioh_http1_chunked_init" by (simp add: ioh_http1_chunked_init_def)
  note run = chunk_run_encode [OF this assms, of rest, unfolded init]
  show ?thesis
    using decode_run [OF init_ready run] by (auto simp: ioh_http1_chunked_decode_def)
qed

theorem chunked_round_trip_witness:
  "\<exists>d buf. ioh_http1_chunked_decode ioh_http1_chunked_init (chunk_encode [''hello'', '' world''] @ ''GET'') = (Inr 3, d, buf, 11) \<and>
     take 11 buf = ''hello world''"
proof -
  have "\<forall>c\<in>set [''hello'', '' world'']. c \<noteq> [] \<and> length c < 2 ^ 64" by simp
  from chunked_round_trip [OF this, of "''GET''"] show ?thesis by (auto simp: eval_nat_numeral)
qed

text \<open>C12: Decoding does not depend on how the input is cut.  If a decoder asks for more after one read,
  then decoding the next read gives what decoding both reads at once gives: the same result code, the concatenation
  of the two pieces of data, and the same bytes left over.  The decoder stays ready for further reads.\<close>

theorem chunked_decode_incremental:
  assumes ready: "dec_ready d"
    and first: "ioh_http1_chunked_decode d a = (Inl EAGAIN, d1, buf1, n1)"
    and second: "ioh_http1_chunked_decode d1 b = (r, d2, buf2, n2)"
  shows "dec_ready d1 \<and> (\<exists>d' buf. ioh_http1_chunked_decode d (a @ b) = (r, d', buf, n1 + n2) \<and>
    take (n1 + n2) buf = take n1 buf1 @ take n2 buf2 \<and>
    (\<forall>k. r = Inr k \<longrightarrow> take k (drop (n1 + n2) buf) = take k (drop n2 buf2)))"
proof -
  obtain e1 o1 r1 where run1: "chunk_run d a = (e1, o1, r1)" by (rule prod_cases3)
  note one = decode_run [OF ready run1]
  obtain x where e1: "e1 = Run_More x"
    using one first by (cases e1) (auto simp: ioh_http1_chunked_decode_def)
  from one first have d1: "d1 = with_totals (total_read d + of_nat (length a)) (total_overhead d + of_nat (length a - length o1)) x"
    and n1: "n1 = length o1" "take n1 buf1 = o1" "length o1 \<le> length a"
    by (auto simp: ioh_http1_chunked_decode_def e1 split: if_splits simp del: of_nat_diff)
  have ready1: "dec_ready d1" using chunk_run_ready [OF ready run1 [unfolded e1]] by (simp add: d1 dec_ready_def)
  obtain e2 o2 r2 where run2: "chunk_run x b = (e2, o2, r2)" by (rule prod_cases3)
  have whole: "chunk_run d (a @ b) = (e2, o1 @ o2, r2)"
    using run1 run2 by (simp add: chunk_run_append e1)
  have run2': "chunk_run d1 b = (case e2 of Run_More d' \<Rightarrow> Run_More (with_totals (total_read d1) (total_overhead d1) d') | e \<Rightarrow> e, o2, r2)"
    using chunk_run_totals [where a = "total_read d1" and b = "total_overhead d1" and d = x and s = b] run2 by (simp add: d1)
  note two = decode_run [OF ready1 run2'] and both = decode_run [OF ready whole]
  have n2: "n2 = length o2" "take n2 buf2 = o2" "length o2 \<le> length b"
    using two second by (auto simp: ioh_http1_chunked_decode_def split: chunked_ret.splits)
  have total: "total_overhead d1 + of_nat (length b - length o2) = total_overhead d + of_nat (length (a @ b) - length (o1 @ o2))"
    using n1(3) n2(3) by (simp add: d1)
  show ?thesis
  proof (cases e2)
    case (Run_More y)
    define z where "z = with_totals (total_read d + of_nat (length (a @ b))) (total_overhead d + of_nat (length (a @ b) - length (o1 @ o2))) y"
    have z2: "with_totals (total_read d1 + of_nat (length b)) (total_overhead d1 + of_nat (length b - length o2))
        (with_totals (total_read d1) (total_overhead d1) y) = z"
      unfolding total z_def by (simp add: d1 add.assoc)
    from two second have "r = (if too_much_overhead z then Inl EINVAL else Inl EAGAIN)"
      by (auto simp: ioh_http1_chunked_decode_def Run_More z2 [symmetric] simp del: of_nat_diff)
    moreover from both obtain buf' where "phr_decode_chunked d (a @ b) =
        (if too_much_overhead z then Bad_Encoding else Incomplete, z, buf', length (o1 @ o2))" "take (length (o1 @ o2)) buf' = o1 @ o2"
      by (auto simp: Run_More z_def simp del: of_nat_diff)
    ultimately show ?thesis using ready1 n1 n2 by (auto simp: ioh_http1_chunked_decode_def)
  next
    case Run_Bad
    then show ?thesis using two both second ready1 n1 n2
      by (auto simp: ioh_http1_chunked_decode_def)
  next
    case Run_Done
    then show ?thesis using two both second ready1 n1 n2
      by (auto simp: ioh_http1_chunked_decode_def)
  qed
qed

theorem chunked_decode_incremental_witness:
  "\<exists>d' buf. ioh_http1_chunked_decode ioh_http1_chunked_init ([CHR ''3'', cr] @ [lf, CHR ''a'']) = (Inl EAGAIN, d', buf, 1) \<and>
     take 1 buf = ''a''"
proof -
  let ?d = "\<lparr>bytes_left_in_chunk = 3, consume_trailer = True, hex_count = 0, dec_state = CHUNKED_IN_CHUNK_HEADER_EXPECT_LF,
      total_read = 2, total_overhead = 2\<rparr>"
  have first: "ioh_http1_chunked_decode ioh_http1_chunked_init [CHR ''3'', cr] = (Inl EAGAIN, ?d, [CHR ''3'', cr], 0)"
    by code_simp
  have second: "ioh_http1_chunked_decode ?d [lf, CHR ''a''] =
      (Inl EAGAIN, ?d\<lparr>bytes_left_in_chunk := 2, dec_state := CHUNKED_IN_CHUNK_DATA, total_read := 4, total_overhead := 3\<rparr>,
       ''aa'', 1)"
    by code_simp
  show ?thesis using chunked_decode_incremental [OF init_ready first second] by simp
qed

end
