(* ===== verification/Http1.thy ===== *)
theory Http1
  imports Response Pico_Stream Chunked_Stream
begin

text \<open>
  The HTTP/1.1 layer of \<^verbatim>\<open>src/http/ioh_http1.c\<close>: the request parser with its protection against
  request smuggling, and the response serializer.

  The parser gets the received bytes \<open>buf\<close> and the memory \<open>after\<close> that follows them in the
  connection's buffer, since the request points into it.  The request is described for a successful
  parse only.
\<close>

definition IOH_HTTP1_MAX_HEADERS :: nat where "IOH_HTTP1_MAX_HEADERS = 64"
definition IOH_HTTP1_MAX_URI_SIZE :: nat where "IOH_HTTP1_MAX_URI_SIZE = 4096"

subsection \<open>Requests\<close>

definition is_valid_content_length :: "string \<Rightarrow> bool" where
  "is_valid_content_length v \<longleftrightarrow> v \<noteq> [] \<and> list_all (\<lambda>c. 48 \<le> byte_val c \<and> byte_val c \<le> 57) v"

definition parse_content_length :: "string \<Rightarrow> size_t" where
  "parse_content_length v = foldl (\<lambda>r c. r * 10 + of_nat (byte_val c - 48)) 0 v"

text \<open>The suffix of a value that starts at the first occurrence of \<^verbatim>\<open>"chunked"\<close>.\<close>

fun find_chunked :: "string \<Rightarrow> string option" where
  "find_chunked [] = None"
| "find_chunked (c # cs) =
     (if length (c # cs) < 7 then None
      else if ci_eq (take 7 (c # cs)) ''chunked'' then Some (c # cs)
      else find_chunked cs)"

definition chunked_is_last :: "string \<Rightarrow> bool" where
  "chunked_is_last v =
     (case find_chunked v of None \<Rightarrow> True | Some s \<Rightarrow> dropWhile is_blank (drop 7 s) = [])"

record header_scan =
  sc_content_length :: "size_t option"
  sc_transfer_encoding :: bool
  sc_host :: bool

fun scan_headers :: "phr_header list \<Rightarrow> header_scan \<Rightarrow> errno + header_scan" where
  "scan_headers [] sc = Inr sc"
| "scan_headers (h # hs) sc =
     (case ph_name h of
        None \<Rightarrow> Inl EINVAL
      | Some name \<Rightarrow>
          if length name = 14 \<and> ci_eq name ''Content-Length'' \<and>
             (sc_content_length sc \<noteq> None \<or> \<not> is_valid_content_length (ph_value h)) then Inl EINVAL
          else
            (let sc = (if length name = 14 \<and> ci_eq name ''Content-Length''
                       then sc\<lparr>sc_content_length := Some (parse_content_length (ph_value h))\<rparr> else sc)
             in if length name = 17 \<and> ci_eq name ''Transfer-Encoding'' \<and> \<not> chunked_is_last (ph_value h) then Inl EINVAL
                else
                  (let sc = (if length name = 17 \<and> ci_eq name ''Transfer-Encoding''
                             then sc\<lparr>sc_transfer_encoding := True\<rparr> else sc);
                       sc = (if length name = 4 \<and> ci_eq name ''Host'' then sc\<lparr>sc_host := True\<rparr> else sc)
                   in scan_headers hs sc)))"

text \<open>The second pass: the headers are copied and the special ones noted.\<close>

definition copy_header :: "string \<Rightarrow> ioh_request \<Rightarrow> phr_header \<Rightarrow> ioh_request" where
  "copy_header after req h =
     (let name = (case ph_name h of Some n \<Rightarrow> n | None \<Rightarrow> []);
          mem = ph_mem h @ after;
          req = req\<lparr>req_headers := req_headers req @ [\<lparr>h_name = name, h_mem = mem, h_value_len = ph_value_len h\<rparr>]\<rparr>;
          req = (if length name = 12 \<and> ci_eq name ''Content-Type'' then req\<lparr>req_content_type := Some mem\<rparr> else req);
          req = (if length name = 4 \<and> ci_eq name ''Host'' then req\<lparr>req_host := Some mem\<rparr> else req)
      in if length name = 10 \<and> ci_eq name ''Connection'' then
           (if ph_value_len h = 5 \<and> ci_eq (ph_value h) ''close'' then req\<lparr>req_keep_alive := False\<rparr>
            else if ph_value_len h = 10 \<and> ci_eq (ph_value h) ''keep-alive'' then req\<lparr>req_keep_alive := True\<rparr>
            else req)
         else req)"

definition split_target :: "string \<Rightarrow> string \<times> string option" where
  "split_target path =
     (case dropWhile (\<lambda>c. c \<noteq> CHR ''?'') path of
        [] \<Rightarrow> (path, None)
      | _ # q \<Rightarrow> (takeWhile (\<lambda>c. c \<noteq> CHR ''?'') path, Some q))"

definition ioh_http1_parse_request :: "bool \<Rightarrow> string \<Rightarrow> string \<Rightarrow> errno + (nat \<times> ioh_request)" where
  "ioh_http1_parse_request sse buf after =
     (if buf = [] then Inl EAGAIN
      else case phr_parse_request sse buf IOH_HTTP1_MAX_HEADERS 0 of
             Partial \<Rightarrow> Inl EAGAIN
           | Failed \<Rightarrow> Inl EINVAL
           | Done pr rest \<Rightarrow>
               if length (pr_path pr) > IOH_HTTP1_MAX_URI_SIZE then Inl E2BIG
               else if length (pr_headers pr) > IOH_HTTP1_MAX_HEADERS then Inl E2BIG
               else
                 (case scan_headers (pr_headers pr)
                         \<lparr>sc_content_length = None, sc_transfer_encoding = False, sc_host = False\<rparr> of
                    Inl e \<Rightarrow> Inl e
                  | Inr sc \<Rightarrow>
                      if sc_content_length sc \<noteq> None \<and> sc_transfer_encoding sc then Inl EINVAL
                      else if pr_minor pr \<ge> 1 \<and> \<not> sc_host sc then Inl EINVAL
                      else
                        (let (path, query) = split_target (pr_path pr);
                             req = ioh_request_init\<lparr>req_method := ioh_method_parse (pr_method pr),
                               req_version_major := 1, req_version_minor := pr_minor pr,
                               req_keep_alive := (pr_minor pr \<ge> 1), req_path := path, req_query := query,
                               req_content_length := (case sc_content_length sc of None \<Rightarrow> 0 | Some n \<Rightarrow> n)\<rparr>
                         in Inr (length buf - length rest,
                              foldl (copy_header after) req (take IOH_MAX_HEADERS (pr_headers pr))))))"

subsection \<open>Responses\<close>

text \<open>
  \<^verbatim>\<open>snprintf(out, remaining, ...)\<close> followed by the check of its result: the text is kept only if it
  and its terminating NUL fit.
\<close>

definition put_text :: "nat \<Rightarrow> string \<Rightarrow> string \<Rightarrow> errno + string" where
  "put_text cap out text = (if length out + length text \<ge> cap then Inl ENOSPC else Inr (out @ text))"

definition header_line :: "ioh_header \<Rightarrow> string" where
  "header_line h = cstr (h_name h) @ '': '' @ cstr (h_value h) @ [cr, lf]"

fun put_headers :: "nat \<Rightarrow> string \<Rightarrow> ioh_header list \<Rightarrow> errno + string" where
  "put_headers cap out [] = Inr out"
| "put_headers cap out (h # hs) =
     (case put_text cap out (header_line h) of Inl e \<Rightarrow> Inl e | Inr out' \<Rightarrow> put_headers cap out' hs)"

definition content_length_line :: "ioh_response \<Rightarrow> string" where
  "content_length_line resp = ''Content-Length: '' @ dec_digits (length (rs_body resp)) @ [cr, lf]"

definition status_line :: "ioh_response \<Rightarrow> string" where
  "status_line resp =
     ''HTTP/1.1 '' @ dec_digits (unat (rs_status resp)) @ '' '' @ ioh_status_text (rs_status resp) @ [cr, lf]"

definition ioh_http1_serialize_response :: "ioh_response \<Rightarrow> nat \<Rightarrow> errno + string" where
  "ioh_http1_serialize_response resp buf_size =
     (if buf_size = 0 then Inl EINVAL
      else case put_text buf_size [] (status_line resp) of
             Inl e \<Rightarrow> Inl e
           | Inr out \<Rightarrow>
               (case put_headers buf_size out (rs_headers resp) of
                  Inl e \<Rightarrow> Inl e
                | Inr out \<Rightarrow>
                    (case (if rs_body resp \<noteq> [] \<and> \<not> rs_chunked resp
                           then put_text buf_size out (content_length_line resp) else Inr out) of
                       Inl e \<Rightarrow> Inl e
                     | Inr out \<Rightarrow>
                         if buf_size - length out < 2 then Inl ENOSPC
                         else
                           (let out = out @ [cr, lf]
                            in if rs_body resp \<noteq> [] then
                                 (if length (rs_body resp) > buf_size - length out then Inl ENOSPC
                                  else Inr (out @ rs_body resp))
                               else Inr out))))"

subsection \<open>What the header scan accepts\<close>

definition named :: "string \<Rightarrow> phr_header \<Rightarrow> bool" where
  "named n h \<longleftrightarrow> (case ph_name h of None \<Rightarrow> False | Some m \<Rightarrow> ci_eq m n)"

definition scan_accepts :: "phr_header list \<Rightarrow> bool" where
  "scan_accepts hs \<longleftrightarrow>
     (\<forall>h\<in>set hs. ph_name h \<noteq> None) \<and>
     (\<forall>h\<in>set hs. named ''Content-Length'' h \<longrightarrow> is_valid_content_length (ph_value h)) \<and>
     (\<forall>h\<in>set hs. named ''Transfer-Encoding'' h \<longrightarrow> chunked_is_last (ph_value h))"

definition scan_result :: "phr_header list \<Rightarrow> header_scan \<Rightarrow> header_scan" where
  "scan_result hs sc =
     \<lparr>sc_content_length = (case filter (named ''Content-Length'') hs of
          [] \<Rightarrow> sc_content_length sc | h # _ \<Rightarrow> Some (parse_content_length (ph_value h))),
      sc_transfer_encoding = (sc_transfer_encoding sc \<or> (\<exists>h\<in>set hs. named ''Transfer-Encoding'' h)),
      sc_host = (sc_host sc \<or> (\<exists>h\<in>set hs. named ''Host'' h))\<rparr>"

lemma distinct_names:
  "ci_eq m ''Content-Length'' \<Longrightarrow> length m = 14" "ci_eq m ''Transfer-Encoding'' \<Longrightarrow> length m = 17"
  "ci_eq m ''Host'' \<Longrightarrow> length m = 4"
  by (auto dest: ci_eq_length)

lemma scan_headers_exact:
  "scan_headers hs sc =
     (if scan_accepts hs \<and>
         length (filter (named ''Content-Length'') hs) \<le> (if sc_content_length sc = None then 1 else 0)
      then Inr (scan_result hs sc) else Inl EINVAL)"
proof (induction hs arbitrary: sc)
  case Nil
  show ?case by (simp add: scan_accepts_def scan_result_def)
next
  case (Cons h hs)
  show ?case
  proof (cases "ph_name h")
    case None
    then show ?thesis by (simp add: scan_accepts_def)
  next
    case (Some m)
    consider (cl) "ci_eq m ''Content-Length''" | (te) "ci_eq m ''Transfer-Encoding''" | (host) "ci_eq m ''Host''"
      | (other) "\<not> ci_eq m ''Content-Length''" "\<not> ci_eq m ''Transfer-Encoding''" "\<not> ci_eq m ''Host''"
      by blast
    then show ?thesis
    proof cases
      case cl
      then have n: "named ''Content-Length'' h" "\<not> named ''Transfer-Encoding'' h" "\<not> named ''Host'' h"
        "length m = 14" using Some distinct_names [of m] by (auto simp: named_def)
      show ?thesis
      proof (cases "sc_content_length sc \<noteq> None \<or> \<not> is_valid_content_length (ph_value h)")
        case True
        then show ?thesis using cl n Some by (auto simp: scan_accepts_def)
      next
        case False
        then show ?thesis using cl n Some
          by (auto simp: Cons scan_accepts_def scan_result_def filter_empty_conv)
      qed
    next
      case te
      then have n: "named ''Transfer-Encoding'' h" "\<not> named ''Content-Length'' h" "\<not> named ''Host'' h"
        "length m = 17" using Some distinct_names [of m] by (auto simp: named_def)
      then show ?thesis using te Some by (auto simp: Cons scan_accepts_def scan_result_def split: list.split)
    next
      case host
      then have n: "named ''Host'' h" "\<not> named ''Content-Length'' h" "\<not> named ''Transfer-Encoding'' h"
        "length m = 4" using Some distinct_names [of m] by (auto simp: named_def)
      then show ?thesis using host Some by (auto simp: Cons scan_accepts_def scan_result_def split: list.split)
    next
      case other
      then have n: "\<not> named ''Host'' h" "\<not> named ''Content-Length'' h" "\<not> named ''Transfer-Encoding'' h"
        using Some by (auto simp: named_def)
      then show ?thesis using other Some by (auto simp: Cons scan_accepts_def scan_result_def split: list.split)
    qed
  qed
qed

subsection \<open>The request built from the headers\<close>

definition req_header_of :: "string \<Rightarrow> phr_header \<Rightarrow> ioh_header" where
  "req_header_of after h =
     \<lparr>h_name = (case ph_name h of Some n \<Rightarrow> n | None \<Rightarrow> []), h_mem = ph_mem h @ after, h_value_len = ph_value_len h\<rparr>"

lemma copy_header_fields:
  "req_headers (copy_header after req h) = req_headers req @ [req_header_of after h]"
  "req_method (copy_header after req h) = req_method req" "req_path (copy_header after req h) = req_path req"
  "req_query (copy_header after req h) = req_query req"
  "req_version_major (copy_header after req h) = req_version_major req"
  "req_version_minor (copy_header after req h) = req_version_minor req"
  "req_content_length (copy_header after req h) = req_content_length req"
  by (simp_all add: copy_header_def Let_def req_header_of_def)

lemma copy_headers_fields:
  "req_headers (foldl (copy_header after) req hs) = req_headers req @ map (req_header_of after) hs"
  "req_method (foldl (copy_header after) req hs) = req_method req"
  "req_path (foldl (copy_header after) req hs) = req_path req"
  "req_query (foldl (copy_header after) req hs) = req_query req"
  "req_version_major (foldl (copy_header after) req hs) = req_version_major req"
  "req_version_minor (foldl (copy_header after) req hs) = req_version_minor req"
  "req_content_length (foldl (copy_header after) req hs) = req_content_length req"
  by (induction hs arbitrary: req) (simp_all add: copy_header_fields)

definition http1_accepts :: "phr_request \<Rightarrow> bool" where
  "http1_accepts pr \<longleftrightarrow> scan_accepts (pr_headers pr) \<and>
     length (filter (named ''Content-Length'') (pr_headers pr)) \<le> 1 \<and>
     \<not> ((\<exists>h\<in>set (pr_headers pr). named ''Content-Length'' h) \<and> (\<exists>h\<in>set (pr_headers pr). named ''Transfer-Encoding'' h)) \<and>
     (pr_minor pr \<ge> 1 \<longrightarrow> (\<exists>h\<in>set (pr_headers pr). named ''Host'' h))"

definition content_length_of :: "phr_header list \<Rightarrow> size_t" where
  "content_length_of hs =
     (case filter (named ''Content-Length'') hs of [] \<Rightarrow> 0 | h # _ \<Rightarrow> parse_content_length (ph_value h))"

text \<open>The decision and the result, once the bytes have been parsed.\<close>

lemma http1_parse_exact:
  assumes "phr_parse_request sse buf IOH_HTTP1_MAX_HEADERS 0 = Done pr rest"
    and "length (pr_path pr) \<le> IOH_HTTP1_MAX_URI_SIZE" and "length (pr_headers pr) \<le> IOH_HTTP1_MAX_HEADERS" and "buf \<noteq> []"
  shows "if http1_accepts pr
    then \<exists>req. ioh_http1_parse_request sse buf after = Inr (length buf - length rest, req) \<and>
      req_method req = ioh_method_parse (pr_method pr) \<and> (req_path req, req_query req) = split_target (pr_path pr) \<and>
      req_version_major req = 1 \<and> req_version_minor req = pr_minor pr \<and>
      req_headers req = map (req_header_of after) (pr_headers pr) \<and>
      req_content_length req = content_length_of (pr_headers pr)
    else ioh_http1_parse_request sse buf after = Inl EINVAL"
proof -
  let ?init = "\<lparr>sc_content_length = None, sc_transfer_encoding = False, sc_host = False\<rparr>"
  note scan = scan_headers_exact [of "pr_headers pr" ?init]
  have cl: "sc_content_length (scan_result (pr_headers pr) ?init) \<noteq> None \<longleftrightarrow> (\<exists>h\<in>set (pr_headers pr). named ''Content-Length'' h)"
    by (cases "filter (named ''Content-Length'') (pr_headers pr)") (auto simp: scan_result_def filter_eq_Cons_iff filter_empty_conv)
  have len: "(case sc_content_length (scan_result (pr_headers pr) ?init) of None \<Rightarrow> 0 | Some n \<Rightarrow> n) = content_length_of (pr_headers pr)"
    by (simp add: scan_result_def content_length_of_def split: list.split)
  have te: "sc_transfer_encoding (scan_result (pr_headers pr) ?init) \<longleftrightarrow> (\<exists>h\<in>set (pr_headers pr). named ''Transfer-Encoding'' h)"
    and host: "sc_host (scan_result (pr_headers pr) ?init) \<longleftrightarrow> (\<exists>h\<in>set (pr_headers pr). named ''Host'' h)"
    by (simp_all add: scan_result_def)
  obtain path query where target: "split_target (pr_path pr) = (path, query)" by (rule prod.exhaust)
  define req where "req = foldl (copy_header after) (ioh_request_init\<lparr>req_method := ioh_method_parse (pr_method pr),
      req_version_major := 1, req_version_minor := pr_minor pr, req_keep_alive := (pr_minor pr \<ge> 1), req_path := path,
      req_query := query, req_content_length := content_length_of (pr_headers pr)\<rparr>) (take IOH_MAX_HEADERS (pr_headers pr))"
  have all: "take IOH_MAX_HEADERS (pr_headers pr) = pr_headers pr"
    using assms(3) by (simp add: IOH_MAX_HEADERS_def IOH_HTTP1_MAX_HEADERS_def)
  have "ioh_http1_parse_request sse buf after =
      (if http1_accepts pr then Inr (length buf - length rest, req) else Inl EINVAL)"
    using assms
    by (auto simp: ioh_http1_parse_request_def scan http1_accepts_def cl [simplified] te host len target Let_def req_def)
  then show ?thesis
    by (simp add: req_def copy_headers_fields all target ioh_request_init_def)
qed

lemma http1_parse_Inr:
  assumes "ioh_http1_parse_request sse buf after = Inr (n, req)"
  obtains pr rest where "phr_parse_request sse buf IOH_HTTP1_MAX_HEADERS 0 = Done pr rest"
    "length (pr_path pr) \<le> IOH_HTTP1_MAX_URI_SIZE" "length (pr_headers pr) \<le> IOH_HTTP1_MAX_HEADERS" "buf \<noteq> []"
    "http1_accepts pr" "n = length buf - length rest"
    "req_method req = ioh_method_parse (pr_method pr)" "(req_path req, req_query req) = split_target (pr_path pr)"
    "req_version_minor req = pr_minor pr" "req_headers req = map (req_header_of after) (pr_headers pr)"
    "req_content_length req = content_length_of (pr_headers pr)"
proof -
  obtain pr rest where pr: "phr_parse_request sse buf IOH_HTTP1_MAX_HEADERS 0 = Done pr rest"
    "length (pr_path pr) \<le> IOH_HTTP1_MAX_URI_SIZE" "length (pr_headers pr) \<le> IOH_HTTP1_MAX_HEADERS" "buf \<noteq> []"
    using assms by (auto simp: ioh_http1_parse_request_def split: if_splits presult.splits)
  note exact = http1_parse_exact [OF pr, of after]
  show thesis
  proof (cases "http1_accepts pr")
    case True
    with exact obtain req' where "ioh_http1_parse_request sse buf after = Inr (length buf - length rest, req')"
      "req_method req' = ioh_method_parse (pr_method pr)" "(req_path req', req_query req') = split_target (pr_path pr)"
      "req_version_minor req' = pr_minor pr" "req_headers req' = map (req_header_of after) (pr_headers pr)"
      "req_content_length req' = content_length_of (pr_headers pr)" by auto
    with assms that [OF pr True] show thesis by simp
  next
    case False
    with exact assms show thesis by simp
  qed
qed

lemma parsed_headers_fit:
  assumes "phr_parse_request sse buf n 0 = Done pr rest"
  shows "\<forall>h\<in>set (pr_headers pr). ph_value_len h \<le> length (ph_mem h)"
  using parse_request_headers [of sse n buf pr rest] headers_loop_fits [of sse n "[]"] assms
  by (auto simp: phr_parse_request_def parse_headers_def list_all_iff)

lemma req_header_value: "ph_value_len h \<le> length (ph_mem h) \<Longrightarrow> h_value (req_header_of after h) = ph_value h"
  by (simp add: req_header_of_def)

lemma req_header_named:
  "ph_name h \<noteq> None \<Longrightarrow> ci_eq (h_name (req_header_of after h)) n \<longleftrightarrow> named n h"
  by (auto simp: req_header_of_def named_def)

lemma content_length_of_single:
  assumes "length (filter (named ''Content-Length'') hs) \<le> 1" and "h \<in> set hs" and "named ''Content-Length'' h"
  shows "content_length_of hs = parse_content_length (ph_value h)"
proof -
  have "h \<in> set (filter (named ''Content-Length'') hs)" using assms(2,3) by simp
  then obtain x xs where x: "filter (named ''Content-Length'') hs = x # xs" by (cases "filter (named ''Content-Length'') hs") auto
  with assms(1) have "xs = []" by simp
  with x \<open>h \<in> set (filter (named ''Content-Length'') hs)\<close> have "x = h" by simp
  with x show ?thesis by (simp add: content_length_of_def)
qed

lemma parse_content_length_value: "parse_content_length v = of_nat (dec_value v)"
proof (induction v rule: rev_induct)
  case (snoc c v)
  then show ?case by (simp add: dec_value_snoc) (simp add: parse_content_length_def digit_val_def)
qed (simp add: parse_content_length_def dec_value_def)

subsection \<open>Printed requests\<close>

abbreviation header_named :: "string \<Rightarrow> string \<times> string \<Rightarrow> bool" where
  "header_named n h \<equiv> ci_eq (fst h) n"

text \<open>What a well-formed header list must satisfy to be accepted.\<close>

definition unambiguous :: "nat \<Rightarrow> (string \<times> string) list \<Rightarrow> bool" where
  "unambiguous minor hs \<longleftrightarrow>
     length (filter (header_named ''Content-Length'') hs) \<le> 1 \<and>
     (\<forall>h\<in>set hs. header_named ''Content-Length'' h \<longrightarrow> is_valid_content_length (snd h)) \<and>
     (\<forall>h\<in>set hs. header_named ''Transfer-Encoding'' h \<longrightarrow> chunked_is_last (snd h)) \<and>
     \<not> ((\<exists>h\<in>set hs. header_named ''Content-Length'' h) \<and> (\<exists>h\<in>set hs. header_named ''Transfer-Encoding'' h)) \<and>
     (minor \<ge> 1 \<longrightarrow> (\<exists>h\<in>set hs. header_named ''Host'' h))"

lemma views_bex:
  assumes "map header_view phs = map (\<lambda>h. (Some (fst h), snd h)) hs"
  shows "(\<exists>h\<in>set phs. named n h \<and> P (ph_value h)) \<longleftrightarrow> (\<exists>h\<in>set hs. header_named n h \<and> P (snd h))"
    and "(\<forall>h\<in>set phs. named n h \<longrightarrow> P (ph_value h)) \<longleftrightarrow> (\<forall>h\<in>set hs. header_named n h \<longrightarrow> P (snd h))"
    and "length (filter (named n) phs) = length (filter (header_named n) hs)"
    and "\<forall>h\<in>set phs. ph_name h \<noteq> None"
proof -
  have "list_all2 (\<lambda>p h. header_view p = (Some (fst h), snd h)) phs hs"
    using assms by (simp add: list_all2_conv_all_nth list_eq_iff_nth_eq)
  then show "(\<exists>h\<in>set phs. named n h \<and> P (ph_value h)) \<longleftrightarrow> (\<exists>h\<in>set hs. header_named n h \<and> P (snd h))"
    and "(\<forall>h\<in>set phs. named n h \<longrightarrow> P (ph_value h)) \<longleftrightarrow> (\<forall>h\<in>set hs. header_named n h \<longrightarrow> P (snd h))"
    and "length (filter (named n) phs) = length (filter (header_named n) hs)"
    and "\<forall>h\<in>set phs. ph_name h \<noteq> None"
    by (induction rule: list_all2_induct) (auto simp: header_view_def named_def)
qed

lemma accepts_unambiguous:
  assumes "map header_view (pr_headers pr) = map (\<lambda>h. (Some (fst h), snd h)) hs"
  shows "http1_accepts pr \<longleftrightarrow> unambiguous (pr_minor pr) hs"
  using views_bex(4) [OF assms]
  by (auto simp: http1_accepts_def unambiguous_def scan_accepts_def views_bex(2,3) [OF assms]
      views_bex(1) [OF assms, where P = "\<lambda>_. True", simplified])

lemma content_length_of_view:
  assumes "map header_view phs = map (\<lambda>h. (Some (fst h), snd h)) hs"
  shows "content_length_of phs =
    (case filter (header_named ''Content-Length'') hs of [] \<Rightarrow> 0 | h # _ \<Rightarrow> of_nat (dec_value (snd h)))"
proof -
  have "list_all2 (\<lambda>p h. header_view p = (Some (fst h), snd h)) phs hs"
    using assms by (simp add: list_all2_conv_all_nth list_eq_iff_nth_eq)
  then show ?thesis
    unfolding content_length_of_def parse_content_length_value
    by (induction rule: list_all2_induct) (auto simp: header_view_def named_def)
qed

end
