(* ===== verification/Http1_Wire.thy ===== *)
theory Http1_Wire
  imports Http1
begin

text \<open>
  The HTTP/1.1 wire format: printed requests are parsed back or rejected for exactly the stated
  ambiguities, and serialized responses are parsed back.
\<close>

subsection \<open>Serialized responses\<close>

definition wire_headers :: "ioh_response \<Rightarrow> (string \<times> string) list" where
  "wire_headers r = map (\<lambda>h. (h_name h, h_value h)) (rs_headers r) @
     (if rs_body r \<noteq> [] \<and> \<not> rs_chunked r then [(''Content-Length'', dec_digits (length (rs_body r)))] else [])"

definition wire_text :: "ioh_response \<Rightarrow> string" where
  "wire_text r = status_line r @ concat (map header_line (rs_headers r)) @
     (if rs_body r \<noteq> [] \<and> \<not> rs_chunked r then content_length_line r else []) @ [cr, lf] @ rs_body r"

lemma put_headers_eq:
  "length out < cap \<Longrightarrow> put_headers cap out hs =
     (if length out + length (concat (map header_line hs)) < cap then Inr (out @ concat (map header_line hs)) else Inl ENOSPC)"
proof (induction hs arbitrary: out)
  case (Cons h hs)
  then show ?case by (auto simp: put_text_def)
qed simp

lemma serialize_exact:
  "ioh_http1_serialize_response r n =
     (if n = 0 then Inl EINVAL else if length (wire_text r) \<le> n then Inr (wire_text r) else Inl ENOSPC)"
proof (cases "n = 0 \<or> n \<le> length (status_line r)")
  case True
  then show ?thesis by (auto simp: ioh_http1_serialize_response_def put_text_def wire_text_def)
next
  case False
  let ?hs = "concat (map header_line (rs_headers r))"
  have hs: "put_headers n (status_line r) (rs_headers r) =
      (if length (status_line r) + length ?hs < n then Inr (status_line r @ ?hs) else Inl ENOSPC)"
    using False by (intro put_headers_eq) simp
  have "put_text n [] (status_line r) = Inr (status_line r)" using False by (simp add: put_text_def)
  then show ?thesis
    using False by (auto simp: ioh_http1_serialize_response_def hs put_text_def wire_text_def Let_def)
qed

lemma dec_digits_3:
  assumes "100 \<le> n" "n < 1000"
  shows "dec_digits n = [char_of (48 + n div 100), char_of (48 + n div 10 mod 10), char_of (48 + n mod 10)]"
proof -
  have "n div 10 div 10 = n div 100" by (simp add: div_mult2_eq [symmetric])
  moreover have "n div 100 < 10" using assms by simp
  ultimately show ?thesis
    using assms by (simp add: dec_digits.simps [of n] dec_digits.simps [of "n div 10"] dec_digits.simps [of "n div 100"])
qed

lemma parse_int_3_digits:
  assumes "100 \<le> n" "n < 1000"
  shows "parse_int_3 (dec_digits n @ s) = Done n s"
proof -
  have "n div 100 < 10" using assms by simp
  moreover have "100 * (n div 100) + 10 * (n div 10 mod 10) + n mod 10 = n"
    using mod_mult2_eq [of n 10 10] div_mult_mod_eq [of n 100] by simp
  moreover have "\<not> 9 < n mod 10" "\<not> 9 < n div 10 mod 10"
    using mod_less_divisor [of 10 n] mod_less_divisor [of 10 "n div 10"] by linarith+
  ultimately show ?thesis
    using assms by (simp add: parse_int_3_def dec_digits_3)
qed

lemma status_texts_clean:
  "list_all (\<lambda>(_, t). t \<noteq> [] \<and> hd t \<noteq> CHR '' '' \<and> list_all (\<lambda>c. \<not> is_ctl c) t) status_texts"
  by (simp add: status_texts_def is_ctl_def)

lemma status_text_clean:
  "ioh_status_text st \<noteq> [] \<and> hd (ioh_status_text st) \<noteq> CHR '' '' \<and> list_all (\<lambda>c. \<not> is_ctl c) (ioh_status_text st)"
proof (cases "map_of status_texts st")
  case None
  then show ?thesis by (simp add: ioh_status_text_def is_ctl_def)
next
  case (Some t)
  then have "(st, t) \<in> set status_texts" by (rule map_of_SomeD)
  then show ?thesis using status_texts_clean Some by (auto simp: list_all_iff ioh_status_text_def)
qed

lemma header_line_print:
  assumes "valid_header (h_name h, h_value h)"
  shows "header_line h = print_header (h_name h, h_value h)"
proof -
  have "\<not> token_char_map nul" "is_ctl nul" by (simp_all add: token_char_map_def is_ctl_def)
  then have "nul \<notin> set (h_name h)" "nul \<notin> set (h_value h)"
    using assms by (auto simp: valid_header_def list_all_iff)
  then show ?thesis by (simp add: header_line_def print_header_def)
qed

lemma digit_char_clean:
  assumes "n < 10"
  shows "\<not> is_ctl (char_of (48 + n :: nat))" and "\<not> is_blank (char_of (48 + n))"
proof -
  have b: "byte_val (char_of (48 + n) :: char) = 48 + n" using assms by simp
  have blank: "byte_val CHR '' '' = (32 :: nat)" "byte_val tab = (9 :: nat)" by simp_all
  show "\<not> is_blank (char_of (48 + n))"
  proof
    assume "is_blank (char_of (48 + n))"
    then have "byte_val (char_of (48 + n) :: char) \<in> {32, 9 :: nat}" using blank by (elim disjE) simp_all
    then show False unfolding b by simp
  qed
  show "\<not> is_ctl (char_of (48 + n :: nat))" using assms b by (simp only: is_ctl_def) simp
qed

lemma dec_digits_clean: "list_all (\<lambda>c. \<not> is_ctl c \<and> \<not> is_blank c) (dec_digits n) \<and> dec_digits n \<noteq> []"
proof (induction n rule: dec_digits.induct)
  case (1 n)
  show ?case
  proof (cases "n < 10")
    case True
    then show ?thesis using digit_char_clean [OF True] by (simp add: dec_digits.simps [of n])
  next
    case False
    have "n mod 10 < 10" by simp
    with digit_char_clean [OF this] "1.IH" [OF False] False show ?thesis by (simp add: dec_digits.simps [of n])
  qed
qed

lemma valid_content_length_header: "valid_header (''Content-Length'', dec_digits n)"
proof -
  have "list_all token_char_map ''Content-Length''" by (simp add: token_char_map_def token_rows_def)
  moreover have "hd (dec_digits n) \<in> set (dec_digits n)" "last (dec_digits n) \<in> set (dec_digits n)"
    using dec_digits_clean [of n] by simp_all
  ultimately show ?thesis
    using dec_digits_clean [of n] by (auto simp: valid_header_def list_all_iff)
qed

lemma wire_text_print:
  assumes "list_all (\<lambda>h. valid_header (h_name h, h_value h)) (rs_headers r)"
  shows "wire_text r = status_line r @ print_headers (wire_headers r) @ rs_body r"
    and "list_all valid_header (wire_headers r)"
proof -
  have "map header_line (rs_headers r) = map (\<lambda>h. print_header (h_name h, h_value h)) (rs_headers r)"
    using assms by (auto simp: list_all_iff header_line_print)
  moreover have "content_length_line r = print_header (''Content-Length'', dec_digits (length (rs_body r)))"
    by (simp add: content_length_line_def print_header_def)
  ultimately show "wire_text r = status_line r @ print_headers (wire_headers r) @ rs_body r"
    by (simp add: wire_text_def print_headers_def wire_headers_def comp_def cong: map_cong)
  show "list_all valid_header (wire_headers r)"
    using assms valid_content_length_header by (auto simp: wire_headers_def list_all_iff)
qed

lemma parse_response_wire:
  assumes "list_all (\<lambda>h. valid_header (h_name h, h_value h)) (rs_headers r)" and "length (wire_headers r) \<le> m"
    and "100 \<le> unat (rs_status r)" "unat (rs_status r) < 1000"
  shows "\<exists>phs. parse_response sse m (wire_text r) =
      Done \<lparr>ps_minor = 1, ps_status = unat (rs_status r), ps_msg = ioh_status_text (rs_status r), ps_headers = phs\<rparr> (rs_body r) \<and>
    map header_view phs = map (\<lambda>h. (Some (fst h), snd h)) (wire_headers r)"
proof -
  let ?txt = "ioh_status_text (rs_status r)" and ?n = "unat (rs_status r)"
  define tail where "tail = print_headers (wire_headers r) @ rs_body r"
  note wire = wire_text_print [OF assms(1)]
  obtain phs where hs: "parse_headers sse m tail = Done phs (rs_body r)"
    "map header_view phs = map (\<lambda>h. (Some (fst h), snd h)) (wire_headers r)"
    using headers_loop_print [OF wire(2) assms(2), of sse "[]" "rs_body r"] by (auto simp: parse_headers_def tail_def)
  define digits where "digits = dec_digits ?n @ CHR '' '' # ?txt @ cr # lf # tail"
  have whole: "wire_text r = ''HTTP/1.1'' @ CHR '' '' # digits"
    by (simp add: wire(1) status_line_def digits_def tail_def)
  have version: "parse_http_version (''HTTP/1.1'' @ CHR '' '' # digits) = Done 1 (CHR '' '' # digits)"
    by (simp add: parse_http_version_def)
  obtain d ds where d: "dec_digits ?n = d # ds" "d \<noteq> CHR '' ''"
    using dec_digits_clean [of ?n] by (cases "dec_digits ?n") auto
  then have spaces: "skip_spaces (CHR '' '' # digits) = Done () digits" by (simp add: skip_spaces_def digits_def)
  have "\<not> length digits < 4" by (simp add: digits_def dec_digits_3 [OF assms(3,4)])
  moreover have int3: "parse_int_3 digits = Done ?n (CHR '' '' # ?txt @ cr # lf # tail)"
    unfolding digits_def by (rule parse_int_3_digits [OF assms(3,4)])
  note clean = status_text_clean [of "rs_status r"]
  have "split_at (\<lambda>c. \<not> is_ctl c) ((CHR '' '' # ?txt) @ cr # lf # tail) = Done (CHR '' '' # ?txt) (cr # lf # tail)"
    using clean by (intro split_at_stop) (simp_all add: is_ctl_def)
  then have eol: "get_token_to_eol sse (CHR '' '' # ?txt @ cr # lf # tail) = Done (CHR '' '' # ?txt) tail"
    by (simp add: scanner_eqs)
  have msg: "status_message (CHR '' '' # ?txt) = Some ?txt"
    using clean by (cases ?txt) (auto simp: status_message_def)
  ultimately show ?thesis
    unfolding whole parse_response_def version using hs spaces int3 eol msg by simp
qed

lemma http1_print_exact:
  assumes "mth \<noteq> []" "list_all token_char_map mth" "path \<noteq> []" "list_all path_char path"
    and "length path \<le> IOH_HTTP1_MAX_URI_SIZE" and "minor < 10"
    and "list_all valid_header hs" and "length hs \<le> IOH_HTTP1_MAX_HEADERS"
  shows "if unambiguous minor hs
    then \<exists>req. ioh_http1_parse_request sse (print_request mth path minor hs @ rest) after =
        Inr (length (print_request mth path minor hs), req) \<and>
      req_method req = ioh_method_parse mth \<and> (req_path req, req_query req) = split_target path \<and>
      req_version_major req = 1 \<and> req_version_minor req = minor \<and>
      map (\<lambda>h. (h_name h, h_value h)) (req_headers req) = hs \<and>
      req_content_length req = (case filter (header_named ''Content-Length'') hs of [] \<Rightarrow> 0 | h # _ \<Rightarrow> of_nat (dec_value (snd h)))
    else ioh_http1_parse_request sse (print_request mth path minor hs @ rest) after = Inl EINVAL"
proof -
  let ?buf = "print_request mth path minor hs @ rest"
  obtain pr where pr: "phr_parse_request sse ?buf IOH_HTTP1_MAX_HEADERS 0 = Done pr rest"
    and view: "request_view pr = (mth, path, minor, map (\<lambda>h. (Some (fst h), snd h)) hs)"
    using parse_request_print [OF assms(1-4,6-8), of sse rest] by (auto simp: phr_parse_request_def)
  then have fields: "pr_method pr = mth" "pr_path pr = path" "pr_minor pr = minor"
    and hs: "map header_view (pr_headers pr) = map (\<lambda>h. (Some (fst h), snd h)) hs" by (auto simp: request_view_def)
  have len: "length (pr_headers pr) = length hs" using arg_cong [OF hs, of length] by simp
  have orig: "map (\<lambda>h. (h_name h, h_value h)) (map (req_header_of after) (pr_headers pr)) = hs"
  proof (rule nth_equalityI)
    fix i
    assume i: "i < length (map (\<lambda>h. (h_name h, h_value h)) (map (req_header_of after) (pr_headers pr)))"
    then have "header_view (pr_headers pr ! i) = (Some (fst (hs ! i)), snd (hs ! i))"
      using arg_cong [OF hs, of "\<lambda>xs. xs ! i"] len by simp
    moreover have "ph_value_len (pr_headers pr ! i) \<le> length (ph_mem (pr_headers pr ! i))"
      using parsed_headers_fit [OF pr] i by simp
    ultimately show "map (\<lambda>h. (h_name h, h_value h)) (map (req_header_of after) (pr_headers pr)) ! i = hs ! i"
      using i by (simp add: header_view_def req_header_of_def)
  qed (simp add: len)
  have ne: "?buf \<noteq> []" using assms(1) by (simp add: print_request_def)
  have le: "length (pr_path pr) \<le> IOH_HTTP1_MAX_URI_SIZE" "length (pr_headers pr) \<le> IOH_HTTP1_MAX_HEADERS"
    using assms(5,8) len fields by simp_all
  note exact = http1_parse_exact [OF pr le ne, of after, unfolded accepts_unambiguous [OF hs] fields content_length_of_view [OF hs]]
  show ?thesis
  proof (cases "unambiguous minor hs")
    case True
    then obtain req where req: "ioh_http1_parse_request sse ?buf after = Inr (length ?buf - length rest, req)"
      "req_method req = ioh_method_parse mth" "(req_path req, req_query req) = split_target path"
      "req_version_major req = 1" "req_version_minor req = minor"
      "req_headers req = map (req_header_of after) (pr_headers pr)"
      "req_content_length req = (case filter (header_named ''Content-Length'') hs of [] \<Rightarrow> 0 | h # _ \<Rightarrow> of_nat (dec_value (snd h)))"
      using exact by auto
    have "length ?buf - length rest = length (print_request mth path minor hs)" by simp
    with req(1) have "ioh_http1_parse_request sse ?buf after = Inr (length (print_request mth path minor hs), req)" by metis
    moreover have "map (\<lambda>h. (h_name h, h_value h)) (req_headers req) = hs" unfolding req(6) by (rule orig)
    ultimately show ?thesis using True req(2-5,7) by auto
  next
    case False
    then show ?thesis using exact by simp
  qed
qed

text \<open>A request for the witnesses.\<close>

definition example_headers :: "(string \<times> string) list" where
  "example_headers = [(''Host'', ''a''), (''Content-Length'', ''3'')]"

lemma example_request_facts:
  "list_all token_char_map ''POST''" "list_all path_char ''/x?q=1''" "list_all valid_header example_headers"
  "unambiguous 1 example_headers" "length example_headers \<le> IOH_HTTP1_MAX_HEADERS" "length ''/x?q=1'' \<le> IOH_HTTP1_MAX_URI_SIZE"
proof -
  show "list_all token_char_map ''POST''" "list_all path_char ''/x?q=1''" "list_all valid_header example_headers"
    "unambiguous 1 example_headers" by code_simp+
  show "length example_headers \<le> IOH_HTTP1_MAX_HEADERS" "length ''/x?q=1'' \<le> IOH_HTTP1_MAX_URI_SIZE"
    by (simp_all add: example_headers_def IOH_HTTP1_MAX_HEADERS_def IOH_HTTP1_MAX_URI_SIZE_def)
qed

lemma example_request_parses:
  "\<exists>n req. ioh_http1_parse_request False (print_request ''POST'' ''/x?q=1'' 1 example_headers) [] = Inr (n, req) \<and>
     req_content_length req = 3 \<and> map (\<lambda>h. (h_name h, h_value h)) (req_headers req) = example_headers"
proof -
  have cl: "filter (header_named ''Content-Length'') example_headers = [(''Content-Length'', ''3'')]" by code_simp
  have "dec_value ''3'' = 3" by code_simp
  then show ?thesis
    using http1_print_exact [OF _ example_request_facts(1) _ example_request_facts(2,6) _ example_request_facts(3,5), of 1 False "[]" "[]"]
      example_request_facts(4) by (auto simp: cl)
qed

subsection \<open>Properties\<close>



text \<open>C9: Printed requests are parsed back, and rejected for exactly the ambiguities listed.  A request with a token
  method, a target, a version 1.x and well-formed headers, followed by any bytes, gives its method, path, query, version and
  headers and the length of its text, if its headers are unambiguous, and the error EINVAL otherwise.\<close>

theorem http1_request_round_trip:
  assumes "mth \<noteq> []" "list_all token_char_map mth" "path \<noteq> []" "list_all path_char path"
    and "length path \<le> IOH_HTTP1_MAX_URI_SIZE" and "minor < 10"
    and "list_all valid_header hs" and "length hs \<le> IOH_HTTP1_MAX_HEADERS"
  shows "if unambiguous minor hs
    then \<exists>req. ioh_http1_parse_request sse (print_request mth path minor hs @ rest) after =
        Inr (length (print_request mth path minor hs), req) \<and>
      req_method req = ioh_method_parse mth \<and> (req_path req, req_query req) = split_target path \<and>
      req_version_major req = 1 \<and> req_version_minor req = minor \<and>
      map (\<lambda>h. (h_name h, h_value h)) (req_headers req) = hs \<and>
      req_content_length req = (case filter (header_named ''Content-Length'') hs of [] \<Rightarrow> 0 | h # _ \<Rightarrow> of_nat (dec_value (snd h)))
    else ioh_http1_parse_request sse (print_request mth path minor hs @ rest) after = Inl EINVAL"
  using assms by (rule http1_print_exact)

theorem http1_request_round_trip_witness:
  "\<exists>req. ioh_http1_parse_request False (print_request ''POST'' ''/x?q=1'' 1 example_headers @ ''ab'') ''c'' =
     Inr (length (print_request ''POST'' ''/x?q=1'' 1 example_headers), req) \<and> req_method req = IOH_METHOD_POST"
proof -
  have "ioh_method_parse ''POST'' = IOH_METHOD_POST" by code_simp
  then show ?thesis
    using http1_request_round_trip [OF _ example_request_facts(1) _ example_request_facts(2,6) _ example_request_facts(3,5),
        of 1 False "''ab''" "''c''"] example_request_facts(4) by auto
qed

text \<open>The content length is taken modulo \<open>2 ^ 64\<close>: for a valid value the number stored in the request is the
  decimal value only if it fits, otherwise it has wrapped around.\<close>

theorem content_length_wraps:
  assumes "is_valid_content_length v"
  shows "unat (parse_content_length v) = dec_value v mod 2 ^ 64"
  by (simp add: parse_content_length_value unat_of_nat take_bit_eq_mod)

theorem content_length_wraps_witness: "unat (parse_content_length ''18446744073709551619'') = 3"
proof -
  have "is_valid_content_length ''18446744073709551619''" by code_simp
  moreover have "dec_value ''18446744073709551619'' = 18446744073709551619"
    by (simp add: dec_value_def digit_val_def)
  ultimately show ?thesis using content_length_wraps [of "''18446744073709551619''"] by simp
qed

text \<open>C13: The serializer writes exactly the response text when it fits the buffer and reports ENOSPC otherwise, and the text
  is parsed back: version 1.1, the status and its reason phrase, the headers in order with Content-Length added
  exactly when there is a body that is not chunked, and the body as the bytes left after the head.\<close>

theorem response_round_trip:
  assumes "list_all (\<lambda>h. valid_header (h_name h, h_value h)) (rs_headers r)" and "length (rs_headers r) < m"
    and "100 \<le> unat (rs_status r)" "unat (rs_status r) < 1000" and "n \<noteq> 0"
  shows "ioh_http1_serialize_response r n =
      (if length (wire_text r) \<le> n then Inr (wire_text r) else Inl ENOSPC) \<and>
    (\<exists>phs. phr_parse_response sse (wire_text r) m 0 =
       Done \<lparr>ps_minor = 1, ps_status = unat (rs_status r), ps_msg = ioh_status_text (rs_status r), ps_headers = phs\<rparr> (rs_body r) \<and>
     map header_view phs = map (\<lambda>h. (Some (fst h), snd h)) (wire_headers r))"
proof -
  have "length (wire_headers r) \<le> m" using assms(2) by (simp add: wire_headers_def)
  from parse_response_wire [OF assms(1) this assms(3,4), of sse] assms(5) show ?thesis
    by (simp add: serialize_exact phr_parse_response_def)
qed

theorem response_round_trip_witness:
  "ioh_http1_serialize_response (ioh_response_init\<lparr>rs_body := ''hi''\<rparr>) 100 = Inr (wire_text (ioh_response_init\<lparr>rs_body := ''hi''\<rparr>))"
proof -
  have "length (wire_text (ioh_response_init\<lparr>rs_body := ''hi''\<rparr>)) \<le> 100" by code_simp
  then show ?thesis
    using response_round_trip [of "ioh_response_init\<lparr>rs_body := ''hi''\<rparr>" 1 100 False] by (simp add: ioh_response_init_def)
qed

end
