(* ===== verification/Slot_Pool.thy ===== *)
theory Slot_Pool
  imports Iohttp_Prelude
begin

text \<open>
  The interface of a fixed pool of numbered slots: the connection pool, the timer table of the event
  loop and the registered file table of the buffer pool all hand out the first free slot and take
  slots back.  The client is any owner that acquires and releases slots in some order; no slot is
  ever owned twice and the pool refuses only when every slot is owned.
\<close>

datatype slot_op = Acquire | Release nat

text \<open>
  The owner keeps the list of slots it holds; \<open>Release k\<close> gives back the \<open>k\<close>-th of them.
\<close>

fun slot_run ::
  "('s \<Rightarrow> nat option \<times> 's) \<Rightarrow> ('s \<Rightarrow> nat \<Rightarrow> 's) \<Rightarrow> 's \<Rightarrow> nat list \<Rightarrow> slot_op list \<Rightarrow> 's \<times> nat list" where
  "slot_run acquire release s held [] = (s, held)"
| "slot_run acquire release s held (Acquire # ops) =
     (case acquire s of
        (Some i, s') \<Rightarrow> slot_run acquire release s' (i # held) ops
      | (None, s') \<Rightarrow> slot_run acquire release s' held ops)"
| "slot_run acquire release s held (Release k # ops) =
     (if k < length held then slot_run acquire release (release s (held ! k)) (take k held @ drop (Suc k) held) ops
      else slot_run acquire release s held ops)"

text \<open>The first index with a property: the search loops of the pools.\<close>

fun find_index :: "('a \<Rightarrow> bool) \<Rightarrow> 'a list \<Rightarrow> nat option" where
  "find_index P [] = None"
| "find_index P (x # xs) = (if P x then Some 0 else map_option Suc (find_index P xs))"

lemma find_index_SomeD:
  "find_index P xs = Some i \<Longrightarrow> i < length xs \<and> P (xs ! i) \<and> (\<forall>j<i. \<not> P (xs ! j))"
proof (induction xs arbitrary: i)
  case (Cons x xs)
  show ?case
  proof (cases "P x")
    case False
    then obtain k where "find_index P xs = Some k" "i = Suc k" using Cons.prems by auto
    with Cons.IH [of k] False show ?thesis by (auto simp: less_Suc_eq_0_disj)
  qed (use Cons.prems in auto)
qed simp

lemma find_index_None: "find_index P xs = None \<longleftrightarrow> (\<forall>x\<in>set xs. \<not> P x)"
  by (induction xs) auto

lemma find_index_eqI: "i < length xs \<Longrightarrow> P (xs ! i) \<Longrightarrow> (\<And>j. j < i \<Longrightarrow> \<not> P (xs ! j)) \<Longrightarrow> find_index P xs = Some i"
proof (induction xs arbitrary: i)
  case (Cons x xs)
  show ?case
  proof (cases i)
    case (Suc k)
    have "\<not> P x" using Cons.prems(3) [of 0] Suc by simp
    moreover have "find_index P xs = Some k"
      using Cons.IH [of k] Cons.prems(1,2) Cons.prems(3) [of "Suc _"] Suc by simp
    ultimately show ?thesis by (simp add: Suc)
  qed (use Cons.prems in simp)
qed simp

lemma drop_nth_take_set:
  "distinct xs \<Longrightarrow> k < length xs \<Longrightarrow> set (take k xs @ drop (Suc k) xs) = set xs - {xs ! k} \<and>
     distinct (take k xs @ drop (Suc k) xs)"
proof -
  assume d: "distinct xs" and k: "k < length xs"
  have xs: "xs = take k xs @ xs ! k # drop (Suc k) xs" using k by (rule id_take_nth_drop)
  from d xs have "distinct (take k xs @ xs ! k # drop (Suc k) xs)" by simp
  moreover have "set xs = set (take k xs @ xs ! k # drop (Suc k) xs)" using xs by simp
  ultimately show ?thesis by auto
qed

locale slot_pool =
  fixes acquire :: "'s \<Rightarrow> nat option \<times> 's"
    and release :: "'s \<Rightarrow> nat \<Rightarrow> 's"
    and live :: "'s \<Rightarrow> nat set"
    and capacity :: "'s \<Rightarrow> nat"
    and inv :: "'s \<Rightarrow> bool"
  assumes live_bounded: "inv s \<Longrightarrow> live s \<subseteq> {..<capacity s}"
    and acquire_inv: "inv s \<Longrightarrow> inv (snd (acquire s)) \<and> capacity (snd (acquire s)) = capacity s"
    and acquire_Some: "inv s \<Longrightarrow> fst (acquire s) = Some i \<Longrightarrow>
      i \<notin> live s \<and> live (snd (acquire s)) = insert i (live s)"
    and acquire_None: "inv s \<Longrightarrow> fst (acquire s) = None \<Longrightarrow>
      live s = {..<capacity s} \<and> live (snd (acquire s)) = live s"
    and release: "inv s \<Longrightarrow> i \<in> live s \<Longrightarrow>
      inv (release s i) \<and> live (release s i) = live s - {i} \<and> capacity (release s i) = capacity s"
begin

lemma run_exclusive:
  assumes "inv s" and "distinct held" and "set held = live s" and "slot_run acquire release s held ops = (s', held')"
  shows "inv s' \<and> distinct held' \<and> set held' = live s' \<and> length held' \<le> capacity s \<and> capacity s' = capacity s"
  using assms
proof (induction ops arbitrary: s held)
  case Nil
  then have "length held = card (live s)" by (metis distinct_card)
  also have "\<dots> \<le> capacity s"
    using live_bounded [OF Nil.prems(1)] card_mono [of "{..<capacity s}" "live s"] by simp
  finally show ?case using Nil by simp
next
  case (Cons op ops)
  show ?case
  proof (cases op)
    case Acquire
    obtain r s1 where r: "acquire s = (r, s1)" by (rule prod.exhaust)
    note inv1 = acquire_inv [OF Cons.prems(1), unfolded r snd_conv]
    show ?thesis
    proof (cases r)
      case None
      then have "live s1 = live s" using acquire_None [OF Cons.prems(1)] by (simp add: r)
      then show ?thesis
        using Cons.IH [of s1 held] Cons.prems inv1 None by (simp add: Acquire r)
    next
      case (Some i)
      then have "i \<notin> live s" "live s1 = insert i (live s)" using acquire_Some [OF Cons.prems(1)] by (simp_all add: r)
      then show ?thesis
        using Cons.IH [of s1 "i # held"] Cons.prems inv1 Some by (simp add: Acquire r)
    qed
  next
    case (Release k)
    show ?thesis
    proof (cases "k < length held")
      case True
      note d = drop_nth_take_set [OF Cons.prems(2) True]
      have "held ! k \<in> live s" using True Cons.prems(3) nth_mem by blast
      note rel = release [OF Cons.prems(1) this]
      then show ?thesis
        using Cons.IH [of "release s (held ! k)" "take k held @ drop (Suc k) held"] Cons.prems d True
        by (simp add: Release del: set_append distinct_append)
    next
      case False
      then show ?thesis using Cons.IH [of s held] Cons.prems by (simp add: Release)
    qed
  qed
qed

end

end
