(* ===== verification/Ring_Loop.thy ===== *)
theory Ring_Loop
  imports Slot_Pool
begin

text \<open>
  The ring wrapper of \<^verbatim>\<open>src/core/ioh_loop.c\<close>: the encoding of completion tags, the configuration,
  the timer table, the provided buffer ring and one round of the event loop.

  The ring itself (liburing and the kernel) is a parameter: whether a submission entry is available, the
  results of submitting and waiting, and the completions delivered are arguments.  The entries the code
  fills in are collected in order in \<open>lp_sq\<close>.  Callbacks are opaque values \<open>'cb\<close>; what calling one does
  to the application's world \<open>'w\<close> and to the loop is an argument of the round.  Addresses of buffers are
  offsets from the start of the allocated area.
\<close>

unbundle bit_operations_syntax

subsection \<open>Completion tags\<close>

datatype ioh_op_type =
    IOH_OP_NOP | IOH_OP_ACCEPT | IOH_OP_RECV | IOH_OP_SEND | IOH_OP_TIMEOUT | IOH_OP_FILE | IOH_OP_TLS
  | IOH_OP_SIGNAL | IOH_OP_CLOSE | IOH_OP_SEND_ZC | IOH_OP_CANCEL | IOH_OP_RECVMSG | IOH_OP_SENDMSG

fun op_val :: "ioh_op_type \<Rightarrow> u8" where
  "op_val IOH_OP_NOP = 0"
| "op_val IOH_OP_ACCEPT = 1"
| "op_val IOH_OP_RECV = 2"
| "op_val IOH_OP_SEND = 3"
| "op_val IOH_OP_TIMEOUT = 4"
| "op_val IOH_OP_FILE = 5"
| "op_val IOH_OP_TLS = 6"
| "op_val IOH_OP_SIGNAL = 7"
| "op_val IOH_OP_CLOSE = 8"
| "op_val IOH_OP_SEND_ZC = 9"
| "op_val IOH_OP_CANCEL = 10"
| "op_val IOH_OP_RECVMSG = 11"
| "op_val IOH_OP_SENDMSG = 12"

definition IOH_OP_BITS :: nat where "IOH_OP_BITS = 8"

definition IOH_ENCODE_USERDATA :: "u64 \<Rightarrow> ioh_op_type \<Rightarrow> u64" where
  "IOH_ENCODE_USERDATA i op = push_bit IOH_OP_BITS i OR ucast (op_val op)"

definition IOH_DECODE_OP :: "u64 \<Rightarrow> u8" where
  "IOH_DECODE_OP ud = ucast (ud AND 0xFF)"

definition IOH_DECODE_ID :: "u64 \<Rightarrow> u64" where
  "IOH_DECODE_ID ud = drop_bit IOH_OP_BITS ud"

subsection \<open>Configuration\<close>

record ioh_loop_config =
  lc_queue_depth :: u32
  lc_buf_ring_size :: u32
  lc_buf_size :: u32
  lc_defer_taskrun :: bool

definition is_power_of_2 :: "u32 \<Rightarrow> bool" where
  "is_power_of_2 v \<longleftrightarrow> v \<noteq> 0 \<and> v AND (v - 1) = 0"

definition ioh_loop_config_init :: ioh_loop_config where
  "ioh_loop_config_init =
     \<lparr>lc_queue_depth = 256, lc_buf_ring_size = 128, lc_buf_size = 4096, lc_defer_taskrun = True\<rparr>"

definition ioh_loop_config_validate :: "ioh_loop_config \<Rightarrow> errno + unit" where
  "ioh_loop_config_validate cfg =
     (if lc_queue_depth cfg = 0 then Inl EINVAL
      else if \<not> is_power_of_2 (lc_queue_depth cfg) then Inl EINVAL
      else if lc_buf_ring_size cfg \<noteq> 0 \<and> \<not> is_power_of_2 (lc_buf_ring_size cfg) then Inl EINVAL
      else if lc_buf_size cfg = 0 then Inl EINVAL
      else Inr ())"

subsection \<open>The loop\<close>

definition IOH_MAX_TIMERS :: nat where "IOH_MAX_TIMERS = 64"

record ('cb, 'd) loop_timer =
  tm_sec :: nat
  tm_nsec :: nat
  tm_callback :: "('cb \<times> 'd) option"
  tm_active :: bool

record loop_buf_ring =
  br_count :: u32
  br_size :: u32
  br_bgid :: u16
  br_entries :: "(u64 \<times> u32 \<times> u16) list"

datatype loop_sqe = Sqe_Nop | Sqe_Timeout nat | Sqe_Cancel u64

record ('cb, 'd) ioh_loop =
  lp_config :: ioh_loop_config
  lp_running :: bool
  lp_stopped :: bool
  lp_buf_ring :: "loop_buf_ring option"
  lp_timers :: "('cb, 'd) loop_timer list"
  lp_timer_count :: u32
  lp_sq :: "(loop_sqe \<times> u64) list"

definition no_timer :: "('cb, 'd) loop_timer" where
  "no_timer = \<lparr>tm_sec = 0, tm_nsec = 0, tm_callback = None, tm_active = False\<rparr>"

text \<open>The argument is the result of \<^verbatim>\<open>io_uring_queue_init_params\<close>.\<close>

definition ioh_loop_create :: "int \<Rightarrow> ioh_loop_config \<Rightarrow> ('cb, 'd) ioh_loop option" where
  "ioh_loop_create init_ret cfg =
     (case ioh_loop_config_validate cfg of
        Inl _ \<Rightarrow> None
      | Inr _ \<Rightarrow>
          if init_ret < 0 then None
          else Some \<lparr>lp_config = cfg, lp_running = False, lp_stopped = False, lp_buf_ring = None,
                     lp_timers = replicate IOH_MAX_TIMERS no_timer, lp_timer_count = 0, lp_sq = []\<rparr>)"

definition put_sqe :: "('cb, 'd) ioh_loop \<Rightarrow> loop_sqe \<Rightarrow> u64 \<Rightarrow> ('cb, 'd) ioh_loop" where
  "put_sqe loop sqe ud = loop\<lparr>lp_sq := lp_sq loop @ [(sqe, ud)]\<rparr>"

text \<open>A kernel call returns a non-negative number or a negative error code.\<close>

definition ioh_loop_submit_nop :: "bool \<Rightarrow> int \<Rightarrow> ('cb, 'd) ioh_loop \<Rightarrow> (errno + int) \<times> ('cb, 'd) ioh_loop" where
  "ioh_loop_submit_nop sqe_ok submit_ret loop =
     (if \<not> sqe_ok then (Inl ENOSPC, loop)
      else
        (let loop = put_sqe loop Sqe_Nop (IOH_ENCODE_USERDATA 0 IOH_OP_NOP)
         in if submit_ret < 0 then (Inr submit_ret, loop) else (Inr 0, loop\<lparr>lp_sq := []\<rparr>)))"

definition ioh_loop_stop :: "('cb, 'd) ioh_loop \<Rightarrow> ('cb, 'd) ioh_loop" where
  "ioh_loop_stop loop = loop\<lparr>lp_stopped := True\<rparr>"

subsection \<open>Timers\<close>

definition ms_sec :: "u32 \<Rightarrow> nat" where "ms_sec ms = unat ms div 1000"
definition ms_nsec :: "u32 \<Rightarrow> nat" where "ms_nsec ms = (unat ms mod 1000) * 1000000"

definition ioh_loop_add_timer ::
  "bool \<Rightarrow> ('cb, 'd) ioh_loop \<Rightarrow> u32 \<Rightarrow> 'cb \<Rightarrow> 'd \<Rightarrow> (nat, ('cb, 'd) ioh_loop) outcome" where
  "ioh_loop_add_timer sqe_ok loop ms cb data =
     (case find_index (\<lambda>t. \<not> tm_active t) (lp_timers loop) of
        None \<Rightarrow> (Inl ENOMEM, loop)
      | Some slot \<Rightarrow>
          (let t = \<lparr>tm_sec = ms_sec ms, tm_nsec = ms_nsec ms, tm_callback = Some (cb, data), tm_active = True\<rparr>;
               loop = loop\<lparr>lp_timers := (lp_timers loop)[slot := t], lp_timer_count := lp_timer_count loop + 1\<rparr>
           in if \<not> sqe_ok
              then (Inl ENOSPC, loop\<lparr>lp_timers := (lp_timers loop)[slot := t\<lparr>tm_active := False\<rparr>],
                                     lp_timer_count := lp_timer_count loop - 1\<rparr>)
              else (Inr slot, put_sqe loop (Sqe_Timeout slot) (IOH_ENCODE_USERDATA (of_nat slot) IOH_OP_TIMEOUT))))"

definition ioh_loop_cancel_timer :: "bool \<Rightarrow> ('cb, 'd) ioh_loop \<Rightarrow> int \<Rightarrow> (unit, ('cb, 'd) ioh_loop) outcome" where
  "ioh_loop_cancel_timer sqe_ok loop timer_id =
     (if timer_id < 0 \<or> nat timer_id \<ge> IOH_MAX_TIMERS then (Inl EINVAL, loop)
      else
        (let i = nat timer_id
         in if \<not> tm_active (lp_timers loop ! i) then (Inl ENOENT, loop)
            else if \<not> sqe_ok then (Inl ENOSPC, loop)
            else
              (let loop = put_sqe loop (Sqe_Cancel (IOH_ENCODE_USERDATA (of_nat i) IOH_OP_TIMEOUT))
                            (IOH_ENCODE_USERDATA (of_nat i) IOH_OP_CANCEL)
               in (Inr (), loop\<lparr>lp_timers := (lp_timers loop)[i := (lp_timers loop ! i)\<lparr>tm_active := False\<rparr>],
                                lp_timer_count := lp_timer_count loop - 1\<rparr>))))"

subsection \<open>A round of the loop\<close>

text \<open>The result of a completion: \<^verbatim>\<open>-ETIME\<close> and \<^verbatim>\<open>-ECANCELED\<close> are -62 and -125 on Linux.\<close>

record loop_cqe =
  cqe_ud :: u64
  cqe_res :: int

definition NEG_ETIME :: int where "NEG_ETIME = -62"
definition NEG_ECANCELED :: int where "NEG_ECANCELED = -125"
definition NEG_EINTR :: int where "NEG_EINTR = -4"

definition handle_cqe ::
  "('cb \<Rightarrow> 'd \<Rightarrow> 'w \<times> ('cb, 'd) ioh_loop \<Rightarrow> 'w \<times> ('cb, 'd) ioh_loop) \<Rightarrow> loop_cqe \<Rightarrow>
   'w \<times> ('cb, 'd) ioh_loop \<Rightarrow> 'w \<times> ('cb, 'd) ioh_loop" where
  "handle_cqe call cqe s =
     (if IOH_DECODE_OP (cqe_ud cqe) = op_val IOH_OP_TIMEOUT then
        (let timer_id = unat (IOH_DECODE_ID (cqe_ud cqe))
         in if timer_id < IOH_MAX_TIMERS \<and> tm_active (lp_timers (snd s) ! timer_id) then
              (let s = (if cqe_res cqe = NEG_ETIME \<or> cqe_res cqe = 0
                        then (case tm_callback (lp_timers (snd s) ! timer_id) of
                                None \<Rightarrow> s
                              | Some (cb, data) \<Rightarrow> call cb data s)
                        else s);
                   loop = snd s
               in (fst s, loop\<lparr>lp_timers := (lp_timers loop)[timer_id := (lp_timers loop ! timer_id)\<lparr>tm_active := False\<rparr>]\<rparr>))
            else s)
      else s)"

text \<open>
  The arguments are the results of submitting and waiting and the completions then in the queue.  The
  submission queue is empty after a successful submit.
\<close>

definition ioh_loop_run_once ::
  "('cb \<Rightarrow> 'd \<Rightarrow> 'w \<times> ('cb, 'd) ioh_loop \<Rightarrow> 'w \<times> ('cb, 'd) ioh_loop) \<Rightarrow> int \<Rightarrow> int \<Rightarrow> loop_cqe list \<Rightarrow>
   'w \<times> ('cb, 'd) ioh_loop \<Rightarrow> int \<times> 'w \<times> ('cb, 'd) ioh_loop" where
  "ioh_loop_run_once call submit_ret wait_ret cqes s =
     (let (w, loop) = s
      in if lp_stopped loop then (0, w, loop)
         else if submit_ret < 0 then (submit_ret, w, loop\<lparr>lp_running := False\<rparr>)
         else if wait_ret < 0 then (wait_ret, w, loop\<lparr>lp_running := False, lp_sq := []\<rparr>)
         else
           (let (w, loop) = fold (handle_cqe call) cqes (w, loop\<lparr>lp_running := True, lp_sq := []\<rparr>)
            in (int (length cqes), w, loop\<lparr>lp_running := False\<rparr>)))"

subsection \<open>The provided buffer ring\<close>

text \<open>
  \<^verbatim>\<open>io_uring_buf_ring_add\<close> of one buffer: offset, length and the buffer id truncated to 16 bits.  The
  first two arguments of the setup are the outcomes of the allocation and of the registration.
\<close>

definition buf_offset :: "u32 \<Rightarrow> u32 \<Rightarrow> u64" where
  "buf_offset i buf_size = ucast i * ucast buf_size"

definition ring_entry :: "u32 \<Rightarrow> nat \<Rightarrow> u64 \<times> u32 \<times> u16" where
  "ring_entry buf_size i = (buf_offset (of_nat i) buf_size, buf_size, of_nat i)"

definition ioh_loop_setup_buf_ring ::
  "bool \<Rightarrow> errno option \<Rightarrow> ('cb, 'd) ioh_loop \<Rightarrow> u16 \<Rightarrow> u32 \<Rightarrow> u32 \<Rightarrow> (unit, ('cb, 'd) ioh_loop) outcome" where
  "ioh_loop_setup_buf_ring calloc_ok setup_err loop bgid buf_count buf_size =
     (if \<not> is_power_of_2 buf_count then (Inl EINVAL, loop)
      else if buf_size = 0 then (Inl EINVAL, loop)
      else if \<not> calloc_ok then (Inl ENOMEM, loop)
      else case setup_err of
             Some err \<Rightarrow> (Inl err, loop)
           | None \<Rightarrow>
               (Inr (), loop\<lparr>lp_buf_ring := Some \<lparr>br_count = buf_count, br_size = buf_size, br_bgid = bgid,
                         br_entries = map (ring_entry buf_size) [0..<unat buf_count]\<rparr>\<rparr>))"

definition ioh_loop_return_buf ::
  "('cb, 'd) ioh_loop \<Rightarrow> u16 \<Rightarrow> u32 \<Rightarrow> u64 \<Rightarrow> u32 \<Rightarrow> ('cb, 'd) ioh_loop" where
  "ioh_loop_return_buf loop bgid buf_id buf buf_size =
     (case lp_buf_ring loop of
        None \<Rightarrow> loop
      | Some br \<Rightarrow>
          if bgid \<noteq> br_bgid br then loop
          else loop\<lparr>lp_buf_ring := Some (br\<lparr>br_entries := br_entries br @ [(buf, buf_size, ucast buf_id)]\<rparr>)\<rparr>)"

definition ioh_loop_get_buf :: "('cb, 'd) ioh_loop \<Rightarrow> u16 \<Rightarrow> u32 \<Rightarrow> u64 option" where
  "ioh_loop_get_buf loop bgid buf_id =
     (case lp_buf_ring loop of
        None \<Rightarrow> None
      | Some br \<Rightarrow>
          if bgid \<noteq> br_bgid br then None
          else if buf_id \<ge> br_count br then None
          else Some (buf_offset buf_id (br_size br)))"

text \<open>Registration of buffers and files hands the kernel's answer on; the arguments are the count and that answer.\<close>

definition registration :: "bool \<Rightarrow> nat \<Rightarrow> int \<Rightarrow> errno + int" where
  "registration table_null nr ret =
     (if table_null \<or> nr = 0 then Inl EINVAL else if ret < 0 then Inr ret else Inr 0)"

definition ioh_loop_register_buffers where "ioh_loop_register_buffers iovs_null nr ret = registration iovs_null nr ret"
definition ioh_loop_register_files where "ioh_loop_register_files fds_null nr ret = registration fds_null nr ret"

definition unregistration :: "int \<Rightarrow> int" where
  "unregistration ret = (if ret < 0 then ret else 0)"

definition ioh_loop_unregister_buffers where "ioh_loop_unregister_buffers ret = unregistration ret"
definition ioh_loop_unregister_files where "ioh_loop_unregister_files ret = unregistration ret"

subsection \<open>Lemmas\<close>

lemma op_val_inj [simp]: "op_val a = op_val b \<longleftrightarrow> a = b"
  by (cases a; cases b) simp_all

lemma op_val_small: "unat (op_val op) < 13"
  by (cases op) simp_all

text \<open>A tag carries its operation and, up to 56 bits, its identifier.\<close>

lemma decode_op_encode [simp]: "IOH_DECODE_OP (IOH_ENCODE_USERDATA i op) = op_val op"
proof -
  have "(0xFF :: u64) = mask 8" by (simp add: mask_eq_exp_minus_1)
  then have "IOH_DECODE_OP ud = ucast (take_bit 8 ud)" for ud
    unfolding IOH_DECODE_OP_def by (simp only: take_bit_eq_mask)
  then show ?thesis unfolding IOH_ENCODE_USERDATA_def IOH_OP_BITS_def
    by (auto intro!: bit_word_eqI simp: bit_simps)
qed

lemma decode_id_encode: "unat i < 2 ^ 56 \<Longrightarrow> IOH_DECODE_ID (IOH_ENCODE_USERDATA i op) = i"
proof -
  assume "unat i < 2 ^ 56"
  then have "take_bit 56 i = i" by (simp add: word_unat_eq_iff unsigned_take_bit_eq take_bit_nat_eq_self)
  then have hi: "bit i n \<Longrightarrow> n < 56" for n by (metis bit_take_bit_iff)
  have lo: "\<not> bit (op_val op) (n + 8)" for n by (auto dest: bit_imp_le_length)
  show ?thesis
    unfolding IOH_DECODE_ID_def IOH_ENCODE_USERDATA_def IOH_OP_BITS_def
    by (rule bit_word_eqI) (use hi lo in \<open>auto simp: bit_simps add.commute\<close>)
qed


subsection \<open>The timer table as a pool of slots\<close>

definition active_timers :: "('cb, 'd) ioh_loop \<Rightarrow> nat set" where
  "active_timers loop = {i. i < length (lp_timers loop) \<and> tm_active (lp_timers loop ! i)}"

definition timers_inv :: "('cb, 'd) ioh_loop \<Rightarrow> bool" where
  "timers_inv loop \<longleftrightarrow>
     length (lp_timers loop) = IOH_MAX_TIMERS \<and> (\<forall>t\<in>set (lp_timers loop). tm_active t \<longrightarrow> tm_callback t \<noteq> None)"

definition timer_acquire :: "u32 \<Rightarrow> 'cb \<Rightarrow> 'd \<Rightarrow> ('cb, 'd) ioh_loop \<Rightarrow> nat option \<times> ('cb, 'd) ioh_loop" where
  "timer_acquire ms cb d loop =
     (case ioh_loop_add_timer True loop ms cb d of (r, loop') \<Rightarrow> (case r of Inl _ \<Rightarrow> None | Inr i \<Rightarrow> Some i, loop'))"

definition timer_release :: "('cb, 'd) ioh_loop \<Rightarrow> nat \<Rightarrow> ('cb, 'd) ioh_loop" where
  "timer_release loop i = snd (ioh_loop_cancel_timer True loop (int i))"

lemma active_timers_update:
  "i < length (lp_timers loop) \<Longrightarrow>
     {j. j < length (lp_timers loop) \<and> tm_active ((lp_timers loop)[i := t] ! j)} =
     (if tm_active t then insert i (active_timers loop) else active_timers loop - {i})"
  by (auto simp: active_timers_def nth_list_update)

lemma timers_inv_update:
  "timers_inv loop \<Longrightarrow> tm_active t \<longrightarrow> tm_callback t \<noteq> None \<Longrightarrow> timers_inv (loop\<lparr>lp_timers := (lp_timers loop)[i := t]\<rparr>)"
  using set_update_subset_insert [of "lp_timers loop" i t] by (auto simp: timers_inv_def)

interpretation timer_slots: slot_pool "timer_acquire ms cb d" timer_release active_timers "\<lambda>_. IOH_MAX_TIMERS" timers_inv
proof
  fix s :: "('a, 'b) ioh_loop" and i
  assume inv: "timers_inv s"
  then have len: "length (lp_timers s) = IOH_MAX_TIMERS" by (simp add: timers_inv_def)
  show "active_timers s \<subseteq> {..<IOH_MAX_TIMERS}" by (auto simp: active_timers_def len)
  let ?t = "\<lparr>tm_sec = ms_sec ms, tm_nsec = ms_nsec ms, tm_callback = Some (cb, d), tm_active = True\<rparr>"
  have new: "timer_acquire ms cb d s = (Some j, put_sqe
      (s\<lparr>lp_timers := (lp_timers s)[j := ?t], lp_timer_count := lp_timer_count s + 1\<rparr>) (Sqe_Timeout j)
      (IOH_ENCODE_USERDATA (of_nat j) IOH_OP_TIMEOUT))"
    if "find_index (\<lambda>t. \<not> tm_active t) (lp_timers s) = Some j" for j
    using that by (simp add: timer_acquire_def ioh_loop_add_timer_def Let_def)
  have none: "timer_acquire ms cb d s = (None, s)"
    if "find_index (\<lambda>t. \<not> tm_active t) (lp_timers s) = None"
    using that by (simp add: timer_acquire_def ioh_loop_add_timer_def)
  note upd = timers_inv_update [OF inv, of ?t, simplified]
  show "timers_inv (snd (timer_acquire ms cb d s)) \<and> IOH_MAX_TIMERS = IOH_MAX_TIMERS"
  proof (cases "find_index (\<lambda>t. \<not> tm_active t) (lp_timers s)")
    case (Some j)
    show ?thesis unfolding new [OF Some] using upd [of j] by (simp add: put_sqe_def timers_inv_def)
  qed (simp add: none inv)
  show "i \<notin> active_timers s \<and> active_timers (snd (timer_acquire ms cb d s)) = insert i (active_timers s)"
    if "fst (timer_acquire ms cb d s) = Some i"
  proof (cases "find_index (\<lambda>t. \<not> tm_active t) (lp_timers s)")
    case (Some j)
    with that have [simp]: "j = i" by (simp add: new)
    note free = find_index_SomeD [OF Some]
    then show ?thesis using active_timers_update [of i s ?t]
      by (simp add: new [OF Some] put_sqe_def active_timers_def)
  qed (use that none in simp)
  show "active_timers s = {..<IOH_MAX_TIMERS} \<and> active_timers (snd (timer_acquire ms cb d s)) = active_timers s"
    if "fst (timer_acquire ms cb d s) = None"
  proof (cases "find_index (\<lambda>t. \<not> tm_active t) (lp_timers s)")
    case None
    then show ?thesis using len by (auto simp: none active_timers_def find_index_None)
  qed (use that new in simp)
  show "timers_inv (timer_release s i) \<and> active_timers (timer_release s i) = active_timers s - {i} \<and>
      IOH_MAX_TIMERS = IOH_MAX_TIMERS" if "i \<in> active_timers s"
    using that inv len active_timers_update [of i s "(lp_timers s ! i)\<lparr>tm_active := False\<rparr>"]
      timers_inv_update [OF inv, of "(lp_timers s ! i)\<lparr>tm_active := False\<rparr>" i]
    by (simp add: timer_release_def ioh_loop_cancel_timer_def put_sqe_def Let_def active_timers_def timers_inv_def)
qed

subsection \<open>Firing\<close>

definition timer_slot :: "loop_cqe \<Rightarrow> nat option" where
  "timer_slot cqe =
     (if IOH_DECODE_OP (cqe_ud cqe) = op_val IOH_OP_TIMEOUT then Some (unat (IOH_DECODE_ID (cqe_ud cqe))) else None)"

definition fires :: "loop_cqe \<Rightarrow> bool" where
  "fires cqe \<longleftrightarrow> cqe_res cqe = NEG_ETIME \<or> cqe_res cqe = 0"

text \<open>An application that records the calls it gets.\<close>

definition log_call :: "'cb \<Rightarrow> 'd \<Rightarrow> ('cb \<times> 'd) list \<times> ('cb, 'd) ioh_loop \<Rightarrow> ('cb \<times> 'd) list \<times> ('cb, 'd) ioh_loop" where
  "log_call cb d s = (fst s @ [(cb, d)], snd s)"

definition deactivate :: "('cb, 'd) ioh_loop \<Rightarrow> nat \<Rightarrow> ('cb, 'd) ioh_loop" where
  "deactivate loop i = loop\<lparr>lp_timers := (lp_timers loop)[i := (lp_timers loop ! i)\<lparr>tm_active := False\<rparr>]\<rparr>"

definition timer_call :: "('cb, 'd) ioh_loop \<Rightarrow> nat \<Rightarrow> 'cb \<times> 'd" where
  "timer_call loop i = the (tm_callback (lp_timers loop ! i))"

lemma handle_cqe_log:
  assumes "timers_inv loop"
  shows "handle_cqe log_call c (w, loop) =
     (case timer_slot c of
        None \<Rightarrow> (w, loop)
      | Some i \<Rightarrow> if i \<in> active_timers loop then (if fires c then w @ [timer_call loop i] else w, deactivate loop i)
                  else (w, loop))"
proof (cases "timer_slot c")
  case (Some i)
  have "tm_callback (lp_timers loop ! i) \<noteq> None" if "i \<in> active_timers loop"
    using that assms by (simp add: active_timers_def timers_inv_def)
  with Some assms show ?thesis
    by (auto simp: handle_cqe_def timer_slot_def log_call_def deactivate_def timer_call_def fires_def active_timers_def
        timers_inv_def split: if_splits option.splits)
qed (simp add: handle_cqe_def timer_slot_def split: if_splits)

lemma deactivate_facts:
  assumes "timers_inv loop" and "i \<in> active_timers loop"
  shows "timers_inv (deactivate loop i)" and "active_timers (deactivate loop i) = active_timers loop - {i}"
    and "timer_call (deactivate loop i) j = timer_call loop j"
  using assms timers_inv_update [OF assms(1), of "(lp_timers loop ! i)\<lparr>tm_active := False\<rparr>" i]
  by (auto simp: deactivate_def active_timers_def timer_call_def nth_list_update)

lemma fold_cqes_log:
  assumes "timers_inv loop" and "fold (handle_cqe log_call) cqes (w, loop) = (w', loop')"
  shows "\<exists>fired. w' = w @ map (timer_call loop) fired \<and> distinct fired \<and>
     set fired = {i \<in> active_timers loop. \<exists>c. find (\<lambda>c. timer_slot c = Some i) cqes = Some c \<and> fires c} \<and>
     active_timers loop' = active_timers loop - {i. \<exists>c\<in>set cqes. timer_slot c = Some i} \<and> timers_inv loop'"
  using assms
proof (induction cqes arbitrary: w loop)
  case Nil
  then show ?case by auto
next
  case (Cons c cs)
  show ?case
  proof (cases "\<exists>i\<in>active_timers loop. timer_slot c = Some i")
    case False
    then have "handle_cqe log_call c (w, loop) = (w, loop)"
      using handle_cqe_log [OF Cons.prems(1), of c w] by (auto split: option.splits)
    with Cons.IH [OF Cons.prems(1), of w] Cons.prems(2) False show ?thesis by (auto 0 3)
  next
    case True
    then obtain i where i: "i \<in> active_timers loop" "timer_slot c = Some i" by blast
    note d = deactivate_facts [OF Cons.prems(1) i(1)]
    define w1 where "w1 = (if fires c then w @ [timer_call loop i] else w)"
    have "fold (handle_cqe log_call) cs (w1, deactivate loop i) = (w', loop')"
      using Cons.prems(2) handle_cqe_log [OF Cons.prems(1), of c w] i by (simp add: w1_def)
    from Cons.IH [OF d(1) this] obtain fired where f: "w' = w1 @ map (timer_call (deactivate loop i)) fired"
        "distinct fired" "set fired = {j \<in> active_timers loop - {i}. \<exists>c. find (\<lambda>c. timer_slot c = Some j) cs = Some c \<and> fires c}"
        "active_timers loop' = active_timers loop - {i} - {j. \<exists>c\<in>set cs. timer_slot c = Some j}" "timers_inv loop'"
      unfolding d(2) by blast
    have calls: "timer_call (deactivate loop i) = timer_call loop" using d(3) by blast
    let ?fired = "if fires c then i # fired else fired"
    have "set ?fired = {j \<in> active_timers loop. \<exists>c'. find (\<lambda>c. timer_slot c = Some j) (c # cs) = Some c' \<and> fires c'}"
      using i f(3) by auto
    moreover have "active_timers loop' = active_timers loop - {j. \<exists>c\<in>set (c # cs). timer_slot c = Some j}"
      using i f(4) by auto
    moreover have "w' = w @ map (timer_call loop) ?fired" "distinct ?fired" using f calls by (auto simp: w1_def)
    ultimately show ?thesis using f(5) by blast
  qed
qed

text \<open>
  A completion of a timer that was cancelled after it expired carries the same tag as the timer that
  reuses its slot, so the new callback runs at once and its own expiry is ignored.
\<close>

lemma timer_slot_reuse:
  assumes "lp_timers loop = t # ts" and "\<not> tm_active t"
    and "ioh_loop_add_timer True loop ms1 cb1 d1 = (Inr i, loop1)"
    and "ioh_loop_cancel_timer True loop1 (int i) = (Inr (), loop2)"
    and "ioh_loop_add_timer True loop2 ms2 cb2 d2 = (Inr j, loop3)"
  shows "j = i \<and> fst (handle_cqe log_call \<lparr>cqe_ud = IOH_ENCODE_USERDATA (of_nat i) IOH_OP_TIMEOUT, cqe_res = NEG_ETIME\<rparr> ([], loop3))
     = [(cb2, d2)]"
proof -
  have i: "i = 0" "lp_timers loop1 = \<lparr>tm_sec = ms_sec ms1, tm_nsec = ms_nsec ms1, tm_callback = Some (cb1, d1), tm_active = True\<rparr> # ts"
    using assms(1-3) by (auto simp: ioh_loop_add_timer_def Let_def put_sqe_def)
  then have "\<exists>t. lp_timers loop2 = t # ts \<and> \<not> tm_active t"
    using assms(4) by (auto simp: ioh_loop_cancel_timer_def Let_def put_sqe_def split: if_splits)
  then have j: "j = 0" "lp_timers loop3 = \<lparr>tm_sec = ms_sec ms2, tm_nsec = ms_nsec ms2, tm_callback = Some (cb2, d2), tm_active = True\<rparr> # ts"
    using assms(5) by (auto simp: ioh_loop_add_timer_def Let_def put_sqe_def)
  have "IOH_DECODE_ID (IOH_ENCODE_USERDATA 0 IOH_OP_TIMEOUT) = 0" by (rule decode_id_encode) simp
  then show ?thesis using i j by (simp add: handle_cqe_def IOH_MAX_TIMERS_def log_call_def Let_def)
qed

text \<open>A timer that fires is not subtracted from the counter of timers.\<close>

lemma timer_count_drifts:
  "lp_timer_count (snd (fold (handle_cqe log_call) cqes (w, loop))) = lp_timer_count loop"
  by (induction cqes arbitrary: w loop)
    (auto simp: handle_cqe_def log_call_def Let_def split: option.splits)

subsection \<open>Properties\<close>


definition example_loop :: "(string, nat) ioh_loop" where
  "example_loop =
     \<lparr>lp_config = ioh_loop_config_init, lp_running = False, lp_stopped = False, lp_buf_ring = None,
      lp_timers = replicate IOH_MAX_TIMERS no_timer, lp_timer_count = 0, lp_sq = []\<rparr>"

lemma example_loop_created: "ioh_loop_create 0 ioh_loop_config_init = Some example_loop"
  by (simp add: ioh_loop_create_def ioh_loop_config_validate_def ioh_loop_config_init_def is_power_of_2_def example_loop_def)


end
