(* ===== verification/Bufpool.thy ===== *)
theory Bufpool
  imports Ring_Loop
begin

text \<open>
  The buffer pool of \<^verbatim>\<open>src/core/ioh_buffer.c\<close>: the provided buffer ring, the registered buffers and the
  table of registered file slots.

  Buffer addresses are offsets from the start of their area.  The buffers handed to the kernel are
  collected in order in \<open>bp_ring\<close> as offset, length and 16-bit id.  The results of the registrations and
  of the allocations are arguments.  Null pools and rings are not modelled.
\<close>

record ioh_bufpool_config =
  bc_ring_size :: u32
  bc_buf_size :: u32
  bc_bgid :: u16
  bc_reg_buf_count :: u32
  bc_reg_buf_size :: u32
  bc_reg_file_count :: u32

record ioh_bufpool =
  bp_config :: ioh_bufpool_config
  bp_ring :: "(u64 \<times> u32 \<times> u16) list option"
  bp_reg_iovs :: "(u64 \<times> u32) list option"
  bp_bufs_registered :: bool
  bp_file_slots :: "int list option"
  bp_files_registered :: bool

definition ioh_bufpool_config_init :: ioh_bufpool_config where
  "ioh_bufpool_config_init =
     \<lparr>bc_ring_size = 128, bc_buf_size = 4096, bc_bgid = 0, bc_reg_buf_count = 0, bc_reg_buf_size = 16384,
      bc_reg_file_count = 0\<rparr>"

definition ioh_bufpool_config_validate :: "ioh_bufpool_config \<Rightarrow> errno + unit" where
  "ioh_bufpool_config_validate cfg =
     (if bc_ring_size cfg = 0 then Inl EINVAL
      else if \<not> is_power_of_2 (bc_ring_size cfg) then Inl EINVAL
      else if bc_buf_size cfg = 0 then Inl EINVAL
      else if bc_reg_buf_count cfg > 0 \<and> bc_reg_buf_size cfg = 0 then Inl EINVAL
      else Inr ())"

definition reg_iov :: "u32 \<Rightarrow> nat \<Rightarrow> u64 \<times> u32" where
  "reg_iov buf_size i = (buf_offset (of_nat i) buf_size, buf_size)"

definition ioh_bufpool_create :: "bool \<Rightarrow> ioh_bufpool_config \<Rightarrow> ioh_bufpool option" where
  "ioh_bufpool_create alloc_ok cfg =
     (case ioh_bufpool_config_validate cfg of
        Inl _ \<Rightarrow> None
      | Inr _ \<Rightarrow>
          if \<not> alloc_ok then None
          else Some \<lparr>bp_config = cfg, bp_ring = None,
                     bp_reg_iovs = (if bc_reg_buf_count cfg > 0
                                    then Some (map (reg_iov (bc_reg_buf_size cfg)) [0..<unat (bc_reg_buf_count cfg)])
                                    else None),
                     bp_bufs_registered = False, bp_file_slots = None, bp_files_registered = False\<rparr>)"

subsection \<open>Registration\<close>

definition ioh_bufpool_register_ring :: "errno option \<Rightarrow> ioh_bufpool \<Rightarrow> (unit, ioh_bufpool) outcome" where
  "ioh_bufpool_register_ring setup_err pool =
     (if bp_ring pool \<noteq> None then (Inl EALREADY, pool)
      else case setup_err of
             Some err \<Rightarrow> (Inl err, pool)
           | None \<Rightarrow>
               (Inr (), pool\<lparr>bp_ring := Some (map (ring_entry (bc_buf_size (bp_config pool)))
                                               [0..<unat (bc_ring_size (bp_config pool))])\<rparr>))"

definition ioh_bufpool_register_bufs :: "errno option \<Rightarrow> ioh_bufpool \<Rightarrow> (unit, ioh_bufpool) outcome" where
  "ioh_bufpool_register_bufs err pool =
     (if bc_reg_buf_count (bp_config pool) = 0 then (Inl EINVAL, pool)
      else if bp_bufs_registered pool then (Inl EALREADY, pool)
      else case err of
             Some e \<Rightarrow> (Inl e, pool)
           | None \<Rightarrow> (Inr (), pool\<lparr>bp_bufs_registered := True\<rparr>))"

definition ioh_bufpool_register_files :: "bool \<Rightarrow> errno option \<Rightarrow> ioh_bufpool \<Rightarrow> (unit, ioh_bufpool) outcome" where
  "ioh_bufpool_register_files malloc_ok err pool =
     (if bc_reg_file_count (bp_config pool) = 0 then (Inl EINVAL, pool)
      else if bp_files_registered pool then (Inl EALREADY, pool)
      else if \<not> malloc_ok then (Inl ENOMEM, pool\<lparr>bp_file_slots := None\<rparr>)
      else case err of
             Some e \<Rightarrow> (Inl e, pool\<lparr>bp_file_slots := None\<rparr>)
           | None \<Rightarrow>
               (Inr (), pool\<lparr>bp_file_slots := Some (replicate (unat (bc_reg_file_count (bp_config pool))) (-1)),
                             bp_files_registered := True\<rparr>))"

subsection \<open>Buffers\<close>

definition ioh_bufpool_get_buf :: "ioh_bufpool \<Rightarrow> u32 \<Rightarrow> u64 option" where
  "ioh_bufpool_get_buf pool buf_id =
     (if buf_id \<ge> bc_ring_size (bp_config pool) then None
      else Some (buf_offset buf_id (bc_buf_size (bp_config pool))))"

definition ioh_bufpool_return_buf :: "ioh_bufpool \<Rightarrow> u32 \<Rightarrow> ioh_bufpool" where
  "ioh_bufpool_return_buf pool buf_id =
     (case bp_ring pool of
        None \<Rightarrow> pool
      | Some entries \<Rightarrow>
          if buf_id \<ge> bc_ring_size (bp_config pool) then pool
          else pool\<lparr>bp_ring := Some (entries @
                 [(buf_offset buf_id (bc_buf_size (bp_config pool)), bc_buf_size (bp_config pool), ucast buf_id)])\<rparr>)"

definition ioh_bufpool_get_reg_buf :: "ioh_bufpool \<Rightarrow> u32 \<Rightarrow> u64 option" where
  "ioh_bufpool_get_reg_buf pool idx =
     (if bp_reg_iovs pool = None then None
      else if idx \<ge> bc_reg_buf_count (bp_config pool) then None
      else Some (buf_offset idx (bc_reg_buf_size (bp_config pool))))"

subsection \<open>File slots\<close>

definition ioh_bufpool_register_fd :: "errno option \<Rightarrow> ioh_bufpool \<Rightarrow> int \<Rightarrow> (nat, ioh_bufpool) outcome" where
  "ioh_bufpool_register_fd err pool fd =
     (case bp_file_slots pool of
        None \<Rightarrow> (Inl EINVAL, pool)
      | Some slots \<Rightarrow>
          if \<not> bp_files_registered pool then (Inl EINVAL, pool)
          else if fd < 0 then (Inl EBADF, pool)
          else case find_index (\<lambda>s. s = -1) (take (unat (bc_reg_file_count (bp_config pool))) slots) of
                 None \<Rightarrow> (Inl ENOSPC, pool)
               | Some slot \<Rightarrow>
                   (case err of
                      Some e \<Rightarrow> (Inl e, pool)
                    | None \<Rightarrow> (Inr slot, pool\<lparr>bp_file_slots := Some (slots[slot := fd])\<rparr>)))"

definition ioh_bufpool_unregister_fd :: "ioh_bufpool \<Rightarrow> int \<Rightarrow> ioh_bufpool" where
  "ioh_bufpool_unregister_fd pool slot =
     (case bp_file_slots pool of
        None \<Rightarrow> pool
      | Some slots \<Rightarrow>
          if \<not> bp_files_registered pool then pool
          else if slot < 0 \<or> nat slot \<ge> unat (bc_reg_file_count (bp_config pool)) then pool
          else pool\<lparr>bp_file_slots := Some (slots[nat slot := -1])\<rparr>)"

definition ioh_bufpool_ring_size where "ioh_bufpool_ring_size pool = bc_ring_size (bp_config pool)"
definition ioh_bufpool_buf_size where "ioh_bufpool_buf_size pool = bc_buf_size (bp_config pool)"
definition ioh_bufpool_reg_buf_count where "ioh_bufpool_reg_buf_count pool = bc_reg_buf_count (bp_config pool)"
definition ioh_bufpool_reg_file_count where "ioh_bufpool_reg_file_count pool = bc_reg_file_count (bp_config pool)"

subsection \<open>Lemmas\<close>

text \<open>The product of two 32-bit numbers does not wrap in 64 bits.\<close>

lemma unat_buf_offset: "unat (buf_offset i n) = unat i * unat n"
proof -
  have "unat (ucast x :: u64) = unat x" for x :: u32
    using unat_bound [of x] by (simp add: unsigned_ucast_eq take_bit_nat_eq_self)
  moreover have "unat i * unat n \<le> (2 ^ 32 - 1) * (2 ^ 32 - 1)"
    using unat_bound [of i] unat_bound [of n] by (intro mult_le_mono) simp_all
  ultimately show ?thesis by (simp add: buf_offset_def unat_word_ariths)
qed

definition in_area :: "u64 \<Rightarrow> u32 \<Rightarrow> u32 \<Rightarrow> bool" where
  "in_area off n count \<longleftrightarrow> unat off + unat n \<le> unat count * unat n"

lemma buf_in_area: "i < count \<Longrightarrow> in_area (buf_offset i n) n count"
proof -
  assume "i < count"
  then have "unat i + 1 \<le> unat count" by (simp add: word_less_nat_alt)
  then have "(unat i + 1) * unat n \<le> unat count * unat n" by (rule mult_le_mono1)
  then show ?thesis by (simp add: in_area_def unat_buf_offset)
qed

lemma bufs_disjoint:
  assumes "i \<noteq> j"
  shows "unat (buf_offset i n) + unat n \<le> unat (buf_offset j n) \<or> unat (buf_offset j n) + unat n \<le> unat (buf_offset i n)"
proof -
  have *: "unat a * unat n + unat n \<le> unat b * unat n" if "a < b" for a b :: u32
    using that mult_le_mono1 [of "unat a + 1" "unat b" "unat n"] by (simp add: word_less_nat_alt)
  show ?thesis using assms * [of i j] * [of j i] by (cases "i < j") (auto simp: unat_buf_offset)
qed

text \<open>Every buffer in the kernel's ring is the buffer its id names.\<close>

definition ring_inv :: "ioh_bufpool \<Rightarrow> bool" where
  "ring_inv pool \<longleftrightarrow>
     (\<forall>entries. bp_ring pool = Some entries \<longrightarrow>
        (\<forall>(off, n, b)\<in>set entries. n = bc_buf_size (bp_config pool) \<and> ioh_bufpool_get_buf pool (ucast b) = Some off))"

lemma ring_inv_create: "ioh_bufpool_create ok cfg = Some pool \<Longrightarrow> ring_inv pool"
  by (auto simp: ioh_bufpool_create_def ring_inv_def split: sum.splits if_splits)

lemma ucast_id: "unat (i :: u32) < 65536 \<Longrightarrow> (ucast (ucast i :: u16) :: u32) = i"
  by (simp add: word_unat_eq_iff unsigned_ucast_eq unsigned_take_bit_eq take_bit_nat_eq_self)

lemma ring_inv_register:
  assumes "unat (bc_ring_size (bp_config pool)) \<le> 65536" and "ioh_bufpool_register_ring err pool = (r, pool')"
    and "ring_inv pool"
  shows "ring_inv pool'"
proof (cases "r = Inr ()")
  case True
  let ?n = "bc_buf_size (bp_config pool)" and ?c = "bc_ring_size (bp_config pool)"
  have pool': "pool' = pool\<lparr>bp_ring := Some (map (ring_entry ?n) [0..<unat ?c])\<rparr>"
    using assms(2) True by (auto simp: ioh_bufpool_register_ring_def split: if_splits option.splits)
  have "ioh_bufpool_get_buf pool' (ucast (of_nat i :: u16)) = Some (buf_offset (of_nat i) ?n)" if "i < unat ?c" for i
  proof -
    have i: "i < 65536" using that assms(1) by simp
    then have u: "unat (of_nat i :: u32) = i" by (simp add: unat_of_nat take_bit_eq_mod)
    have "(ucast (of_nat i :: u16) :: u32) = of_nat i"
      using i by (simp add: word_unat_eq_iff u unsigned_ucast_eq unat_of_nat take_bit_eq_mod)
    then show ?thesis using that u by (simp add: pool' ioh_bufpool_get_buf_def word_le_nat_alt)
  qed
  then show ?thesis by (auto simp: ring_inv_def pool' ring_entry_def)
next
  case False
  then have "pool' = pool" using assms(2) by (auto simp: ioh_bufpool_register_ring_def split: if_splits option.splits)
  with assms(3) show ?thesis by simp
qed

lemma ring_inv_return:
  assumes "unat (bc_ring_size (bp_config pool)) \<le> 65536" and "ring_inv pool"
  shows "ring_inv (ioh_bufpool_return_buf pool i)"
proof -
  have get: "ioh_bufpool_get_buf (pool\<lparr>bp_ring := x\<rparr>) b = ioh_bufpool_get_buf pool b" for x b
    by (simp add: ioh_bufpool_get_buf_def)
  have "ioh_bufpool_get_buf pool (ucast (ucast i :: u16)) = Some (buf_offset i (bc_buf_size (bp_config pool)))"
    if "i < bc_ring_size (bp_config pool)"
  proof -
    have "unat i < 65536" using that assms(1) by (simp add: word_less_nat_alt)
    then show ?thesis using that by (simp add: ucast_id ioh_bufpool_get_buf_def not_le)
  qed
  then show ?thesis using assms(2)
    by (auto simp: ring_inv_def ioh_bufpool_return_buf_def get not_le split: option.splits)
qed

subsection \<open>The file table as a pool of slots\<close>

definition used_slots :: "ioh_bufpool \<Rightarrow> nat set" where
  "used_slots pool = (case bp_file_slots pool of None \<Rightarrow> {} | Some slots \<Rightarrow> {i. i < length slots \<and> slots ! i \<noteq> -1})"

definition files_inv :: "ioh_bufpool \<Rightarrow> bool" where
  "files_inv pool \<longleftrightarrow> bp_files_registered pool \<and>
     (\<exists>slots. bp_file_slots pool = Some slots \<and> length slots = unat (bc_reg_file_count (bp_config pool)))"

definition file_acquire :: "nat \<Rightarrow> ioh_bufpool \<Rightarrow> nat option \<times> ioh_bufpool" where
  "file_acquire fd pool =
     (case ioh_bufpool_register_fd None pool (int fd) of (r, pool') \<Rightarrow> (case r of Inl _ \<Rightarrow> None | Inr i \<Rightarrow> Some i, pool'))"

definition file_release :: "ioh_bufpool \<Rightarrow> nat \<Rightarrow> ioh_bufpool" where
  "file_release pool i = ioh_bufpool_unregister_fd pool (int i)"

definition file_capacity :: "ioh_bufpool \<Rightarrow> nat" where
  "file_capacity pool = unat (bc_reg_file_count (bp_config pool))"

interpretation file_slots: slot_pool "file_acquire fd" file_release used_slots file_capacity files_inv
proof
  fix s :: ioh_bufpool and i
  assume inv: "files_inv s"
  then obtain slots where s: "bp_file_slots s = Some slots" "length slots = file_capacity s" "bp_files_registered s"
    by (auto simp: files_inv_def file_capacity_def)
  have acq: "file_acquire fd s =
     (case find_index (\<lambda>x. x = -1) slots of
        None \<Rightarrow> (None, s) | Some j \<Rightarrow> (Some j, s\<lparr>bp_file_slots := Some (slots[j := int fd])\<rparr>))"
    using s by (simp add: file_acquire_def ioh_bufpool_register_fd_def file_capacity_def split: option.splits)
  show "used_slots s \<subseteq> {..<file_capacity s}" using s by (auto simp: used_slots_def)
  show "files_inv (snd (file_acquire fd s)) \<and> file_capacity (snd (file_acquire fd s)) = file_capacity s"
    using inv s by (auto simp: acq files_inv_def file_capacity_def split: option.splits)
  show "fst (file_acquire fd s) = Some i \<Longrightarrow> i \<notin> used_slots s \<and> used_slots (snd (file_acquire fd s)) = insert i (used_slots s)"
    using s by (auto simp: acq used_slots_def nth_list_update dest: find_index_SomeD split: option.splits if_splits)
  show "used_slots s = {..<file_capacity s} \<and> used_slots (snd (file_acquire fd s)) = used_slots s"
    if "fst (file_acquire fd s) = None"
  proof (cases "find_index (\<lambda>x. x = -1) slots")
    case None
    then have "snd (file_acquire fd s) = s" by (simp add: acq)
    then show ?thesis using s None by (auto simp: used_slots_def find_index_None)
  qed (use that in \<open>simp add: acq\<close>)
  show "i \<in> used_slots s \<Longrightarrow> files_inv (file_release s i) \<and> used_slots (file_release s i) = used_slots s - {i} \<and>
      file_capacity (file_release s i) = file_capacity s"
    using s inv by (auto simp: file_release_def ioh_bufpool_unregister_fd_def files_inv_def used_slots_def file_capacity_def
        nth_list_update split: if_splits)
qed

subsection \<open>Properties\<close>

text \<open>The buffer operations of an owner, and running them.\<close>

datatype buffer_op = Register_Ring "errno option" | Return_Buf u32 | Register_Bufs "errno option"

fun buffer_step :: "ioh_bufpool \<Rightarrow> buffer_op \<Rightarrow> ioh_bufpool" where
  "buffer_step pool (Register_Ring e) = snd (ioh_bufpool_register_ring e pool)"
| "buffer_step pool (Return_Buf i) = ioh_bufpool_return_buf pool i"
| "buffer_step pool (Register_Bufs e) = snd (ioh_bufpool_register_bufs e pool)"

lemma buffer_step_config: "bp_config (buffer_step pool op) = bp_config pool"
  by (cases op) (auto simp: ioh_bufpool_register_ring_def ioh_bufpool_return_buf_def ioh_bufpool_register_bufs_def
      split: option.splits)

lemma buffer_step_ring_inv:
  assumes "unat (bc_ring_size (bp_config pool)) \<le> 65536" and "ring_inv pool"
  shows "ring_inv (buffer_step pool op)"
proof (cases op)
  case (Register_Ring e)
  obtain r pool' where "ioh_bufpool_register_ring e pool = (r, pool')" by (rule prod.exhaust)
  with ring_inv_register [OF assms(1) this assms(2)] show ?thesis by (simp add: Register_Ring)
next
  case (Return_Buf i)
  with ring_inv_return [OF assms] show ?thesis by simp
next
  case (Register_Bufs e)
  have "ring_inv (pool\<lparr>bp_bufs_registered := x\<rparr>)" for x
    using assms(2) unfolding ring_inv_def by (simp add: ioh_bufpool_get_buf_def cong: if_cong)
  with assms(2) show ?thesis by (simp add: Register_Bufs ioh_bufpool_register_bufs_def split: option.splits)
qed

lemma buffer_run_ring_inv:
  "unat (bc_ring_size (bp_config pool)) \<le> 65536 \<Longrightarrow> ring_inv pool \<Longrightarrow>
     ring_inv (foldl buffer_step pool ops) \<and> bp_config (foldl buffer_step pool ops) = bp_config pool"
  by (induction ops arbitrary: pool) (simp_all add: buffer_step_ring_inv buffer_step_config)

text \<open>C35: The provided buffers stay what the kernel was told they are.  From a new pool with at most 65536 buffers (the
  kernel's ids have 16 bits), whatever the order of registrations and returned ids, every buffer in the kernel's ring
  has the full buffer size and starts exactly where the pool finds the buffer of that id; it lies inside
  the allocated area, and buffers of different ids do not overlap.\<close>

theorem bufpool_ring_consistent:
  assumes "ioh_bufpool_create ok cfg = Some pool" and "unat (bc_ring_size cfg) \<le> 65536"
    and "bp_ring (foldl buffer_step pool ops) = Some entries" and "(off, n, b) \<in> set entries"
  shows "n = bc_buf_size cfg \<and> ioh_bufpool_get_buf pool (ucast b) = Some off \<and> in_area off n (bc_ring_size cfg) \<and>
     (\<forall>(off', n', b')\<in>set entries. b' \<noteq> b \<longrightarrow> unat off + unat n \<le> unat off' \<or> unat off' + unat n' \<le> unat off)"
proof -
  have cfg: "bp_config pool = cfg"
    using assms(1) by (auto simp: ioh_bufpool_create_def split: sum.splits if_splits)
  have inv: "ring_inv (foldl buffer_step pool ops)" "bp_config (foldl buffer_step pool ops) = cfg"
    using buffer_run_ring_inv [of pool ops] ring_inv_create [OF assms(1)] assms(2) by (simp_all add: cfg)
  have entry: "m = bc_buf_size cfg \<and> ucast c < bc_ring_size cfg \<and> o' = buf_offset (ucast c) (bc_buf_size cfg)"
    if "(o', m, c) \<in> set entries" for o' m c
    using that inv assms(3) by (fastforce simp: ring_inv_def ioh_bufpool_get_buf_def split: if_splits)
  have "unat (ucast (c :: u16) :: u32) = unat c" for c
    using unat_bound [of c] by (simp add: unsigned_ucast_eq take_bit_nat_eq_self)
  then have inj: "(ucast (c :: u16) :: u32) = ucast c' \<longleftrightarrow> c = c'" for c c' by (metis word_unat_eq_iff)
  show ?thesis using entry [OF assms(4)] buf_in_area [of "ucast b" "bc_ring_size cfg" n]
    by (auto dest!: entry simp: ioh_bufpool_get_buf_def cfg intro!: bufs_disjoint simp: inj)
qed

theorem bufpool_ring_consistent_witness:
  "\<exists>pool. ioh_bufpool_create True (ioh_bufpool_config_init\<lparr>bc_ring_size := 2\<rparr>) = Some pool \<and>
     bp_ring (foldl buffer_step pool [Register_Ring None, Return_Buf 1]) = Some [(0, 4096, 0), (4096, 4096, 1), (4096, 4096, 1)] \<and>
     in_area 4096 4096 2"
proof -
  let ?cfg = "ioh_bufpool_config_init\<lparr>bc_ring_size := 2\<rparr>"
  obtain pool where c: "ioh_bufpool_create True ?cfg = Some pool" and p: "bp_config pool = ?cfg" "bp_ring pool = None"
    by (simp add: ioh_bufpool_create_def ioh_bufpool_config_validate_def ioh_bufpool_config_init_def is_power_of_2_def)
  have "[0..<2] = [0, 1 :: nat]" by (simp add: upt_rec)
  then have r: "bp_ring (foldl buffer_step pool [Register_Ring None, Return_Buf 1]) = Some [(0, 4096, 0), (4096, 4096, 1), (4096, 4096, 1)]"
    using p by (simp add: ioh_bufpool_register_ring_def ioh_bufpool_return_buf_def ioh_bufpool_config_init_def ring_entry_def
        buf_offset_def word_le_nat_alt)
  have "in_area 4096 4096 (bc_ring_size ?cfg)"
    using bufpool_ring_consistent [OF c _ r, of 4096 4096 1] by simp
  with c r show ?thesis by simp
qed

end
