(* ===== verification/Cookie.thy ===== *)
theory Cookie
  imports Request
begin

text \<open>
  The Set-Cookie builder of \<^verbatim>\<open>src/http/ioh_cookie.c\<close>.  Strings are C strings; the text written so
  far is the list of its characters.
\<close>

datatype ioh_same_site =
  IOH_SAME_SITE_DEFAULT | IOH_SAME_SITE_LAX | IOH_SAME_SITE_STRICT | IOH_SAME_SITE_NONE

record ioh_cookie =
  ck_name :: string
  ck_value :: "string option"
  ck_domain :: "string option"
  ck_path :: "string option"
  ck_max_age :: int
  ck_same_site :: ioh_same_site
  ck_secure :: bool
  ck_http_only :: bool

definition IOH_COOKIE_NAME_MAX :: nat where "IOH_COOKIE_NAME_MAX = 256"

definition bad_name_char :: "char \<Rightarrow> bool" where
  "bad_name_char c \<longleftrightarrow>
     byte_val c \<le> 31 \<or> byte_val c = 127 \<or> c = CHR ''='' \<or> c = CHR '';'' \<or> c = CHR '' '' \<or> c = tab"

definition ioh_cookie_validate_name :: "string \<Rightarrow> errno + unit" where
  "ioh_cookie_validate_name name =
     (let len = length (take (IOH_COOKIE_NAME_MAX + 1) (cstr name))
      in if len = 0 \<or> len > IOH_COOKIE_NAME_MAX then Inl EINVAL
         else if \<exists>c\<in>set (take len name). bad_name_char c then Inl EINVAL
         else Inr ())"

text \<open>One \<^verbatim>\<open>snprintf\<close> at the current position and the check that follows it.\<close>

definition cookie_put :: "nat \<Rightarrow> string \<Rightarrow> errno + string \<Rightarrow> errno + string" where
  "cookie_put buf_size t r =
     (case r of
        Inl e \<Rightarrow> Inl e
      | Inr out \<Rightarrow> if length out + length t \<ge> buf_size then Inl ENOSPC else Inr (out @ t))"

fun same_site_text :: "ioh_same_site \<Rightarrow> string" where
  "same_site_text IOH_SAME_SITE_LAX = ''; SameSite=Lax''"
| "same_site_text IOH_SAME_SITE_STRICT = ''; SameSite=Strict''"
| "same_site_text IOH_SAME_SITE_NONE = ''; SameSite=None''"
| "same_site_text IOH_SAME_SITE_DEFAULT = []"

definition when_some :: "'a option \<Rightarrow> ('a \<Rightarrow> 'b \<Rightarrow> 'b) \<Rightarrow> 'b \<Rightarrow> 'b" where
  "when_some x f b = (case x of None \<Rightarrow> b | Some a \<Rightarrow> f a b)"

definition ioh_cookie_serialize :: "ioh_cookie \<Rightarrow> nat \<Rightarrow> errno + string" where
  "ioh_cookie_serialize cookie buf_size =
     (if buf_size = 0 then Inl EINVAL
      else case ioh_cookie_validate_name (ck_name cookie) of
             Inl e \<Rightarrow> Inl e
           | Inr _ \<Rightarrow>
               (case ck_value cookie of
                  None \<Rightarrow> Inl EINVAL
                | Some v \<Rightarrow>
                    (let secure = (if ck_same_site cookie = IOH_SAME_SITE_NONE then True else ck_secure cookie);
                         r = cookie_put buf_size (cstr (ck_name cookie) @ ''='' @ cstr v) (Inr []);
                         r = when_some (ck_domain cookie) (\<lambda>d. cookie_put buf_size (''; Domain='' @ cstr d)) r;
                         r = when_some (ck_path cookie) (\<lambda>p. cookie_put buf_size (''; Path='' @ cstr p)) r;
                         r = (if ck_max_age cookie \<ge> 0
                              then cookie_put buf_size (''; Max-Age='' @ dec_digits (nat (ck_max_age cookie))) r else r);
                         r = cookie_put buf_size (same_site_text (ck_same_site cookie)) r;
                         r = (if secure then cookie_put buf_size ''; Secure'' r else r);
                         r = (if ck_http_only cookie then cookie_put buf_size ''; HttpOnly'' r else r)
                     in r)))"

subsection \<open>Lemmas\<close>

text \<open>The attributes in the order they are written.\<close>

definition cookie_attributes :: "ioh_cookie \<Rightarrow> string" where
  "cookie_attributes cookie =
     (case ck_domain cookie of None \<Rightarrow> [] | Some d \<Rightarrow> ''; Domain='' @ cstr d) @
     (case ck_path cookie of None \<Rightarrow> [] | Some p \<Rightarrow> ''; Path='' @ cstr p) @
     (if ck_max_age cookie \<ge> 0 then ''; Max-Age='' @ dec_digits (nat (ck_max_age cookie)) else []) @
     same_site_text (ck_same_site cookie) @
     (if ck_secure cookie \<or> ck_same_site cookie = IOH_SAME_SITE_NONE then ''; Secure'' else []) @
     (if ck_http_only cookie then ''; HttpOnly'' else [])"

definition cookie_text :: "ioh_cookie \<Rightarrow> string \<Rightarrow> string" where
  "cookie_text cookie v = cstr (ck_name cookie) @ ''='' @ cstr v @ cookie_attributes cookie"

definition bounded :: "nat \<Rightarrow> string \<Rightarrow> errno + string" where
  "bounded n t = (if length t \<ge> n then Inl ENOSPC else Inr t)"

lemma cookie_put_bounded [simp]: "cookie_put n t (bounded n s) = bounded n (s @ t)"
  by (simp add: cookie_put_def bounded_def)

lemma serialize_cookie:
  "ioh_cookie_serialize cookie n =
     (if n = 0 then Inl EINVAL
      else case ioh_cookie_validate_name (ck_name cookie) of
             Inl e \<Rightarrow> Inl e
           | Inr _ \<Rightarrow> (case ck_value cookie of None \<Rightarrow> Inl EINVAL | Some v \<Rightarrow> bounded n (cookie_text cookie v)))"
proof -
  have start: "n \<noteq> 0 \<Longrightarrow> Inr [] = bounded n []" by (simp add: bounded_def)
  show ?thesis
    by (simp add: ioh_cookie_serialize_def start when_some_def cookie_text_def cookie_attributes_def Let_def
        split: sum.splits option.splits)
qed

end
