(* ===== verification/Ctx.thy ===== *)
theory Ctx
  imports Response Cookie
begin

text \<open>
  The per-request context of \<^verbatim>\<open>src/core/ioh_ctx.c\<close>: stored values, response helpers and the arena.

  The arena is kept as its base address, size and fill, so that what a pointer into it means after a
  reallocation can be stated.  The result of \<^verbatim>\<open>malloc\<close> and \<^verbatim>\<open>realloc\<close> is an argument: the
  address, or \<open>None\<close>.  Values and destructors are opaque (\<open>'v\<close>, \<open>'d\<close>).  Null pointer arguments are
  not modelled.
\<close>

unbundle bit_operations_syntax

definition IOH_CTX_MAX_VALUES :: nat where "IOH_CTX_MAX_VALUES = 16"
definition IOH_CTX_ARENA_DEFAULT :: size_t where "IOH_CTX_ARENA_DEFAULT = 4096"

record ioh_arena =
  ar_base :: u64
  ar_size :: size_t
  ar_used :: size_t

record ('v, 'd) ioh_ctx_value =
  cv_key :: string
  cv_value :: "'v option"
  cv_destructor :: "'d option"

record ('v, 'd) ioh_ctx =
  cx_req :: ioh_request
  cx_resp :: ioh_response
  cx_arena :: ioh_arena
  cx_values :: "('v, 'd) ioh_ctx_value list"
  cx_conn_fd :: int
  cx_aborted :: bool

subsection \<open>Lifecycle\<close>

definition ioh_ctx_init :: "u64 option \<Rightarrow> ioh_request \<Rightarrow> ioh_response \<Rightarrow> errno + ('v, 'd) ioh_ctx" where
  "ioh_ctx_init malloc req resp =
     (case malloc of
        None \<Rightarrow> Inl ENOMEM
      | Some base \<Rightarrow>
          Inr \<lparr>cx_req = req, cx_resp = resp,
               cx_arena = \<lparr>ar_base = base, ar_size = IOH_CTX_ARENA_DEFAULT, ar_used = 0\<rparr>,
               cx_values = [], cx_conn_fd = -1, cx_aborted = False\<rparr>)"

text \<open>The destructor calls of a reset, in order, and the context after it.\<close>

fun destructor_calls :: "('v, 'd) ioh_ctx_value list \<Rightarrow> ('d \<times> 'v) list" where
  "destructor_calls [] = []"
| "destructor_calls (x # xs) =
     (case (cv_destructor x, cv_value x) of
        (Some d, Some v) \<Rightarrow> (d, v) # destructor_calls xs
      | _ \<Rightarrow> destructor_calls xs)"

definition ioh_ctx_reset :: "('v, 'd) ioh_ctx \<Rightarrow> ('d \<times> 'v) list \<times> ('v, 'd) ioh_ctx" where
  "ioh_ctx_reset c =
     (destructor_calls (cx_values c),
      c\<lparr>cx_values := [], cx_arena := (cx_arena c)\<lparr>ar_used := 0\<rparr>, cx_aborted := False\<rparr>)"

definition ioh_ctx_destroy :: "('v, 'd) ioh_ctx \<Rightarrow> ('d \<times> 'v) list \<times> ('v, 'd) ioh_ctx" where
  "ioh_ctx_destroy c =
     (case ioh_ctx_reset c of
        (calls, c) \<Rightarrow> (calls, c\<lparr>cx_arena := (cx_arena c)\<lparr>ar_base := 0, ar_size := 0\<rparr>\<rparr>))"

subsection \<open>Values\<close>

fun replace_value ::
  "('v, 'd) ioh_ctx_value list \<Rightarrow> string \<Rightarrow> 'v option \<Rightarrow> 'd option \<Rightarrow> ('v, 'd) ioh_ctx_value list option" where
  "replace_value [] key v dtor = None"
| "replace_value (x # xs) key v dtor =
     (if cv_key x = key then Some (x\<lparr>cv_value := v, cv_destructor := dtor\<rparr> # xs)
      else map_option ((#) x) (replace_value xs key v dtor))"

definition ioh_ctx_set_with_destructor ::
  "('v, 'd) ioh_ctx \<Rightarrow> string \<Rightarrow> 'v option \<Rightarrow> 'd option \<Rightarrow> (unit, ('v, 'd) ioh_ctx) outcome" where
  "ioh_ctx_set_with_destructor c key v dtor =
     (case replace_value (cx_values c) key v dtor of
        Some vs \<Rightarrow> (Inr (), c\<lparr>cx_values := vs\<rparr>)
      | None \<Rightarrow>
          if length (cx_values c) \<ge> IOH_CTX_MAX_VALUES then (Inl ENOSPC, c)
          else (Inr (), c\<lparr>cx_values := cx_values c @ [\<lparr>cv_key = key, cv_value = v, cv_destructor = dtor\<rparr>]\<rparr>))"

definition ioh_ctx_set where
  "ioh_ctx_set c key v = ioh_ctx_set_with_destructor c key v None"

fun find_value :: "('v, 'd) ioh_ctx_value list \<Rightarrow> string \<Rightarrow> 'v option" where
  "find_value [] key = None"
| "find_value (x # xs) key = (if cv_key x = key then cv_value x else find_value xs key)"

definition ioh_ctx_get :: "('v, 'd) ioh_ctx \<Rightarrow> string \<Rightarrow> 'v option" where
  "ioh_ctx_get c key = find_value (cx_values c) key"

subsection \<open>Request accessors\<close>

definition ioh_ctx_param where "ioh_ctx_param c name = ioh_request_param (cx_req c) name"
definition ioh_ctx_param_i64 where "ioh_ctx_param_i64 c name = ioh_request_param_i64 (cx_req c) name"
definition ioh_ctx_param_u64 where "ioh_ctx_param_u64 c name = ioh_request_param_u64 (cx_req c) name"
definition ioh_ctx_query where "ioh_ctx_query c name = ioh_request_query_param (cx_req c) name"
definition ioh_ctx_header where "ioh_ctx_header c name = ioh_request_header (cx_req c) name"
definition ioh_ctx_cookie where "ioh_ctx_cookie c name = ioh_request_cookie (cx_req c) name"
definition ioh_ctx_method where "ioh_ctx_method c = req_method (cx_req c)"
definition ioh_ctx_path where "ioh_ctx_path c = req_path (cx_req c)"
definition ioh_ctx_body where "ioh_ctx_body c = req_body (cx_req c)"

subsection \<open>Response helpers\<close>

text \<open>A helper runs an operation on the response of the context.\<close>

definition on_response ::
  "(ioh_response \<Rightarrow> (unit, ioh_response) outcome) \<Rightarrow> ('v, 'd) ioh_ctx \<Rightarrow> (unit, ('v, 'd) ioh_ctx) outcome" where
  "on_response f c = (case f (cx_resp c) of (r, resp) \<Rightarrow> (r, c\<lparr>cx_resp := resp\<rparr>))"

definition ioh_ctx_status where
  "ioh_ctx_status c status = on_response (\<lambda>resp. (Inr (), resp\<lparr>rs_status := status\<rparr>)) c"

definition ioh_ctx_set_header where
  "ioh_ctx_set_header c name v = on_response (\<lambda>resp. (Inr (), ioh_response_set_header resp name v)) c"

definition ioh_ctx_set_cookie :: "('v, 'd) ioh_ctx \<Rightarrow> ioh_cookie \<Rightarrow> (unit, ('v, 'd) ioh_ctx) outcome" where
  "ioh_ctx_set_cookie c cookie =
     (case ioh_cookie_serialize cookie 512 of
        Inl e \<Rightarrow> (Inl e, c)
      | Inr buf \<Rightarrow> on_response (\<lambda>resp. (Inr (), ioh_response_add_header resp ''Set-Cookie'' buf)) c)"

definition ioh_ctx_json where
  "ioh_ctx_json c status json = on_response (\<lambda>resp. ioh_respond_json resp status json) c"

definition ioh_ctx_text where
  "ioh_ctx_text c status t =
     on_response (\<lambda>resp. ioh_respond resp status (Some ''text/plain'') (Some t) (length (take (1024 * 1024) (cstr t)))) c"

definition ioh_ctx_html where
  "ioh_ctx_html c status html =
     on_response (\<lambda>resp. ioh_respond resp status (Some ''text/html'') (Some html) (length (take (1024 * 1024) (cstr html)))) c"

definition ioh_ctx_blob where
  "ioh_ctx_blob c status content_type data len = on_response (\<lambda>resp. ioh_respond resp status content_type data len) c"

definition ioh_ctx_no_content where
  "ioh_ctx_no_content c = on_response (\<lambda>resp. (Inr (), resp\<lparr>rs_status := 204\<rparr>)) c"

definition ioh_ctx_redirect where
  "ioh_ctx_redirect c status url =
     on_response (\<lambda>resp. (Inr (), ioh_response_set_header (resp\<lparr>rs_status := status\<rparr>) ''Location'' url)) c"

definition error_json :: "u16 \<Rightarrow> string \<Rightarrow> string" where
  "error_json status message =
     ''{'' @ [dquote] @ ''error'' @ [dquote] @ '':'' @ [dquote] @ cstr message @ [dquote] @ '','' @ [dquote] @ ''status'' @
     [dquote] @ '':'' @ dec_digits (unat status) @ ''}''"

definition ioh_ctx_error :: "('v, 'd) ioh_ctx \<Rightarrow> u16 \<Rightarrow> string \<Rightarrow> (unit, ('v, 'd) ioh_ctx) outcome" where
  "ioh_ctx_error c status message =
     (if length (error_json status message) \<ge> 512 then (Inl ENOMEM, c)
      else on_response (\<lambda>resp. ioh_respond_json resp status (error_json status message)) c)"

definition ioh_ctx_abort :: "('v, 'd) ioh_ctx \<Rightarrow> ('v, 'd) ioh_ctx" where
  "ioh_ctx_abort c = c\<lparr>cx_aborted := True\<rparr>"

subsection \<open>The arena\<close>

text \<open>The doubling loop: it may not end, since the doubled size wraps to zero.\<close>

partial_function (option) grow_size :: "size_t \<Rightarrow> size_t \<Rightarrow> size_t option" where
  "grow_size new_size needed = (if new_size < needed then grow_size (new_size * 2) needed else Some new_size)"

text \<open>
  The outer option is termination, the inner one success.  \<open>realloc\<close> maps the requested size to the
  address of the moved block.
\<close>

definition arena_grow :: "(size_t \<Rightarrow> u64 option) \<Rightarrow> ioh_arena \<Rightarrow> size_t \<Rightarrow> ioh_arena option option" where
  "arena_grow realloc a needed =
     map_option
       (\<lambda>new_size. map_option (\<lambda>new_base. a\<lparr>ar_base := new_base, ar_size := new_size\<rparr>) (realloc new_size))
       (grow_size (ar_size a) needed)"

definition ensure_space :: "(size_t \<Rightarrow> u64 option) \<Rightarrow> ioh_arena \<Rightarrow> size_t \<Rightarrow> ioh_arena option option" where
  "ensure_space realloc a needed =
     (if needed > ar_size a then arena_grow realloc a needed else Some (Some a))"

definition ioh_ctx_alloc :: "(size_t \<Rightarrow> u64 option) \<Rightarrow> ioh_arena \<Rightarrow> size_t \<Rightarrow> (u64 option \<times> ioh_arena) option" where
  "ioh_ctx_alloc realloc a n =
     (if n = 0 then Some (None, a)
      else case ensure_space realloc a (ar_used a + n) of
             None \<Rightarrow> None
           | Some None \<Rightarrow> Some (None, a)
           | Some (Some a) \<Rightarrow> Some (Some (ar_base a + ar_used a), a\<lparr>ar_used := ar_used a + n\<rparr>))"

definition padding :: "ioh_arena \<Rightarrow> size_t \<Rightarrow> size_t" where
  "padding a align =
     (let cur = ar_base a + ar_used a; mask = align - 1
      in ((cur + mask) AND NOT mask) - cur)"

definition ioh_ctx_alloc_aligned ::
  "(size_t \<Rightarrow> u64 option) \<Rightarrow> ioh_arena \<Rightarrow> size_t \<Rightarrow> size_t \<Rightarrow> (u64 option \<times> ioh_arena) option" where
  "ioh_ctx_alloc_aligned realloc a n align =
     (if n = 0 \<or> align = 0 then Some (None, a)
      else if align AND (align - 1) \<noteq> 0 then Some (None, a)
      else case ensure_space realloc a (ar_used a + padding a align + n) of
             None \<Rightarrow> None
           | Some None \<Rightarrow> Some (None, a)
           | Some (Some a) \<Rightarrow>
               (let aligned_used = ar_used a + padding a align
                in Some (Some (ar_base a + aligned_used), a\<lparr>ar_used := aligned_used + n\<rparr>)))"

text \<open>
  \<^verbatim>\<open>ioh_ctx_sprintf\<close> reserves the formatted text and its NUL; the text itself is the argument here.
\<close>

definition ioh_ctx_sprintf ::
  "(size_t \<Rightarrow> u64 option) \<Rightarrow> ioh_arena \<Rightarrow> string \<Rightarrow> (u64 option \<times> ioh_arena) option" where
  "ioh_ctx_sprintf realloc a t = ioh_ctx_alloc realloc a (of_nat (length t) + 1)"

subsection \<open>Lemmas\<close>

lemma find_replace_value:
  "replace_value vs key v dtor = Some vs' \<Longrightarrow> find_value vs' k = (if k = key then v else find_value vs k)"
  by (induction vs arbitrary: vs') (auto split: if_splits)

lemma replace_value_None: "replace_value vs key v dtor = None \<Longrightarrow> find_value (vs @ ws) key = find_value ws key"
  by (induction vs) (auto split: if_splits)

lemma find_value_append_other: "cv_key x \<noteq> k \<Longrightarrow> find_value (vs @ [x]) k = find_value vs k"
  by (induction vs) auto

lemma replace_value_length: "replace_value vs key v dtor = Some vs' \<Longrightarrow> length vs' = length vs"
  by (induction vs arbitrary: vs') (auto split: if_splits)

lemma ctx_set_get:
  assumes "ioh_ctx_set_with_destructor c key v dtor = (Inr (), c')"
  shows "ioh_ctx_get c' k = (if k = key then v else ioh_ctx_get c k)"
proof (cases "replace_value (cx_values c) key v dtor")
  case None
  with assms have "cx_values c' = cx_values c @ [\<lparr>cv_key = key, cv_value = v, cv_destructor = dtor\<rparr>]"
    by (auto simp: ioh_ctx_set_with_destructor_def split: if_splits)
  with replace_value_None [OF None] show ?thesis by (simp add: ioh_ctx_get_def find_value_append_other)
next
  case (Some vs)
  with assms have "cx_values c' = vs" by (auto simp: ioh_ctx_set_with_destructor_def)
  with find_replace_value [OF Some] show ?thesis by (simp add: ioh_ctx_get_def)
qed

lemma grow_size_Some:
  assumes "grow_size x needed = Some y"
  shows "\<not> y < needed \<and> (\<exists>k. y = x * 2 ^ k)"
proof (rule grow_size.raw_induct [OF _ assms])
  fix f :: "size_t \<Rightarrow> size_t \<Rightarrow> size_t option" and x needed y
  assume IH: "\<And>x needed y. f x needed = Some y \<Longrightarrow> \<not> y < needed \<and> (\<exists>k. y = x * 2 ^ k)"
    and r: "(if x < needed then f (x * 2) needed else Some x) = Some y"
  show "\<not> y < needed \<and> (\<exists>k. y = x * 2 ^ k)"
  proof (cases "x < needed")
    case True
    with r have "f (x * 2) needed = Some y" by simp
    from IH [OF this] obtain k where "\<not> y < needed" "y = x * 2 * 2 ^ k" by blast
    then show ?thesis by (metis mult.assoc power_Suc)
  next
    case False
    with r show ?thesis by (auto intro: exI [of _ 0])
  qed
qed

text \<open>The sizes an arena takes: 4096 doubled up to 51 times, the largest power of two of 64 bits.\<close>

definition arena_size_at :: "nat \<Rightarrow> size_t" where
  "arena_size_at k = 4096 * 2 ^ k"

lemma unat_arena_size_at: "k \<le> 51 \<Longrightarrow> unat (arena_size_at k) = 4096 * 2 ^ k"
proof -
  assume "k \<le> 51"
  then have "(2 :: nat) ^ k \<le> 2 ^ 51" by (intro power_increasing) simp_all
  then have "unat (of_nat (4096 * 2 ^ k) :: size_t) = 4096 * 2 ^ k"
    by (simp only: unat_of_nat take_bit_eq_mod) simp
  then show ?thesis by (simp add: arena_size_at_def)
qed

lemma arena_size_wraps: "52 \<le> k \<Longrightarrow> arena_size_at k = 0"
proof -
  assume "52 \<le> k"
  then obtain j where "k = 52 + j" using le_Suc_ex by blast
  then have "arena_size_at k = 4096 * 2 ^ 52 * 2 ^ j" by (simp add: arena_size_at_def power_add)
  also have "(4096 * 2 ^ 52 :: size_t) = 0" by simp
  finally show ?thesis by simp
qed

lemma grow_size_returns:
  assumes "k \<le> 51" and "unat needed \<le> 2 ^ 63"
  shows "\<exists>j\<le>51. k \<le> j \<and> grow_size (arena_size_at k) needed = Some (arena_size_at j) \<and> unat needed \<le> unat (arena_size_at j)"
  using assms(1)
proof (induction "51 - k" arbitrary: k)
  case 0
  then have "k = 51" by simp
  moreover have "unat (arena_size_at 51) = 2 ^ 63" by (simp add: unat_arena_size_at)
  ultimately show ?case using assms(2) by (subst grow_size.simps) (auto simp: word_less_nat_alt)
next
  case (Suc n)
  show ?case
  proof (cases "arena_size_at k < needed")
    case True
    have "arena_size_at k * 2 = arena_size_at (Suc k)" by (simp add: arena_size_at_def)
    with True have "grow_size (arena_size_at k) needed = grow_size (arena_size_at (Suc k)) needed"
      by (subst grow_size.simps) simp
    moreover from Suc have "n = 51 - Suc k" "Suc k \<le> 51" by simp_all
    ultimately show ?thesis using Suc.hyps(1) [of "Suc k"] by auto
  next
    case False
    then have "grow_size (arena_size_at k) needed = Some (arena_size_at k)" by (subst grow_size.simps) simp
    with False Suc.prems show ?thesis by (intro exI [of _ k]) (auto simp: word_less_nat_alt)
  qed
qed

text \<open>A request of more than half the address space makes the doubling loop run forever.\<close>

lemma grow_size_diverges:
  assumes "2 ^ 63 < unat needed"
  shows "grow_size (arena_size_at k) needed = None"
proof (rule ccontr)
  assume "grow_size (arena_size_at k) needed \<noteq> None"
  then obtain y where "grow_size (arena_size_at k) needed = Some y" by blast
  from grow_size_Some [OF this] obtain j where "\<not> y < needed" "y = arena_size_at k * 2 ^ j" by blast
  then have y: "\<not> arena_size_at (k + j) < needed" by (simp add: arena_size_at_def power_add ac_simps)
  show False
  proof (cases "k + j \<le> 51")
    case True
    then have "(2 :: nat) ^ (k + j) \<le> 2 ^ 51" by (intro power_increasing) simp_all
    then have "unat (arena_size_at (k + j)) \<le> 2 ^ 63" using unat_arena_size_at [OF True] by simp
    with y assms show False by (simp add: word_less_nat_alt)
  next
    case False
    then show False using y assms arena_size_wraps [of "k + j"] by (simp add: word_less_nat_alt)
  qed
qed

lemma unat_and_not_mask: "unat ((x :: size_t) AND NOT (mask k)) = unat x - unat x mod 2 ^ k"
proof -
  have "x AND NOT (mask k) = push_bit k (drop_bit k x)"
    by (rule bit_word_eqI) (auto simp: bit_simps)
  also have "\<dots> = x - take_bit k x"
    using bits_ident [of k x] by (simp add: eq_diff_eq)
  finally have eq: "x AND NOT (mask k) = x - take_bit k x" .
  have t: "unat (take_bit k x) = unat x mod 2 ^ k" by (subst unsigned_take_bit_eq) (rule take_bit_eq_mod)
  then have "take_bit k x \<le> x" by (simp add: word_le_nat_alt)
  with t show ?thesis by (simp add: eq unat_sub)
qed

lemma unat_plus: "unat (x :: size_t) + unat y < 2 ^ 64 \<Longrightarrow> unat (x + y) = unat x + unat y"
  by (simp add: unat_word_ariths)

text \<open>Rounding an address up to a power of two.\<close>

lemma padding_spec:
  assumes "k < 64" and "unat (ar_base a) + unat (ar_used a) + 2 ^ k \<le> 2 ^ 64"
  shows "unat (padding a (2 ^ k)) = (2 ^ k - (unat (ar_base a) + unat (ar_used a)) mod 2 ^ k) mod 2 ^ k"
proof -
  let ?c = "unat (ar_base a) + unat (ar_used a)"
  define cur where "cur = ar_base a + ar_used a"
  have pos: "(0 :: nat) < 2 ^ k" by simp
  have cur: "unat cur = ?c" unfolding cur_def by (rule unat_plus) (use assms(2) pos in linarith)
  have "unat (of_nat (2 ^ k) :: size_t) = 2 ^ k"
    using power_strict_increasing [OF assms(1), of "2 :: nat"]
    by (simp only: unat_of_nat take_bit_eq_mod) simp
  then have two: "unat (2 ^ k :: size_t) = 2 ^ k" by simp
  then have "(2 ^ k :: size_t) \<noteq> 0" by (metis pos less_irrefl unsigned_0)
  then have mask: "unat (mask k :: size_t) = 2 ^ k - 1"
    by (simp add: mask_eq_exp_minus_1 unat_decrement two)
  have sum: "unat (cur + mask k) = ?c + (2 ^ k - 1)"
    using unat_plus [of cur "mask k"] assms(2) pos by (simp add: cur mask)
  define q r where "q = ?c div 2 ^ k" and "r = ?c mod 2 ^ k"
  have c: "?c = q * 2 ^ k + r" unfolding q_def r_def by (rule div_mult_mod_eq [symmetric])
  have r: "r < 2 ^ k" by (simp add: r_def)
  have m: "(x * 2 ^ k + s) mod 2 ^ k = s" if "s < 2 ^ k" for x s :: nat using that by simp
  have up: "unat ((cur + mask k) AND NOT (mask k)) = ?c + (2 ^ k - r) mod 2 ^ k"
  proof (cases "r = 0")
    case True
    have "?c + (2 ^ k - 1) = q * 2 ^ k + (2 ^ k - 1)" by (simp only: c True add_0_right)
    then have "(?c + (2 ^ k - 1)) mod 2 ^ k = 2 ^ k - 1" by (simp only: m diff_less pos zero_less_one)
    with True show ?thesis by (simp add: unat_and_not_mask sum)
  next
    case False
    have "?c + (2 ^ k - 1) = (q + 1) * 2 ^ k + (r - 1)" using False pos by (simp add: c)
    then have "(?c + (2 ^ k - 1)) mod 2 ^ k = r - 1" using r by (simp only: m less_imp_diff_less)
    with False r show ?thesis by (simp add: unat_and_not_mask sum)
  qed
  have "cur \<le> (cur + mask k) AND NOT (mask k)" by (simp add: word_le_nat_alt up cur)
  then show ?thesis by (simp add: padding_def Let_def flip: cur_def mask_eq_exp_minus_1) (simp add: unat_sub up cur r_def)
qed

text \<open>The documented behaviour of the allocator: blocks are 16-byte aligned and end below the top of the address space.\<close>

definition realloc_ok :: "(size_t \<Rightarrow> u64 option) \<Rightarrow> bool" where
  "realloc_ok realloc \<longleftrightarrow> (\<forall>m b. realloc m = Some b \<longrightarrow> 16 dvd unat b \<and> unat b + unat m + 16 \<le> 2 ^ 64)"

definition arena_ok :: "ioh_arena \<Rightarrow> bool" where
  "arena_ok a \<longleftrightarrow>
     16 dvd unat (ar_base a) \<and> unat (ar_base a) + unat (ar_size a) + 16 \<le> 2 ^ 64 \<and>
     unat (ar_used a) \<le> unat (ar_size a) \<and> (\<exists>k\<le>51. ar_size a = arena_size_at k)"

lemma ensure_space_ok:
  assumes "arena_ok a" and "realloc_ok realloc" and "unat needed \<le> 2 ^ 63"
  obtains (same) "ensure_space realloc a needed = Some (Some a)" "unat needed \<le> unat (ar_size a)"
    | (refused) "ensure_space realloc a needed = Some None"
    | (grown) a' where "ensure_space realloc a needed = Some (Some a')" "arena_ok a'" "ar_used a' = ar_used a"
        "unat needed \<le> unat (ar_size a')"
proof (cases "needed > ar_size a")
  case False
  then show ?thesis by (intro that(1)) (simp_all add: ensure_space_def word_less_nat_alt)
next
  case True
  obtain k where k: "k \<le> 51" "ar_size a = arena_size_at k" using assms(1) by (auto simp: arena_ok_def)
  obtain j where j: "j \<le> 51" "k \<le> j" "grow_size (ar_size a) needed = Some (arena_size_at j)"
      "unat needed \<le> unat (arena_size_at j)"
    using grow_size_returns [OF k(1) assms(3)] k(2) by auto
  show ?thesis
  proof (cases "realloc (arena_size_at j)")
    case None
    with True j show ?thesis by (intro that(2)) (simp add: ensure_space_def arena_grow_def)
  next
    case (Some b)
    let ?a = "a\<lparr>ar_base := b, ar_size := arena_size_at j\<rparr>"
    have "unat (ar_used a) \<le> unat (arena_size_at j)"
      using assms(1) j(4) True by (simp add: arena_ok_def word_less_nat_alt)
    then have "arena_ok ?a" using assms(2) Some j(1) by (auto simp: arena_ok_def realloc_ok_def)
    with True j Some show ?thesis by (intro that(3) [of ?a]) (simp_all add: ensure_space_def arena_grow_def)
  qed
qed

lemma padding_aligned:
  assumes "arena_ok a" and "k \<le> 4"
  shows "unat (padding a (2 ^ k)) = (2 ^ k - unat (ar_used a) mod 2 ^ k) mod 2 ^ k"
proof -
  have le: "(2 :: nat) ^ k \<le> 16" using power_increasing [OF assms(2), of "2 :: nat"] by simp
  have "(2 :: nat) ^ k dvd 2 ^ 4" using assms(2) by (rule le_imp_power_dvd)
  then have "2 ^ k dvd unat (ar_base a)" using assms(1) by (auto simp: arena_ok_def intro: dvd_trans)
  then have "(unat (ar_base a) + unat (ar_used a)) mod 2 ^ k = unat (ar_used a) mod 2 ^ k" by auto
  moreover have "unat (ar_base a) + unat (ar_used a) + 2 ^ k \<le> 2 ^ 64" using assms(1) le by (simp add: arena_ok_def)
  ultimately show ?thesis using padding_spec [of k a] assms(2) by simp
qed

lemma alloc_from:
  assumes ok: "arena_ok a" and k: "k \<le> 4"
    and fits: "unat (ar_used a) + unat (padding a (2 ^ k)) + unat n \<le> unat (ar_size a)"
  defines "u \<equiv> ar_used a + padding a (2 ^ k)"
  defines "p \<equiv> ar_base a + u" and "a' \<equiv> a\<lparr>ar_used := u + n\<rparr>"
  shows "arena_ok a' \<and> 2 ^ k dvd unat p \<and> unat (ar_base a) + unat (ar_used a) \<le> unat p \<and>
     unat p + unat n = unat (ar_base a) + unat (ar_used a')"
proof -
  have top: "unat (ar_base a) + unat (ar_size a) + 16 \<le> 2 ^ 64" using ok by (simp add: arena_ok_def)
  have u: "unat u = unat (ar_used a) + unat (padding a (2 ^ k))"
    unfolding u_def by (rule unat_plus) (use fits top in linarith)
  have un: "unat (u + n) = unat u + unat n" by (rule unat_plus) (use fits u top in linarith)
  have p: "unat p = unat (ar_base a) + unat u" unfolding p_def by (rule unat_plus) (use fits u top in linarith)
  have le: "(2 :: nat) ^ k dvd 2 ^ 4" using k by (rule le_imp_power_dvd)
  then have b: "2 ^ k dvd unat (ar_base a)" using ok by (auto simp: arena_ok_def intro: dvd_trans)
  let ?x = "unat (ar_used a) mod 2 ^ k"
  have "unat (ar_used a) = unat (ar_used a) div 2 ^ k * 2 ^ k + ?x" by (rule div_mult_mod_eq [symmetric])
  moreover have "?x < 2 ^ k" by simp
  ultimately have "unat (ar_used a) + (2 ^ k - ?x) = (unat (ar_used a) div 2 ^ k + 1) * 2 ^ k"
    by (simp only: distrib_right mult_1 nat_mult_1)
  then have "2 ^ k dvd unat (ar_used a) + (2 ^ k - ?x)" by (metis dvd_triv_right)
  then have "2 ^ k dvd unat u" by (simp only: u padding_aligned [OF ok k] dvd_eq_mod_eq_0 mod_add_right_eq)
  with b have "2 ^ k dvd unat p" by (simp add: p)
  moreover have "arena_ok a'" using ok fits u un by (auto simp: arena_ok_def a'_def)
  ultimately show ?thesis by (simp add: p u un a'_def)
qed

lemma padding_one: "padding a 1 = 0"
  by (simp add: padding_def)

text \<open>The unaligned allocator is the aligned one with alignment one.\<close>

lemma ctx_alloc_eq_aligned: "ioh_ctx_alloc realloc a n = ioh_ctx_alloc_aligned realloc a n 1"
  by (auto simp: ioh_ctx_alloc_def ioh_ctx_alloc_aligned_def padding_one Let_def split: option.splits)

lemma power_alignment: "k \<le> 4 \<Longrightarrow> (2 ^ k :: size_t) \<noteq> 0 \<and> 2 ^ k AND (2 ^ k - 1 :: size_t) = 0"
proof -
  assume "k \<le> 4"
  then have "k = 0 \<or> k = 1 \<or> k = 2 \<or> k = 3 \<or> k = 4" by arith
  then show ?thesis by auto
qed

text \<open>
  With an alignment above that of the allocator the check before growing is not enough: the padding is
  recomputed after the move, and the block can end beyond the arena.
\<close>

lemma ctx_alloc_aligned_overflows:
  "\<exists>a'. ioh_ctx_alloc_aligned (\<lambda>_. Some 0x10010) \<lparr>ar_base = 0x2000, ar_size = 4096, ar_used = 4096\<rparr> 4096 64 =
     Some (Some (0x10010 + 4096 + 48), a') \<and> unat (ar_used a') = 8240 \<and> unat (ar_size a') = 8192"
proof -
  have "padding \<lparr>ar_base = 0x2000, ar_size = 4096, ar_used = 4096\<rparr> 64 = 0"
    by (simp add: padding_def)
  moreover have "padding \<lparr>ar_base = 0x10010, ar_size = 8192, ar_used = 4096\<rparr> 64 = 48"
    by (simp add: padding_def)
  moreover have "grow_size 4096 8192 = Some 8192"
    by (subst grow_size.simps, simp, subst grow_size.simps, simp)
  ultimately show ?thesis
    by (simp add: ioh_ctx_alloc_aligned_def ensure_space_def arena_grow_def)
qed

text \<open>Growing moves the arena, and a pointer handed out before points outside the new block.\<close>

lemma ctx_alloc_moves_arena:
  "\<exists>a'. ioh_ctx_alloc (\<lambda>_. Some 0x10000) \<lparr>ar_base = 0x2000, ar_size = 4096, ar_used = 33\<rparr> 4096 =
     Some (Some (0x10000 + 33), a') \<and> ar_base a' = 0x10000 \<and> ar_size a' = 8192 \<and>
     \<not> (ar_base a' \<le> 0x2000 \<and> 0x2000 < ar_base a' + ar_size a')"
proof -
  have "grow_size 4096 4129 = Some 8192"
    by (subst grow_size.simps, simp, subst grow_size.simps, simp)
  then show ?thesis by (simp add: ioh_ctx_alloc_def ensure_space_def arena_grow_def)
qed

subsection \<open>Properties\<close>

text \<open>C36: The arena allocator is sound for every alignment up to that of the C allocator (16 bytes): a request of
  at most half the address space always returns; when it returns a block, the block is aligned, starts at or
  after the bytes handed out before, ends exactly at the new fill level and lies inside the arena, growing or
  not; when the allocator refuses to grow nothing changes.\<close>

theorem arena_alloc_sound:
  assumes ok: "arena_ok a" and realloc: "realloc_ok realloc" and k: "k \<le> 4" and n: "n \<noteq> 0"
    and small: "unat (ar_used a) + unat n + 16 \<le> 2 ^ 63"
  shows "\<exists>r a'. ioh_ctx_alloc_aligned realloc a n (2 ^ k) = Some (r, a') \<and> arena_ok a' \<and>
    (case r of
       None \<Rightarrow> a' = a
     | Some p \<Rightarrow> 2 ^ k dvd unat p \<and> unat (ar_base a') + unat (ar_used a) \<le> unat p \<and>
         unat p + unat n = unat (ar_base a') + unat (ar_used a') \<and> unat (ar_used a') \<le> unat (ar_size a'))"
proof -
  let ?needed = "ar_used a + padding a (2 ^ k) + n"
  have "unat (padding a (2 ^ k)) < 2 ^ k" by (simp add: padding_aligned [OF ok k])
  also have "(2 :: nat) ^ k \<le> 2 ^ 4" using k by (rule power_increasing) simp
  finally have pad: "unat (padding a (2 ^ k)) < 16" by simp
  have 1: "unat (ar_used a + padding a (2 ^ k)) = unat (ar_used a) + unat (padding a (2 ^ k))"
    by (rule unat_plus) (use small pad in simp)
  have needed: "unat ?needed = unat (ar_used a) + unat (padding a (2 ^ k)) + unat n"
    using unat_plus [of "ar_used a + padding a (2 ^ k)" n] 1 small pad by simp
  have "unat ?needed \<le> 2 ^ 63" using needed small pad by simp
  from ok realloc this show ?thesis
  proof (cases rule: ensure_space_ok)
    case same
    have fits: "unat (ar_used a) + unat (padding a (2 ^ k)) + unat n \<le> unat (ar_size a)" using same(2) needed by simp
    from alloc_from [OF ok k fits] same(1) n power_alignment [OF k] show ?thesis
      by (auto simp: ioh_ctx_alloc_aligned_def Let_def arena_ok_def)
  next
    case refused
    with ok n power_alignment [OF k] show ?thesis by (simp add: ioh_ctx_alloc_aligned_def)
  next
    case (grown a')
    have "unat (padding a' (2 ^ k)) = unat (padding a (2 ^ k))"
      by (simp add: padding_aligned [OF ok k] padding_aligned [OF grown(2) k] grown(3))
    then have fits: "unat (ar_used a') + unat (padding a' (2 ^ k)) + unat n \<le> unat (ar_size a')"
      using grown(3,4) needed by simp
    from alloc_from [OF grown(2) k fits] grown(1,3) n power_alignment [OF k] show ?thesis
      by (auto simp: ioh_ctx_alloc_aligned_def Let_def arena_ok_def)
  qed
qed

theorem arena_alloc_sound_witness:
  "\<exists>p a'. ioh_ctx_alloc_aligned (\<lambda>_. None) \<lparr>ar_base = 0x2000, ar_size = 4096, ar_used = 33\<rparr> 100 16 = Some (Some p, a') \<and>
     16 dvd unat p \<and> unat (ar_used a') = 148"
proof -
  let ?a = "\<lparr>ar_base = 0x2000, ar_size = 4096, ar_used = 33\<rparr>"
  have "arena_ok ?a" by (auto simp: arena_ok_def arena_size_at_def intro: exI [of _ 0])
  moreover have "realloc_ok (\<lambda>_. None)" by (simp add: realloc_ok_def)
  ultimately have "\<exists>r a'. ioh_ctx_alloc_aligned (\<lambda>_. None) ?a 100 (2 ^ 4) = Some (r, a') \<and> arena_ok a' \<and>
      (case r of None \<Rightarrow> a' = ?a | Some p \<Rightarrow> 2 ^ 4 dvd unat p \<and> unat (ar_base a') + unat (ar_used ?a) \<le> unat p \<and>
         unat p + unat (100 :: size_t) = unat (ar_base a') + unat (ar_used a') \<and> unat (ar_used a') \<le> unat (ar_size a'))"
    by (rule arena_alloc_sound) simp_all
  then obtain r a' where r: "ioh_ctx_alloc_aligned (\<lambda>_. None) ?a 100 (2 ^ 4) = Some (r, a')"
      "case r of None \<Rightarrow> a' = ?a | Some p \<Rightarrow> 2 ^ 4 dvd unat p \<and> unat (ar_base a') + unat (ar_used ?a) \<le> unat p \<and>
         unat p + unat (100 :: size_t) = unat (ar_base a') + unat (ar_used a') \<and> unat (ar_used a') \<le> unat (ar_size a')"
    by blast
  have "padding ?a 16 = 15" by (simp add: padding_def)
  then have "r = Some 8240" "unat (ar_used a') = 148" using r(1)
    by (auto simp: ioh_ctx_alloc_aligned_def ensure_space_def)
  with r show ?thesis by auto
qed

end
