(* ===== verification/Radix_Insert.thy ===== *)
theory Radix_Insert
  imports Radix_Routes
begin

text \<open>
  The contract of insertion: the routes of the trie grow by exactly the tokens of the pattern, its
  segment boundaries become nodes, and the well-formedness of the trie is kept.
\<close>

text \<open>The positions at which a segment of a pattern ends.\<close>

function bounds :: "string \<Rightarrow> token list set" where
  "bounds pat =
     (if pat = [] then {[]}
      else (case next_segment pat of
          (None, _) \<Rightarrow> {[]}
        | (Some [], _) \<Rightarrow> {[]}
        | (Some (s # name), rest) \<Rightarrow>
            if s = CHR ''*'' then {[]}
            else if s = CHR '':'' then insert [] ((#) (Par name) ` bounds rest)
            else insert [] ((@) (map Ch (s # name)) ` bounds rest)))"
  by pat_completeness auto
termination
  by (relation "measure length") (auto dest: next_segment_shorter [OF sym])

declare bounds.simps [simp del]

subsection \<open>What one insertion does to the routes\<close>

text \<open>
  The contract of an insertion below a node: the node keeps its edge and its invariant; on success
  the key was free and is the only route added, and the trie has a node at each position of
  \<open>bs\<close>; on failure no route is added or lost.  No position loses its node.
\<close>

definition insert_spec ::
  "('h, 'o, 'm) rnode \<Rightarrow> (unit, ('h, 'o, 'm) rnode) outcome \<Rightarrow> token list \<Rightarrow> token list set
   \<Rightarrow> ('h, 'o, 'm) route_val \<Rightarrow> bool" where
  "insert_spec n r key bs v \<longleftrightarrow>
     wf_node (snd r) \<and> same_edge n (snd r) \<and> (\<forall>ts. node_at n ts \<longrightarrow> node_at (snd r) ts) \<and>
     (case fst r of
        Inr _ \<Rightarrow> (\<forall>v'. \<not> route n key v') \<and> (\<forall>b\<in>bs. node_at (snd r) b) \<and>
                 (\<forall>ts v'. route (snd r) ts v' \<longleftrightarrow> route n ts v' \<or> ts = key \<and> v' = v)
      | Inl _ \<Rightarrow> (\<forall>ts v'. route (snd r) ts v' = route n ts v'))"

lemma insert_spec_unchanged: "wf_node n \<Longrightarrow> insert_spec n (Inl e, n) key bs v"
  by (simp add: insert_spec_def)

lemma insert_spec_increment:
  "insert_spec n (rc, n') key bs v \<Longrightarrow> insert_spec n (rc, ioh_radix_increment_priority n') key bs v"
  "insert_spec (ioh_radix_increment_priority n) r key bs v \<Longrightarrow> insert_spec n r key bs v"
  by (auto simp: insert_spec_def split: sum.splits)

lemma insert_spec_here:
  "insert_spec n r key bs v \<Longrightarrow> insert_spec n r key (insert [] bs) v"
  "insert_spec n r key bs v \<Longrightarrow> insert_spec n r key {[]} v"
  by (auto simp: insert_spec_def split: sum.splits)

lemma insert_spec_set_handler:
  assumes "wf_node n"
  shows "insert_spec n (set_handler_here v n) [] {[]} v"
proof (cases "nhandler n")
  case None
  let ?n' = "store_route v n"
  have sel: "nchildren ?n' = nchildren n" "same_edge n ?n'" "node_val (ndata ?n') = Some v"
    by (simp_all add: store_route_def same_edge_def node_val_def)
  have "wf_node ?n'" using assms wf_node_children [OF sel(1)] by simp
  moreover have "\<not> route n [] v'" for v'
    using None by (simp add: route_Nil [OF assms] node_val_def)
  moreover have "node_val (ndata n) = None" using None by (simp add: node_val_def)
  then have "route ?n' ts v' \<longleftrightarrow> route n ts v' \<or> ts = [] \<and> v' = v" for ts v'
    unfolding route_iff [of n] route_iff [of ?n'] by (auto simp: sel)
  ultimately show ?thesis
    using None sel(2) node_at_children [OF sel(1)] by (simp add: insert_spec_def set_handler_here_def)
next
  case (Some h)
  then show ?thesis by (simp add: set_handler_here_def insert_spec_unchanged assms)
qed

text \<open>
  Lifting the contract from a child to its parent: \<open>c0\<close> stands in the slot of child \<open>i\<close> with
  the same routes (it is that child, or that child after a split), and \<open>r\<close> is the outcome of
  inserting below it.
\<close>

lemma insert_spec_put_child:
  assumes wf: "wf_node n" and i: "i < length (nchildren n)"
    and c0: "wf_edge c0" "ntype c0 \<noteq> NODE_WILDCARD \<or> nchildren (snd r) = []"
      "ckey c0 = ckey (nchildren n ! i)"
    and same: "\<And>ts v. edge_route c0 ts v = edge_route (nchildren n ! i) ts v"
    and nodes: "\<And>ts. edge_node (nchildren n ! i) ts \<Longrightarrow> edge_node c0 ts"
    and spec: "insert_spec c0 r key bs v"
  shows "insert_spec n (map_prod id (\<lambda>c'. Node (ndata n) ((nchildren n)[i := c'])) r)
           (label c0 @ key) ((@) (label c0) ` bs) v"
proof -
  obtain rc c' where r: "r = (rc, c')" by (cases r)
  let ?c = "nchildren n ! i"
  let ?cs = "(nchildren n)[i := c']"
  have c': "wf_node c'" "same_edge c0 c'" using spec by (auto simp: insert_spec_def r)
  note edge' = same_edge_wf_edge [OF c'(2) c0(2) [unfolded r snd_conv] c0(1)]
  have key: "ckey c' = ckey ?c" using same_edge_ckey [OF c'(2)] c0(3) by simp
  have "map ckey ?cs = map ckey (nchildren n)"
    using i key by (metis list_update_id map_update nth_map)
  then have "distinct (map ckey ?cs)" using wf_nodeD(1) [OF wf] by simp
  moreover have "wf_edge c \<and> wf_node c" if "c \<in> set ?cs" for c
    using that set_update_subset_insert [of "nchildren n" i c'] c'(1) edge' wf_nodeD(2,3) [OF wf]
    by blast
  ultimately have wf': "wf_node (Node (ndata n) ?cs)"
    by (intro wf_nodeI) auto
  have idx: "(\<exists>c\<in>set ?cs. edge_route c ts v') \<longleftrightarrow>
      edge_route c' ts v' \<or> (\<exists>j<length (nchildren n). j \<noteq> i \<and> edge_route (nchildren n ! j) ts v')" for ts v'
    by (rule bex_list_update [OF i])
  have idx0: "(\<exists>c\<in>set (nchildren n). edge_route c ts v') \<longleftrightarrow>
      edge_route ?c ts v' \<or> (\<exists>j<length (nchildren n). j \<noteq> i \<and> edge_route (nchildren n ! j) ts v')" for ts v'
    by (rule bex_list_split [OF i])
  have upd: "(\<And>ts v'. edge_route c' ts v' \<longleftrightarrow> edge_route ?c ts v' \<or> Q ts v') \<Longrightarrow>
      route (Node (ndata n) ?cs) ts v' \<longleftrightarrow> route n ts v' \<or> Q ts v'" for Q ts v'
    unfolding route_iff [of n] route_iff [of "Node (ndata n) ?cs"] rnode.sel idx idx0 by blast
  have lab: "label c' = label c0" by (rule same_edge_label [OF c'(2)])
  have sub: "edge_node c' ts" if "edge_node c0 ts" for ts
    using that spec by (auto simp: edge_node_def lab insert_spec_def r)
  have mono: "node_at (Node (ndata n) ?cs) ts" if "node_at n ts" for ts
    using that sub nodes unfolding node_at_iff [of n] node_at_iff [of "Node (ndata n) ?cs"] rnode.sel
      bex_list_update [OF i] bex_list_split [OF i] by blast
  have nodes': "node_at (Node (ndata n) ?cs) (label c0 @ ts)" if "node_at c' ts" for ts
    using that unfolding node_at_iff [of "Node (ndata n) ?cs"] rnode.sel bex_list_update [OF i]
    by (auto simp: edge_node_def lab)
  have fresh: "\<not> route n (label c0 @ key) v'" if "\<forall>v'. \<not> route c0 key v'" for v'
  proof
    assume "route n (label c0 @ key) v'"
    then obtain d where d: "d \<in> set (nchildren n)" "edge_route d (label c0 @ key) v'"
      using label_nonempty [OF c0(1)] unfolding route_iff [of n] by blast
    then obtain ts' where "label c0 @ key = label d @ ts'" by (auto simp: edge_route_def)
    then have "ckey c0 = ckey d" by (rule label_ckey [OF c0(1) wf_nodeD(2) [OF wf d(1)]])
    then have "d = ?c" using c0(3) wf_nodeD(1) [OF wf] d(1) i by (auto simp: distinct_map inj_on_def)
    with d(2) same have "edge_route c0 (label c0 @ key) v'" by simp
    then have "route c0 key v'" unfolding edge_route_def by simp
    with that show False by blast
  qed
  show ?thesis
  proof (cases rc)
    case (Inl e)
    then have "route c' ts v' = route c0 ts v'" for ts v'
      using spec by (simp add: insert_spec_def r)
    then have "edge_route c' ts v' \<longleftrightarrow> edge_route ?c ts v' \<or> False" for ts v'
      using same by (simp add: edge_route_def lab)
    from upd [OF this] wf' mono show ?thesis
      by (simp add: insert_spec_def r Inl same_edge_def)
  next
    case (Inr u)
    then have free: "\<forall>v'. \<not> route c0 key v'"
      and add: "\<And>ts v'. route c' ts v' \<longleftrightarrow> route c0 ts v' \<or> ts = key \<and> v' = v"
      using spec by (auto simp: insert_spec_def r)
    from add have "edge_route c' ts v' \<longleftrightarrow> edge_route ?c ts v' \<or> ts = label c0 @ key \<and> v' = v" for ts v'
      unfolding same [symmetric] by (auto simp: edge_route_def lab)
    moreover have "node_at c' b" if "b \<in> bs" for b
      using that spec by (simp add: insert_spec_def r Inr)
    ultimately show ?thesis using upd wf' mono nodes' fresh [OF free]
      by (simp add: insert_spec_def r Inr same_edge_def)
  qed
qed

text \<open>Lifting the contract from a fresh child that is then hung below a node.\<close>

lemma insert_spec_add_child:
  assumes wf: "wf_node n" and c0: "wf_edge c0" "ntype c0 \<noteq> NODE_WILDCARD" "ckey c0 \<notin> ckey ` set (nchildren n)"
    and empty: "\<And>ts v. \<not> route c0 ts v"
    and spec: "insert_spec c0 (rc, c') key bs v"
  shows "insert_spec n (rc, ioh_radix_node_add_child n c') (label c0 @ key) ((@) (label c0) ` bs) v"
proof -
  have c': "wf_node c'" "same_edge c0 c'" using spec by (auto simp: insert_spec_def)
  have "ckey c' \<notin> ckey ` set (nchildren n)" using same_edge_ckey [OF c'(2)] c0(3) by simp
  then have wf': "wf_node (ioh_radix_node_add_child n c')"
    using wf_nodeD [OF wf] c' same_edge_wf_edge [OF c'(2) disjI1 [OF c0(2)] c0(1)]
    by (intro wf_nodeI) (auto simp: distinct_ckey_insert_child)
  have lab: "label c' = label c0" by (rule same_edge_label [OF c'(2)])
  have upd: "route (ioh_radix_node_add_child n c') ts v' \<longleftrightarrow> route n ts v' \<or> edge_route c' ts v'" for ts v'
    unfolding route_iff [of n] route_iff [of "ioh_radix_node_add_child n c'"] by auto
  have mono: "node_at (ioh_radix_node_add_child n c') ts" if "node_at n ts" for ts
    using that unfolding node_at_iff [of n] node_at_iff [of "ioh_radix_node_add_child n c'"] by auto
  have nodes': "node_at (ioh_radix_node_add_child n c') (label c0 @ ts)" if "node_at c' ts" for ts
    using that unfolding node_at_iff [of "ioh_radix_node_add_child n c'"]
    by (auto simp: edge_node_def lab)
  have fresh: "\<not> route n (label c0 @ key) v'" for v'
  proof
    assume "route n (label c0 @ key) v'"
    then obtain d where d: "d \<in> set (nchildren n)" "edge_route d (label c0 @ key) v'"
      using label_nonempty [OF c0(1)] unfolding route_iff [of n] by blast
    then obtain ts' where "label c0 @ key = label d @ ts'" by (auto simp: edge_route_def)
    then have "ckey c0 = ckey d" by (rule label_ckey [OF c0(1) wf_nodeD(2) [OF wf d(1)]])
    with d(1) c0(3) show False by auto
  qed
  show ?thesis
  proof (cases rc)
    case (Inl e)
    with spec empty have "\<not> edge_route c' ts v'" for ts v'
      unfolding insert_spec_def edge_route_def by simp
    with upd wf' mono show ?thesis by (simp add: insert_spec_def Inl same_edge_def)
  next
    case (Inr u)
    with spec empty have "route c' ts v' \<longleftrightarrow> ts = key \<and> v' = v" for ts v'
      unfolding insert_spec_def by simp
    then have "edge_route c' ts v' \<longleftrightarrow> ts = label c0 @ key \<and> v' = v" for ts v'
      unfolding edge_route_def lab by simp
    moreover have "node_at c' b" if "b \<in> bs" for b
      using that spec by (simp add: insert_spec_def Inr)
    ultimately show ?thesis using upd wf' fresh mono nodes'
      by (simp add: insert_spec_def Inr same_edge_def)
  qed
qed

subsection \<open>Insertion adds exactly the tokens of its pattern\<close>

lemma common_prefix_len_le:
  "common_prefix_len a b \<le> length a" "common_prefix_len a b \<le> length b"
  by (induction a b rule: common_prefix_len.induct) auto

lemma common_prefix_len_take:
  "take (common_prefix_len a b) a = take (common_prefix_len a b) b"
  by (induction a b rule: common_prefix_len.induct) auto

lemma common_prefix_len_segment:
  "slash \<notin> set p \<Longrightarrow> rest = [] \<or> hd rest = slash \<Longrightarrow>
     common_prefix_len (seg @ rest) p = common_prefix_len seg p"
proof (induction seg arbitrary: p)
  case Nil
  then show ?case by (cases rest; cases p) auto
next
  case (Cons a seg)
  then show ?case by (cases p) auto
qed

lemma common_prefix_len_diff:
  "common_prefix_len a b < length a \<Longrightarrow> common_prefix_len a b < length b \<Longrightarrow>
     hd (drop (common_prefix_len a b) a) \<noteq> hd (drop (common_prefix_len a b) b)"
  by (induction a b rule: common_prefix_len.induct) auto

lemma find_static_child_None:
  "find_static_child s cs = None \<Longrightarrow> c \<in> set cs \<Longrightarrow> ntype c = NODE_STATIC \<Longrightarrow>
     common_prefix_len s (nprefix c) = 0"
  by (induction cs) (auto split: if_splits)

lemma find_child_of_type_None:
  "find_child_of_type ty cs = None \<Longrightarrow> c \<in> set cs \<Longrightarrow> ntype c \<noteq> ty"
  by (induction cs) (auto split: if_splits)

lemma fresh_type_ckey:
  "find_child_of_type ty cs = None \<Longrightarrow> ntype c = ty \<Longrightarrow> ckey c \<notin> ckey ` set cs"
  using find_child_of_type_None [of ty cs] unfolding ckey_def by fastforce

lemma next_segment_SomeD:
  assumes "next_segment pat = (Some seg, rest)"
  shows "slash \<notin> set seg" and "rest = [] \<or> hd rest = slash"
proof -
  from assms have eq: "seg = takeWhile (\<lambda>c. c \<noteq> slash) (skip_slash pat)"
      "rest = dropWhile (\<lambda>c. c \<noteq> slash) (skip_slash pat)"
    by (auto simp: next_segment_def Let_def split: if_splits)
  show "slash \<notin> set seg" unfolding eq(1) by (rule takeWhile_no_delim)
  show "rest = [] \<or> hd rest = slash" unfolding eq(2) by (rule dropWhile_starts_with_delim)
qed

lemma label_static: "ntype c = NODE_STATIC \<Longrightarrow> label c = map Ch (nprefix c)"
  by (simp add: label_def)

lemma label_create_static [simp]: "label (ioh_radix_node_create p NODE_STATIC) = map Ch p"
  by (simp add: label_def)

lemma label_named [simp]: "label (named_node NODE_PARAM name) = [Par name]"
  by (simp add: label_def)

lemma wf_edge_create:
  "wf_edge (ioh_radix_node_create p NODE_STATIC) \<longleftrightarrow> p \<noteq> [] \<and> slash \<notin> set p"
  by (simp add: wf_edge_def)

text \<open>No static child shares a character with the segment: a fresh edge is free.\<close>

lemma fresh_static_ckey:
  assumes "wf_node n" and "find_static_child (seg @ rest) (nchildren n) = None" and "seg \<noteq> []"
  shows "ckey (ioh_radix_node_create seg NODE_STATIC) \<notin> ckey ` set (nchildren n)"
proof
  assume "ckey (ioh_radix_node_create seg NODE_STATIC) \<in> ckey ` set (nchildren n)"
  then obtain c where c: "c \<in> set (nchildren n)" "ntype c = NODE_STATIC" "hd (nprefix c) = hd seg"
    by (auto simp: ckey_def split: if_splits)
  moreover have "nprefix c \<noteq> []"
    using wf_nodeD(2) [OF assms(1) c(1)] c(2) by (simp add: wf_edge_def)
  ultimately have "common_prefix_len (seg @ rest) (nprefix c) \<noteq> 0"
    using assms(3) by (cases seg; cases "nprefix c") auto
  with find_static_child_None [OF assms(2) c(1,2)] show False by simp
qed

text \<open>After a split at the common prefix the remainder of the segment is a free edge.\<close>

lemma insert_spec_split_branch:
  assumes c: "ntype c = NODE_STATIC" "wf_edge c" "wf_node c"
    and k: "k = common_prefix_len seg (nprefix c)" "0 < k" "k < length (nprefix c)" "k < length seg"
    and seg: "slash \<notin> set seg"
    and spec: "insert_spec (ioh_radix_node_create (drop k seg) NODE_STATIC) (rc, nc) key bs v"
  shows "insert_spec (split_static_node c k)
           (rc, ioh_radix_node_add_child (split_static_node c k) nc)
           (map Ch (drop k seg) @ key) ((@) (map Ch (drop k seg)) ` bs) v"
proof -
  have "hd (drop k seg) \<noteq> hd (drop k (nprefix c))"
    using common_prefix_len_diff [of seg "nprefix c"] k by simp
  then have "ckey (ioh_radix_node_create (drop k seg) NODE_STATIC) \<notin> ckey ` set (nchildren (split_static_node c k))"
    by (simp add: split_static_node_sel(4) [OF c(1)] ckey_def c(1))
  moreover have "wf_edge (ioh_radix_node_create (drop k seg) NODE_STATIC)"
    using k seg by (auto simp: wf_edge_create dest: in_set_dropD)
  ultimately show ?thesis
    using insert_spec_add_child [OF wf_split(1) [OF c k(2,3)] _ _ _ _ spec] by simp
qed

text \<open>What the search for a static child gives: a child that shares \<open>k\<close> characters.\<close>

lemma static_child_facts:
  assumes "wf_node n" and "find_static_child (seg @ rest) (nchildren n) = Some i"
    and "rest = [] \<or> hd rest = slash"
  shows "i < length (nchildren n)" and "ntype (nchildren n ! i) = NODE_STATIC"
    and "wf_edge (nchildren n ! i)" and "wf_node (nchildren n ! i)"
    and "common_prefix_len (seg @ rest) (nprefix (nchildren n ! i)) = common_prefix_len seg (nprefix (nchildren n ! i))"
    and "0 < common_prefix_len seg (nprefix (nchildren n ! i))"
proof -
  note f = find_static_child_SomeD [OF assms(2)]
  show i: "i < length (nchildren n)" and t: "ntype (nchildren n ! i) = NODE_STATIC" using f by auto
  show w: "wf_edge (nchildren n ! i)" and "wf_node (nchildren n ! i)"
    using wf_nodeD(2,3) [OF assms(1)] i by auto
  then show e: "common_prefix_len (seg @ rest) (nprefix (nchildren n ! i)) = common_prefix_len seg (nprefix (nchildren n ! i))"
    using t by (intro common_prefix_len_segment assms) (simp add: wf_edge_def)
  show "0 < common_prefix_len seg (nprefix (nchildren n ! i))" using f e by simp
qed

lemma map_Ch_split:
  "map Ch (take k xs) @ map Ch (drop k xs) @ ys = map Ch xs @ ys"
  "(@) (map Ch (take k xs)) ` (@) (map Ch (drop k xs)) ` B = (@) (map Ch xs) ` B"
proof -
  show eq: "map Ch (take k xs) @ map Ch (drop k xs) @ ys = map Ch xs @ ys" for ys
    by (metis append.assoc append_take_drop_id map_append)
  show "(@) (map Ch (take k xs)) ` (@) (map Ch (drop k xs)) ` B = (@) (map Ch xs) ` B"
    by (simp add: image_image eq)
qed



text \<open>The five ways \<open>insert_static_segment\<close> goes on, each reduced to the contract of its call.\<close>

lemma insert_static_fresh:
  assumes wf: "wf_node n" and seg: "seg \<noteq> []" "slash \<notin> set seg"
    and None: "find_static_child (seg @ rest) (nchildren n) = None"
    and ih: "insert_spec (ioh_radix_node_create seg NODE_STATIC)
               (insert_recursive (ioh_radix_node_create seg NODE_STATIC) rest v) key bs v"
  shows "insert_spec n (insert_static_segment n seg rest v) (map Ch seg @ key) ((@) (map Ch seg) ` bs) v"
proof -
  let ?c = "ioh_radix_node_create seg NODE_STATIC"
  obtain rc nc where r: "insert_recursive ?c rest v = (rc, nc)" by (rule prod.exhaust)
  have "insert_spec n (rc, ioh_radix_node_add_child n nc) (map Ch seg @ key) ((@) (map Ch seg) ` bs) v"
    using insert_spec_add_child [OF wf _ _ fresh_static_ckey [OF wf None seg(1)] _ ih [unfolded r]] seg
    by (simp add: wf_edge_create)
  then show ?thesis by (simp add: insert_static_segment.simps [of n] None r)
qed

lemma insert_static_found:
  assumes wf: "wf_node n" and seg: "slash \<notin> set seg" and rest: "rest = [] \<or> hd rest = slash"
    and Some: "find_static_child (seg @ rest) (nchildren n) = Some i"
    and c_def: "c = nchildren n ! i" and k_def: "k = common_prefix_len seg (nprefix c)"
    and whole: "k = length (nprefix c) \<Longrightarrow> k = length seg \<Longrightarrow>
        insert_spec c (insert_recursive c rest v) key bs v"
    and split: "k < length (nprefix c) \<Longrightarrow> k = length seg \<Longrightarrow>
        insert_spec (split_static_node c k) (insert_recursive (split_static_node c k) rest v) key bs v"
    and branch: "k < length (nprefix c) \<Longrightarrow> k < length seg \<Longrightarrow>
        insert_spec (ioh_radix_node_create (drop k seg) NODE_STATIC)
          (insert_recursive (ioh_radix_node_create (drop k seg) NODE_STATIC) rest v) key bs v"
    and deeper: "k = length (nprefix c) \<Longrightarrow> k < length seg \<Longrightarrow>
        insert_spec c (insert_static_segment c (drop k seg) rest v)
          (map Ch (drop k seg) @ key) ((@) (map Ch (drop k seg)) ` bs) v"
  shows "insert_spec n (insert_static_segment n seg rest v) (map Ch seg @ key) ((@) (map Ch seg) ` bs) v"
proof -
  note c = static_child_facts [OF wf Some rest, folded c_def, folded k_def]
  have k: "0 < k" "k \<le> length seg" "k \<le> length (nprefix c)" "take k seg = take k (nprefix c)"
    using c(6) common_prefix_len_le common_prefix_len_take by (simp_all add: k_def)
  have lift: "insert_spec n (map_prod id (\<lambda>c'. Node (ndata n) ((nchildren n)[i := c'])) r)
      (label c @ key') ((@) (label c) ` bs') v"
    if "insert_spec c r key' bs' v" for r key' bs'
    using insert_spec_put_child [OF wf c(1) _ _ _ _ _ that] c by (simp add: c_def)
  have lift': "insert_spec n (map_prod id (\<lambda>c'. Node (ndata n) ((nchildren n)[i := c'])) r)
      (map Ch (take k seg) @ key') ((@) (map Ch (take k seg)) ` bs') v"
    if "insert_spec (split_static_node c k) r key' bs' v" "k < length (nprefix c)" for r key' bs'
    using insert_spec_put_child [OF wf c(1) _ _ _ _ _ that(1)] wf_split [OF c(2-4) k(1) that(2)]
      edge_route_split [OF c(2)] edge_node_split [OF c(2)] split_static_node_sel(1,2) [OF c(2), of k] k(4)
    by (simp add: label_static c_def)
  note code = insert_static_segment.simps [of n] Some Let_def c(5) c_def [symmetric] k_def [symmetric]
  consider "k = length (nprefix c)" "k = length seg"
    | "k < length (nprefix c)" "k = length seg"
    | "k < length (nprefix c)" "k < length seg"
    | "k = length (nprefix c)" "k < length seg"
    using k by linarith
  then show ?thesis
  proof cases
    case 1
    then have "label c = map Ch seg" using k(4) by (simp add: label_static c(2))
    then show ?thesis using lift [OF whole [OF 1]] 1 by (simp add: code)
  next
    case 2
    then show ?thesis using lift' [OF split [OF 2] 2(1)] by (simp add: code)
  next
    case 3
    obtain rc nc where r: "insert_recursive (ioh_radix_node_create (drop k seg) NODE_STATIC) rest v = (rc, nc)"
      by (rule prod.exhaust)
    show ?thesis
      using lift' [OF insert_spec_split_branch [OF c(2-4) k_def k(1) 3 seg branch [OF 3, unfolded r]] 3(1)] 3
      by (simp add: code r map_Ch_split)
  next
    case 4
    then have "label c = map Ch (take k seg)" using k(4) by (simp add: label_static c(2))
    then show ?thesis using lift [OF deeper [OF 4]] 4 by (simp only: map_Ch_split) (simp add: code)
  qed
qed

lemma insert_static_segment_contract:
  assumes wf: "wf_node n" and seg: "seg \<noteq> []" "slash \<notin> set seg" and rest: "rest = [] \<or> hd rest = slash"
    and ih: "\<And>n. wf_node n \<Longrightarrow> insert_spec n (insert_recursive n rest v) key bs v"
  shows "insert_spec n (insert_static_segment n seg rest v) (map Ch seg @ key) ((@) (map Ch seg) ` bs) v"
  using wf seg
proof (induction "size n" arbitrary: n seg rule: less_induct)
  case less
  show ?case
  proof (cases "find_static_child (seg @ rest) (nchildren n)")
    case None
    then show ?thesis
      by (rule insert_static_fresh [OF less.prems]) (simp add: ih)
  next
    case (Some i)
    note c = static_child_facts [OF less.prems(1) Some rest]
    show ?thesis
      by (rule insert_static_found [OF less.prems(1,3) rest Some refl refl])
        (use c size_child_less [OF c(1)] less.prems in
          \<open>auto intro!: ih less.hyps wf_split(1) dest: in_set_dropD\<close>)
  qed
qed

lemma insert_wildcard_contract:
  assumes wf: "wf_node n"
  shows "insert_spec n (insert_wildcard n name v) [Wild name] {[]} v"
proof (cases "find_child_of_type NODE_WILDCARD (nchildren n)")
  case None
  define wc where "wc = Node ((ndata (store_route v (named_node NODE_WILDCARD name)))\<lparr>nd_priority := 1\<rparr>) []"
  have wc: "ntype wc = NODE_WILDCARD" "nparam wc = Some name" "nchildren wc = []" "node_val (ndata wc) = Some v"
    by (simp_all add: wc_def store_route_def node_val_def)
  have edge: "edge_route wc ts v' \<longleftrightarrow> ts = [Wild name] \<and> v' = v" for ts v'
    unfolding edge_route_def route_iff [of wc] by (auto simp: wc label_def)
  have key: "ckey wc \<notin> ckey ` set (nchildren n)"
    by (rule fresh_type_ckey [OF None wc(1)])
  have wfc: "wf_edge wc" "wf_node wc"
    using wf_nodeI [of wc] by (simp_all add: wf_edge_def wc)
  from key wfc have "wf_node (ioh_radix_node_add_child n wc)"
    using wf_nodeD [OF wf] by (intro wf_nodeI) (auto simp: distinct_ckey_insert_child)
  moreover have "route (ioh_radix_node_add_child n wc) ts v' \<longleftrightarrow> route n ts v' \<or> ts = [Wild name] \<and> v' = v" for ts v'
    unfolding route_iff [of n] route_iff [of "ioh_radix_node_add_child n wc"] by (auto simp: edge)
  moreover have "\<not> route n [Wild name] v'" for v'
  proof
    assume "route n [Wild name] v'"
    then obtain c ts' where c: "c \<in> set (nchildren n)" "[Wild name] = label c @ ts'"
      unfolding route_iff [of n] edge_route_def by blast
    then have "label wc @ [] = label c @ ts'" by (simp add: label_def wc)
    then have "ckey wc = ckey c" by (rule label_ckey [OF wfc(1) wf_nodeD(2) [OF wf c(1)]])
    with c(1) key show False by auto
  qed
  moreover have "node_at (ioh_radix_node_add_child n wc) ts" if "node_at n ts" for ts
    using that unfolding node_at_iff [of n] node_at_iff [of "ioh_radix_node_add_child n wc"] by auto
  ultimately show ?thesis
    by (simp add: insert_spec_def insert_wildcard_def None Let_def wc_def [symmetric] same_edge_def)
next
  case (Some i)
  let ?c = "nchildren n ! i"
  let ?c' = "ioh_radix_increment_priority (store_route v ?c)"
  note c = find_child_of_type_SomeD [OF Some]
  show ?thesis
  proof (cases "nparam ?c = Some name \<and> nhandler ?c = None")
    case False
    then show ?thesis
      using insert_spec_unchanged [OF wf] by (auto simp: insert_wildcard_def Some Let_def)
  next
    case True
    have wc: "wf_edge ?c" "wf_node ?c" using wf_nodeD(2,3) [OF wf] c by auto
    have leaf: "nchildren (snd (set_handler_here v ?c)) = []"
      using wc(1) c by (simp add: set_handler_here_def store_route_def wf_edge_def)
    show ?thesis
      using insert_spec_put_child [OF wf _ wc(1) disjI2 [OF leaf] refl refl _ insert_spec_set_handler [OF wc(2)]] c True
      by (auto simp: insert_wildcard_def Some Let_def label_def set_handler_here_def
          intro: insert_spec_increment(1) insert_spec_here(2))
  qed
qed

lemma insert_recursive_contract:
  "wf_node n \<Longrightarrow> insert_spec n (insert_recursive n pat v) (tokens pat) (bounds pat) v"
proof (induction "length pat" arbitrary: n pat rule: less_induct)
  case less
  obtain seg rest where ns: "next_segment pat = (seg, rest)" by (rule prod.exhaust)
  note code = insert_recursive.simps [of n pat] tokens.simps [of pat] bounds.simps [of pat] ns
  show ?case
  proof (cases "pat = [] \<or> seg = None \<or> seg = Some []")
    case True
    then have "insert_recursive n pat v = set_handler_here v n" "tokens pat = []" "bounds pat = {[]}"
      by (auto simp: code)
    then show ?thesis using insert_spec_set_handler [OF less.prems] by simp
  next
    case False
    then obtain s name where sn: "seg = Some (s # name)" by (cases seg) (auto simp: neq_Nil_conv)
    note ns' = ns [unfolded sn]
    have ih: "insert_spec n (insert_recursive n rest v) (tokens rest) (bounds rest) v" if "wf_node n" for n
      using less.hyps [OF next_segment_shorter [OF ns'] that] .
    consider (wild) "s = CHR ''*''" | (par) "s = CHR '':''" | (static) "s \<noteq> CHR ''*''" "s \<noteq> CHR '':''"
      by blast
    then show ?thesis
    proof cases
      case wild
      then show ?thesis
        using False insert_wildcard_contract [OF less.prems] insert_spec_unchanged [OF less.prems]
        by (simp add: code sn)
    next
      case static
      note ns' = next_segment_SomeD [OF ns']
      have "insert_spec (ioh_radix_increment_priority n)
          (insert_static_segment (ioh_radix_increment_priority n) (s # name) rest v)
          (map Ch (s # name) @ tokens rest) ((@) (map Ch (s # name)) ` bounds rest) v"
        by (rule insert_static_segment_contract) (use less.prems ns' ih in auto)
      then show ?thesis
        using static False by (auto simp: code sn intro: insert_spec_increment(2) insert_spec_here(1))
    next
      case par
      show ?thesis
      proof (cases "name = []")
        case True
        then show ?thesis
          using False par insert_spec_unchanged [OF less.prems] by (simp add: code sn)
      next
        case nonempty: False
        show ?thesis
        proof (cases "find_child_of_type NODE_PARAM (nchildren n)")
          case None
          obtain rc nc where r: "insert_recursive (named_node NODE_PARAM name) rest v = (rc, nc)"
            by (rule prod.exhaust)
          have "insert_spec n (rc, ioh_radix_node_add_child n nc) (Par name # tokens rest) ((#) (Par name) ` bounds rest) v"
            using insert_spec_add_child [OF less.prems _ _ fresh_type_ckey [OF None] _
                ih [of "named_node NODE_PARAM name", unfolded r]]
            by (simp add: wf_edge_def)
          then show ?thesis
            using False par nonempty by (simp add: code sn None r insert_spec_increment(1) insert_spec_here(1))
        next
          case (Some i)
          note c = find_child_of_type_SomeD [OF Some]
          have wc: "wf_edge (nchildren n ! i)" "wf_node (nchildren n ! i)"
            using wf_nodeD(2,3) [OF less.prems] c by auto
          show ?thesis
          proof (cases "nparam (nchildren n ! i) = Some name")
            case True
            then show ?thesis
              using insert_spec_put_child [OF less.prems _ wc(1) _ refl refl _ ih [OF wc(2)]] c False par nonempty
              by (auto simp: code sn Some label_def map_prod_def split: prod.splits
                  intro: insert_spec_increment(1) insert_spec_here(1))
          next
            case other: False
            then show ?thesis
              using insert_spec_unchanged [OF less.prems] False par nonempty by (simp add: code sn Some)
          qed
        qed
      qed
    qed
  qed
qed

end
