(* ===== verification/Radix_Lookup.thy ===== *)
theory Radix_Lookup
  imports Radix_Insert
begin

text \<open>
  Lookup in the radix trie.  The matches of a path are described independently of the search; the
  backtracking search is then shown to return the preferred one among those whose parameters fit
  in the match record, where a static character is preferred to a parameter and a parameter to a
  wildcard, and to leave the match record as it was when there is none.
\<close>

subsection \<open>What a lookup may answer\<close>

inductive static_reach ::
  "('h, 'o, 'm) rnode list \<Rightarrow> string \<Rightarrow> ('h, 'o, 'm) rnode \<Rightarrow> bool" where
  reach_child: "c \<in> set cs \<Longrightarrow> ntype c = NODE_STATIC \<Longrightarrow> static_reach cs (nprefix c) c"
| reach_below: "c \<in> set cs \<Longrightarrow> ntype c = NODE_STATIC \<Longrightarrow> static_reach (nchildren c) s m \<Longrightarrow>
     static_reach cs (nprefix c @ s) m"

inductive matches ::
  "('h, 'o, 'm) rnode \<Rightarrow> string \<Rightarrow> token list \<Rightarrow> ioh_param list \<Rightarrow> ('h, 'o, 'm) route_val \<Rightarrow> bool"
where
  match_end: "skip_slash path = [] \<Longrightarrow> node_val (ndata n) = Some v \<Longrightarrow> matches n path [] [] v"
| match_static: "skip_slash path = p \<Longrightarrow> p \<noteq> [] \<Longrightarrow> seg = takeWhile (\<lambda>c. c \<noteq> slash) p \<Longrightarrow>
     static_reach (nchildren n) seg c \<Longrightarrow> matches c (dropWhile (\<lambda>c. c \<noteq> slash) p) ts ps v \<Longrightarrow>
     matches n path (map Ch seg @ ts) ps v"
| match_param: "skip_slash path = p \<Longrightarrow> p \<noteq> [] \<Longrightarrow> c \<in> set (nchildren n) \<Longrightarrow> ntype c = NODE_PARAM \<Longrightarrow>
     x = the (nparam c) \<Longrightarrow> matches c (dropWhile (\<lambda>c. c \<noteq> slash) p) ts ps v \<Longrightarrow>
     matches n path (Par x # ts) (\<lparr>p_name = x, p_value = takeWhile (\<lambda>c. c \<noteq> slash) p\<rparr> # ps) v"
| match_wild: "skip_slash path = p \<Longrightarrow> p \<noteq> [] \<Longrightarrow> c \<in> set (nchildren n) \<Longrightarrow> ntype c = NODE_WILDCARD \<Longrightarrow>
     x = the (nparam c) \<Longrightarrow> node_val (ndata c) = Some v \<Longrightarrow>
     matches n path [Wild x] [\<lparr>p_name = x, p_value = p\<rparr>] v"

fun rank :: "token \<Rightarrow> nat" where
  "rank (Ch _) = 0"
| "rank (Par _) = 1"
| "rank (Wild _) = 2"

fun pref :: "token list \<Rightarrow> token list \<Rightarrow> bool" where
  "pref [] [] = True"
| "pref (x # xs) (y # ys) = (if x = y then pref xs ys else rank x < rank y)"
| "pref _ _ = False"

type_synonym ('h, 'o, 'm) cand = "token list \<times> ioh_param list \<times> ('h, 'o, 'm) route_val"

definition found ::
  "('h, 'o, 'm) route_val \<Rightarrow> ioh_param list \<Rightarrow> ('h, 'o, 'm) radix_match \<Rightarrow> ('h, 'o, 'm) radix_match" where
  "found v ps m = m\<lparr>rm_handler := Some (rv_handler v), rm_metadata := rv_metadata v,
     rm_meta := rv_meta v, rm_params := rm_params m @ ps\<rparr>"

definition fits :: "('h, 'o, 'm) radix_match \<Rightarrow> ioh_param list \<Rightarrow> bool" where
  "fits m ps \<longleftrightarrow> length (rm_params m) + length ps \<le> IOH_MAX_PATH_PARAMS"

definition selects ::
  "('h, 'o, 'm) cand set \<Rightarrow> ('h, 'o, 'm) radix_match \<Rightarrow> bool \<times> ('h, 'o, 'm) radix_match \<Rightarrow> bool" where
  "selects S m r \<longleftrightarrow>
     (if fst r then
        (\<exists>ts ps v. (ts, ps, v) \<in> S \<and> fits m ps \<and> snd r = found v ps m \<and>
           (\<forall>ts' ps' v'. (ts', ps', v') \<in> S \<longrightarrow> fits m ps' \<longrightarrow> pref ts ts'))
      else snd r = m \<and> (\<forall>ts' ps' v'. (ts', ps', v') \<in> S \<longrightarrow> \<not> fits m ps'))"

lemma pref_refl [simp]: "pref ts ts"
  by (induction ts) auto

lemma pref_append [simp]: "pref (a @ x) (a @ y) = pref x y"
  by (induction a) auto

lemma pref_static: "seg \<noteq> [] \<Longrightarrow> ts \<noteq> [] \<Longrightarrow> rank (hd ts) \<noteq> 0 \<Longrightarrow> pref (map Ch seg @ x) ts"
proof -
  assume "seg \<noteq> []" "ts \<noteq> []" "rank (hd ts) \<noteq> 0"
  then obtain a as t ts' where "seg = a # as" "ts = t # ts'" "rank t \<noteq> 0" by (cases seg; cases ts) auto
  then show ?thesis by auto
qed

lemma selects_True:
  "selects S m (True, m') \<longleftrightarrow>
     (\<exists>ts ps v. (ts, ps, v) \<in> S \<and> fits m ps \<and> m' = found v ps m \<and>
       (\<forall>ts' ps' v'. (ts', ps', v') \<in> S \<longrightarrow> fits m ps' \<longrightarrow> pref ts ts'))"
  unfolding selects_def fst_conv snd_conv if_True by (rule refl)

lemma selects_False:
  "selects S m (False, m') \<longleftrightarrow> m' = m \<and> (\<forall>ts ps v. (ts, ps, v) \<in> S \<longrightarrow> \<not> fits m ps)"
  unfolding selects_def fst_conv snd_conv if_False by (rule refl)

lemma selectsE:
  assumes "selects S m (ok, m')" and ok
  obtains ts ps v where "(ts, ps, v) \<in> S" "fits m ps" "m' = found v ps m"
    "\<And>ts' ps' v'. (ts', ps', v') \<in> S \<Longrightarrow> fits m ps' \<Longrightarrow> pref ts ts'"
proof -
  have "selects S m (True, m')" using assms by (cases ok) simp_all
  then show thesis using that unfolding selects_True by blast
qed

lemma selects_empty [simp]: "selects {} m (False, m)"
  by (simp add: selects_def)

lemma selects_first:
  assumes "selects A m (ok, m1)"
    and "ok \<Longrightarrow> \<forall>ts ps v ts' ps' v'. (ts, ps, v) \<in> A \<longrightarrow> (ts', ps', v') \<in> B \<longrightarrow> pref ts ts'"
    and "\<not> ok \<Longrightarrow> selects B m r"
  shows "selects (A \<union> B) m (if ok then (True, m1) else r)"
proof (cases ok)
  case True
  from assms(1) True obtain ts ps v where "(ts, ps, v) \<in> A" "fits m ps" "m1 = found v ps m"
      "\<And>ts' ps' v'. (ts', ps', v') \<in> A \<Longrightarrow> fits m ps' \<Longrightarrow> pref ts ts'"
    by (rule selectsE) blast
  with assms(2) [OF True] True show ?thesis unfolding if_True if_P [OF True] selects_True by blast
next
  case False
  with assms(1) have none: "\<forall>ts ps v. (ts, ps, v) \<in> A \<longrightarrow> \<not> fits m ps"
    by (auto simp only: selects_False simp_thms)
  from assms(3) [OF False] none False show ?thesis
    by (cases r; cases "fst r") (auto simp only: if_False selects_True selects_False Un_iff fst_conv; blast)+
qed

definition shift :: "token list \<Rightarrow> ('h, 'o, 'm) cand set \<Rightarrow> ('h, 'o, 'm) cand set" where
  "shift l S = (\<lambda>(ts, ps, v). (l @ ts, ps, v)) ` S"

lemma shift_iff: "(ts, ps, v) \<in> shift l S \<longleftrightarrow> (\<exists>ts'. ts = l @ ts' \<and> (ts', ps, v) \<in> S)"
  by (force simp: shift_def)

lemma selects_shift: "selects S m (ok, m') \<Longrightarrow> selects (shift l S) m (ok, m')"
proof (cases ok)
  case True
  assume "selects S m (ok, m')"
  then obtain ts ps v where c: "(ts, ps, v) \<in> S" "fits m ps" "m' = found v ps m"
      "\<And>ts' ps' v'. (ts', ps', v') \<in> S \<Longrightarrow> fits m ps' \<Longrightarrow> pref ts ts'"
    using True by (rule selectsE) blast
  then have "(l @ ts, ps, v) \<in> shift l S" by (simp add: shift_iff)
  moreover have "pref (l @ ts) ts'" if "(ts', ps', v') \<in> shift l S" "fits m ps'" for ts' ps' v'
    using that c(4) by (auto simp: shift_iff)
  ultimately have "selects (shift l S) m (True, m')" using c(2,3) unfolding selects_True by blast
  with True show ?thesis by simp
qed (auto simp: selects_False shift_iff)

definition bind_param :: "string \<Rightarrow> string \<Rightarrow> ('h, 'o, 'm) cand set \<Rightarrow> ('h, 'o, 'm) cand set" where
  "bind_param x s S = (\<lambda>(ts, ps, v). (Par x # ts, \<lparr>p_name = x, p_value = s\<rparr> # ps, v)) ` S"

lemma bind_param_iff:
  "(ts, ps, v) \<in> bind_param x s S \<longleftrightarrow>
     (\<exists>ts' ps'. ts = Par x # ts' \<and> ps = \<lparr>p_name = x, p_value = s\<rparr> # ps' \<and> (ts', ps', v) \<in> S)"
  by (force simp: bind_param_def)

lemma fits_add_param: "fits (add_param x s m) ps \<longleftrightarrow> fits m (\<lparr>p_name = x, p_value = s\<rparr> # ps)"
  by (simp add: fits_def add_param_def)

lemma found_add_param: "found v ps (add_param x s m) = found v (\<lparr>p_name = x, p_value = s\<rparr> # ps) m"
  by (simp add: found_def add_param_def)

lemma add_param_undo [simp]:
  "(add_param x s m)\<lparr>rm_params := take (length (rm_params m)) (rm_params (add_param x s m))\<rparr> = m"
  by (simp add: add_param_def)

lemma selects_bind_param:
  assumes "selects S (add_param x s m) (ok, m')"
  shows "ok \<Longrightarrow> selects (bind_param x s S) m (True, m')"
    and "\<not> ok \<Longrightarrow> selects (bind_param x s S) m (False, m'\<lparr>rm_params := take (length (rm_params m)) (rm_params m')\<rparr>)"
proof -
  show "selects (bind_param x s S) m (True, m')" if ok: ok
  proof -
    obtain ts ps v where c: "(ts, ps, v) \<in> S" "fits m (\<lparr>p_name = x, p_value = s\<rparr> # ps)"
       "m' = found v (\<lparr>p_name = x, p_value = s\<rparr> # ps) m"
       "\<And>ts' ps' v'. (ts', ps', v') \<in> S \<Longrightarrow> fits m (\<lparr>p_name = x, p_value = s\<rparr> # ps') \<Longrightarrow> pref ts ts'"
      using assms ok by (rule selectsE) (auto simp only: fits_add_param found_add_param)
    have "(Par x # ts, \<lparr>p_name = x, p_value = s\<rparr> # ps, v) \<in> bind_param x s S"
      using c(1) by (simp add: bind_param_iff)
    moreover have "pref (Par x # ts) ts'" if "(ts', ps', v') \<in> bind_param x s S" "fits m ps'" for ts' ps' v'
      using that c(4) by (auto simp: bind_param_iff)
    ultimately show ?thesis using c(2,3) unfolding selects_True by blast
  qed
  show "selects (bind_param x s S) m (False, m'\<lparr>rm_params := take (length (rm_params m)) (rm_params m')\<rparr>)" if "\<not> ok"
    using assms that by (auto simp: selects_False fits_add_param bind_param_iff)
qed


subsection \<open>The candidates of each loop\<close>

definition wf_children :: "('h, 'o, 'm) rnode list \<Rightarrow> bool" where
  "wf_children cs \<longleftrightarrow> distinct (map ckey cs) \<and> (\<forall>c\<in>set cs. wf_edge c \<and> wf_node c)"

definition rec_cands :: "('h, 'o, 'm) rnode \<Rightarrow> string \<Rightarrow> ('h, 'o, 'm) cand set" where
  "rec_cands n path = {(ts, ps, v). matches n path ts ps v}"

definition static_cands :: "('h, 'o, 'm) rnode list \<Rightarrow> string \<Rightarrow> string \<Rightarrow> ('h, 'o, 'm) cand set" where
  "static_cands cs seg rest =
     {(ts, ps, v). \<exists>c ts'. ts = map Ch seg @ ts' \<and> static_reach cs seg c \<and> matches c rest ts' ps v}"

definition param_cands :: "('h, 'o, 'm) rnode list \<Rightarrow> string \<Rightarrow> string \<Rightarrow> ('h, 'o, 'm) cand set" where
  "param_cands cs seg rest =
     (\<Union>c\<in>{c \<in> set cs. ntype c = NODE_PARAM}. bind_param (the (nparam c)) seg (rec_cands c rest))"

definition wild_cands :: "('h, 'o, 'm) rnode list \<Rightarrow> string \<Rightarrow> ('h, 'o, 'm) cand set" where
  "wild_cands cs p =
     {([Wild x], [\<lparr>p_name = x, p_value = p\<rparr>], v) | x v.
        \<exists>c\<in>set cs. ntype c = NODE_WILDCARD \<and> x = the (nparam c) \<and> node_val (ndata c) = Some v}"

lemma wf_children_Cons:
  "wf_children (c # cs) \<longleftrightarrow>
     wf_children cs \<and> ckey c \<notin> ckey ` set cs \<and> wf_edge c \<and> wf_node c"
  by (auto simp: wf_children_def)

lemma wf_children_Nil [simp]: "wf_children []"
  by (simp add: wf_children_def)

lemma wf_node_wf_children: "wf_node (Node d cs) = wf_children cs"
  by (simp add: wf_node.simps wf_children_def)

lemma wf_children_of: "wf_node c \<Longrightarrow> wf_children (nchildren c)"
  by (cases c) (simp add: wf_node_wf_children)

lemma static_reach_Nil [simp]: "\<not> static_reach [] s m"
  by (auto elim: static_reach.cases)

lemma static_reach_Cons:
  "static_reach (c # cs) s m \<longleftrightarrow>
     ntype c = NODE_STATIC \<and>
       (s = nprefix c \<and> m = c \<or> (\<exists>s'. s = nprefix c @ s' \<and> static_reach (nchildren c) s' m)) \<or>
     static_reach cs s m"
  by (subst (1 3) static_reach.simps) auto

lemma static_reach_hd:
  "static_reach cs s m \<Longrightarrow> wf_children cs \<Longrightarrow>
     s \<noteq> [] \<and> (\<exists>c\<in>set cs. ntype c = NODE_STATIC \<and> hd (nprefix c) = hd s)"
proof (induction rule: static_reach.induct)
  case (reach_child c cs)
  then have "wf_edge c" by (simp add: wf_children_def)
  with reach_child show ?case by (auto simp: wf_edge_def)
next
  case (reach_below c cs s m)
  then have "nprefix c \<noteq> []" by (auto simp: wf_children_def wf_edge_def)
  with reach_below show ?case by (auto simp: hd_append)
qed

lemma static_cands_skip:
  "ntype c \<noteq> NODE_STATIC \<or> take (length (nprefix c)) seg \<noteq> nprefix c \<Longrightarrow>
     static_cands (c # cs) seg rest = static_cands cs seg rest"
  by (auto simp: static_cands_def static_reach_Cons)

lemma static_reach_others:
  assumes "wf_children (c # cs)" and "ntype c = NODE_STATIC" and "take (length (nprefix c)) seg = nprefix c"
  shows "\<not> static_reach cs seg d"
proof
  assume a: "static_reach cs seg d"
  have "wf_children cs" using assms(1) by (simp add: wf_children_Cons)
  with static_reach_hd [OF a] obtain e
    where e: "e \<in> set cs" "ntype e = NODE_STATIC" "hd (nprefix e) = hd seg" by blast
  have "nprefix c \<noteq> []" using assms(1,2) by (simp add: wf_children_Cons wf_edge_def)
  then have "hd (nprefix c) = hd seg" using assms(3) by (metis hd_take length_greater_0_conv)
  then have "ckey c = ckey e" using e assms(2) by (simp add: ckey_def)
  with e(1) assms(1) show False by (auto simp: wf_children_Cons)
qed

lemma static_cands_whole:
  assumes wf: "wf_children (c # cs)" and c: "ntype c = NODE_STATIC" "seg = nprefix c"
  shows "static_cands (c # cs) seg rest = shift (map Ch seg) (rec_cands c rest)"
proof -
  have "\<not> static_reach (nchildren c) [] m" for m
    using static_reach_hd [of "nchildren c" "[]" m] wf by (auto simp: wf_children_Cons wf_children_of)
  moreover have "\<not> static_reach cs seg m" for m
    by (rule static_reach_others [OF wf c(1)]) (simp add: c(2))
  ultimately show ?thesis
    using c by (auto simp: static_cands_def static_reach_Cons shift_iff rec_cands_def)
qed

lemma static_cands_below:
  assumes wf: "wf_children (c # cs)" and c: "ntype c = NODE_STATIC" "seg = nprefix c @ s" "s \<noteq> []"
  shows "static_cands (c # cs) seg rest = shift (map Ch (nprefix c)) (static_cands (nchildren c) s rest)"
proof -
  have "\<not> static_reach cs seg m" for m
    by (rule static_reach_others [OF wf c(1)]) (simp add: c(2))
  then have "static_reach (c # cs) seg m \<longleftrightarrow> static_reach (nchildren c) s m" for m
    using c by (auto simp: static_reach_Cons)
  then show ?thesis unfolding static_cands_def shift_def c(2) by force
qed

lemma param_cands_Cons:
  "param_cands (c # cs) seg rest =
     (if ntype c = NODE_PARAM then bind_param (the (nparam c)) seg (rec_cands c rest) else {})
     \<union> param_cands cs seg rest"
  by (auto simp: param_cands_def)

lemma param_cands_others:
  assumes "wf_children (c # cs)" and "ntype c = NODE_PARAM"
  shows "param_cands cs seg rest = {}"
proof -
  have "ntype d \<noteq> NODE_PARAM" if "d \<in> set cs" for d
  proof
    assume "ntype d = NODE_PARAM"
    with assms(2) have "ckey c = ckey d" by (simp add: ckey_def)
    with that assms(1) show False by (auto simp: wf_children_Cons)
  qed
  then show ?thesis unfolding param_cands_def by blast
qed

lemma rec_cands_end:
  "skip_slash path = [] \<Longrightarrow>
     rec_cands n path = (case node_val (ndata n) of None \<Rightarrow> {} | Some v \<Rightarrow> {([], [], v)})"
  by (auto simp: rec_cands_def intro: match_end elim: matches.cases split: option.splits)

lemma rec_cands_more:
  assumes "skip_slash path = p" and "p \<noteq> []"
  shows "rec_cands n path =
     static_cands (nchildren n) (takeWhile (\<lambda>c. c \<noteq> slash) p) (dropWhile (\<lambda>c. c \<noteq> slash) p) \<union>
     (param_cands (nchildren n) (takeWhile (\<lambda>c. c \<noteq> slash) p) (dropWhile (\<lambda>c. c \<noteq> slash) p) \<union>
      wild_cands (nchildren n) p)" (is "_ = ?R")
proof (intro set_eqI iffI)
  fix x assume "x \<in> rec_cands n path"
  then obtain ts ps v where x: "x = (ts, ps, v)" and m: "matches n path ts ps v"
    by (auto simp: rec_cands_def)
  from m assms show "x \<in> ?R"
    unfolding x
    by cases (auto simp: static_cands_def param_cands_def wild_cands_def bind_param_iff rec_cands_def)
next
  fix x assume "x \<in> ?R"
  then show "x \<in> rec_cands n path"
    using assms
    by (auto simp: static_cands_def param_cands_def wild_cands_def bind_param_def rec_cands_def
        intro: matches.intros)
qed


subsection \<open>Lookup selects the preferred match\<close>

fun selects_exit ::
  "('h, 'o, 'm) cand set \<Rightarrow> ('h, 'o, 'm) radix_match \<Rightarrow> loop_exit \<times> ('h, 'o, 'm) radix_match \<Rightarrow> bool" where
  "selects_exit S m (Found, m') = selects S m (True, m')"
| "selects_exit S m (Continue, m') = selects S m (False, m')"
| "selects_exit S m (Fail, m') = (m' = m \<and> IOH_MAX_PATH_PARAMS \<le> length (rm_params m))"

lemma node_val_found:
  "node_val d = Some v \<Longrightarrow> take_route d m = found v [] m"
  "node_val d = Some v \<Longrightarrow> nd_handler d \<noteq> None"
  "nd_handler d = None \<longleftrightarrow> node_val d = None"
  by (auto simp: node_val_def take_route_def found_def)

lemma selects_emptyD: "selects {} m r \<Longrightarrow> r = (False, m)"
  by (cases r) (auto simp: selects_def split: if_splits)

lemma fits_undo: "selects S m (False, m') \<Longrightarrow> m' = m"
  by (simp add: selects_False)

lemma wild_cands_Cons:
  "wild_cands (c # cs) p =
     (if ntype c = NODE_WILDCARD then
        (case node_val (ndata c) of None \<Rightarrow> {}
         | Some v \<Rightarrow> {([Wild (the (nparam c))], [\<lparr>p_name = the (nparam c), p_value = p\<rparr>], v)})
      else {}) \<union> wild_cands cs p"
  by (auto simp: wild_cands_def split: option.splits)

lemma wild_cands_others:
  assumes "wf_children (c # cs)" and "ntype c = NODE_WILDCARD"
  shows "wild_cands cs p = {}"
proof -
  have "ntype d \<noteq> NODE_WILDCARD" if "d \<in> set cs" for d
  proof
    assume "ntype d = NODE_WILDCARD"
    with assms(2) have "ckey c = ckey d" by (simp add: ckey_def)
    with that assms(1) show False by (auto simp: wf_children_Cons)
  qed
  then show ?thesis unfolding wild_cands_def by blast
qed

lemma selects_wildcards:
  "wf_children cs \<Longrightarrow> selects (wild_cands cs p) m (lookup_wildcards cs p m)"
proof (induction cs)
  case Nil
  then show ?case by (simp add: wild_cands_def)
next
  case (Cons c cs)
  then have ih: "selects (wild_cands cs p) m (lookup_wildcards cs p m)" by (simp add: wf_children_Cons)
  let ?ps = "[\<lparr>p_name = the (nparam c), p_value = p\<rparr>]"
  show ?case
  proof (cases "ntype c = NODE_WILDCARD \<and> nhandler c \<noteq> None")
    case False
    then show ?thesis using ih by (auto simp: wild_cands_Cons node_val_found(3))
  next
    case True
    then obtain v where v: "node_val (ndata c) = Some v"
      by (cases "node_val (ndata c)") (auto simp: node_val_found(3))
    then have S: "wild_cands (c # cs) p = {([Wild (the (nparam c))], ?ps, v)}"
      using wild_cands_others [OF Cons.prems] True by (simp add: wild_cands_Cons)
    have "take_route (ndata c) (add_param (the (nparam c)) p m) = found v ?ps m"
      using node_val_found(1) [OF v] by (simp add: found_add_param)
    then show ?thesis using True unfolding S
      by (auto simp: selects_True selects_False fits_def not_le)
  qed
qed

lemma static_cands_Nil [simp]: "static_cands [] seg rest = {}"
  by (simp add: static_cands_def)

lemma param_cands_Nil [simp]: "param_cands [] seg rest = {}"
  by (simp add: param_cands_def)

lemma static_cands_others:
  "wf_children (c # cs) \<Longrightarrow> ntype c = NODE_STATIC \<Longrightarrow> take (length (nprefix c)) seg = nprefix c \<Longrightarrow>
     static_cands cs seg rest = {}"
  by (simp add: static_cands_def static_reach_others)

text \<open>Both ways into a node: from a segment boundary, and in the middle of a static segment.\<close>

definition lookup_ok :: "('h, 'o, 'm) rnode \<Rightarrow> bool" where
  "lookup_ok n \<longleftrightarrow>
     (\<forall>path m. fits m [] \<longrightarrow> selects (rec_cands n path) m (lookup_recursive n path m)) \<and>
     (\<forall>seg rest m. fits m [] \<longrightarrow>
        selects (static_cands (nchildren n) seg rest) m (lookup_static (nchildren n) seg rest m))"

lemma lookup_okD:
  "lookup_ok n \<Longrightarrow> fits m [] \<Longrightarrow> lookup_recursive n path m = r \<Longrightarrow> selects (rec_cands n path) m r"
  "lookup_ok n \<Longrightarrow> fits m [] \<Longrightarrow> lookup_static (nchildren n) seg rest m = r \<Longrightarrow>
     selects (static_cands (nchildren n) seg rest) m r"
  by (auto simp: lookup_ok_def)

lemma take_prefix_le: "take (length p) s = p \<Longrightarrow> length p \<le> length s"
  by (metis length_take min.cobounded1)

lemma lookup_static_Cons:
  "lookup_static (c # cs) seg rest m =
     (if ntype c = NODE_STATIC \<and> take (length (nprefix c)) seg = nprefix c then
        (let (ok, m') =
           (if seg = nprefix c then lookup_recursive c rest m
            else lookup_static (nchildren c) (drop (length (nprefix c)) seg) rest m)
         in if ok then (True, m') else lookup_static cs seg rest m')
      else lookup_static cs seg rest m)"
proof (cases c)
  case (Node d gs)
  have "(length (nd_prefix d) = length seg) = (seg = nd_prefix d)" if "take (length (nd_prefix d)) seg = nd_prefix d"
    using that by (metis take_all order_refl)
  with take_prefix_le [of "nd_prefix d" seg] show ?thesis by (auto simp: Node not_less)
qed

lemma selects_static_list:
  "\<forall>c\<in>set cs. lookup_ok c \<Longrightarrow> wf_children cs \<Longrightarrow> fits m [] \<Longrightarrow>
     selects (static_cands cs seg rest) m (lookup_static cs seg rest m)"
proof (induction cs)
  case (Cons c cs)
  have ih: "selects (static_cands cs seg rest) m (lookup_static cs seg rest m)"
    using Cons by (simp add: wf_children_Cons)
  show ?case
  proof (cases "ntype c = NODE_STATIC \<and> take (length (nprefix c)) seg = nprefix c")
    case False
    then show ?thesis using ih static_cands_skip [of c seg cs rest] by (auto simp: lookup_static_Cons)
  next
    case True
    obtain ok m1 where sub: "(if seg = nprefix c then lookup_recursive c rest m
        else lookup_static (nchildren c) (drop (length (nprefix c)) seg) rest m) = (ok, m1)"
      by (rule prod.exhaust)
    have sel: "selects (static_cands (c # cs) seg rest) m (ok, m1)"
    proof (cases "seg = nprefix c")
      case whole: True
      have "selects (rec_cands c rest) m (ok, m1)"
        using Cons.prems sub whole by (simp add: lookup_okD(1))
      then show ?thesis
        unfolding static_cands_whole [OF Cons.prems(2) conjunct1 [OF True] whole] by (rule selects_shift)
    next
      case below: False
      let ?s = "drop (length (nprefix c)) seg"
      have s: "seg = nprefix c @ ?s" by (metis True append_take_drop_id)
      then have "?s \<noteq> []" using below by (metis append_Nil2)
      moreover have "selects (static_cands (nchildren c) ?s rest) m (ok, m1)"
        using Cons.prems sub below by (simp add: lookup_okD(2))
      ultimately show ?thesis
        using static_cands_below [OF Cons.prems(2) conjunct1 [OF True] s, of rest] selects_shift by metis
    qed
    show ?thesis
    proof (cases ok)
      case ok: True
      then show ?thesis using sel sub True by (simp add: lookup_static_Cons)
    next
      case no: False
      with sel have "m1 = m" by (simp add: selects_False)
      moreover have "lookup_static cs seg rest m = (False, m)"
        using ih static_cands_others [OF Cons.prems(2)] True by (intro selects_emptyD) simp
      ultimately show ?thesis using sel sub True no by (simp add: lookup_static_Cons)
    qed
  qed
qed simp

lemma selects_param_list:
  "\<forall>c\<in>set cs. lookup_ok c \<Longrightarrow> wf_children cs \<Longrightarrow> fits m [] \<Longrightarrow>
     selects_exit (param_cands cs seg rest) m (lookup_params cs seg rest m)"
proof (induction cs)
  case (Cons c cs)
  have ih: "selects_exit (param_cands cs seg rest) m (lookup_params cs seg rest m)"
    using Cons by (simp add: wf_children_Cons)
  show ?case
  proof (cases "ntype c = NODE_PARAM \<and> length (rm_params m) < IOH_MAX_PATH_PARAMS")
    case False
    then show ?thesis using ih by (auto simp: param_cands_Cons)
  next
    case True
    let ?x = "the (nparam c)"
    obtain ok m1 where sub: "lookup_recursive c rest (add_param ?x seg m) = (ok, m1)"
      by (rule prod.exhaust)
    have "fits (add_param ?x seg m) []" using True by (simp add: fits_def add_param_def)
    then have "selects (rec_cands c rest) (add_param ?x seg m) (ok, m1)"
      using Cons.prems(1) sub by (simp add: lookup_okD(1))
    note sel = selects_bind_param [OF this]
    have S: "param_cands (c # cs) seg rest = bind_param ?x seg (rec_cands c rest)"
      "param_cands cs seg rest = {}"
      using True param_cands_others [OF Cons.prems(2)] by (simp_all add: param_cands_Cons)
    show ?thesis
    proof (cases ok)
      case ok: True
      then show ?thesis using sel(1) sub True by (simp add: S)
    next
      case no: False
      note sel = sel(2) [OF no]
      from sel have "m1\<lparr>rm_params := take (length (rm_params m)) (rm_params m1)\<rparr> = m"
        by (rule fits_undo)
      moreover obtain e m2 where r: "lookup_params cs seg rest m = (e, m2)" by (rule prod.exhaust)
      moreover from ih r S True have "e = Continue \<and> m2 = m"
        by (cases e) (auto simp: selects_True selects_False)
      ultimately show ?thesis using sel sub True no by (simp add: S)
    qed
  qed
qed simp

lemma param_wild_shape:
  "(ts, ps, v) \<in> param_cands cs seg rest \<Longrightarrow> \<exists>x ts' ps'. ts = Par x # ts' \<and> length ps = Suc ps'"
  "(ts, ps, v) \<in> wild_cands cs p \<Longrightarrow> \<exists>x. ts = [Wild x] \<and> length ps = 1"
  by (auto simp: param_cands_def bind_param_iff wild_cands_def)

lemma selects_params_wildcards:
  assumes "wf_children cs" and "selects_exit (param_cands cs seg rest) m (e, m2)"
  shows "selects (param_cands cs seg rest \<union> wild_cands cs p) m
     (case e of Found \<Rightarrow> (True, m2) | Fail \<Rightarrow> (False, m2) | Continue \<Rightarrow> lookup_wildcards cs p m2)"
proof (cases e)
  case Found
  then have "selects (param_cands cs seg rest) m (True, m2)" using assms(2) by simp
  then have "selects (param_cands cs seg rest \<union> wild_cands cs p) m (if True then (True, m2) else (False, m))"
    by (rule selects_first) (fastforce dest: param_wild_shape)+
  with Found show ?thesis by simp
next
  case Fail
  with assms(2) show ?thesis
    by (auto simp: selects_False fits_def dest!: param_wild_shape)
next
  case Continue
  then have "selects (param_cands cs seg rest) m (False, m2)" using assms(2) by simp
  then have "selects (param_cands cs seg rest \<union> wild_cands cs p) m
      (if False then (True, m2) else lookup_wildcards cs p m)"
    by (rule selects_first) (simp_all add: selects_wildcards assms(1))
  with Continue assms(2) show ?thesis by (simp add: selects_False)
qed

lemma lookup_ok: "wf_node n \<Longrightarrow> lookup_ok n"
proof (induction n)
  case (Node d cs)
  have wf: "wf_children cs" using Node.prems by (simp add: wf_node_wf_children)
  then have sub: "\<forall>c\<in>set cs. lookup_ok c" using Node.IH by (simp add: wf_children_def)
  note static = selects_static_list [OF sub wf] and params = selects_param_list [OF sub wf]
  have "selects (rec_cands (Node d cs) path) m (lookup_recursive (Node d cs) path m)" if m: "fits m []" for path m
  proof (cases "skip_slash path = []")
    case True
    then show ?thesis using m node_val_found(1,2) [of d] node_val_found(3) [of d]
      by (cases "node_val d") (auto simp: rec_cands_end selects_True selects_False Let_def)
  next
    case False
    define p seg rest where "p = skip_slash path" and "seg = takeWhile (\<lambda>c. c \<noteq> slash) p"
      and "rest = dropWhile (\<lambda>c. c \<noteq> slash) p"
    obtain ok m1 where s: "lookup_static cs seg rest m = (ok, m1)" by (rule prod.exhaust)
    obtain e m2 where r: "lookup_params cs seg rest m = (e, m2)" by (rule prod.exhaust)
    note sel = static [OF m, of seg rest, unfolded s] and par = params [OF m, of seg rest, unfolded r]
    let ?B = "param_cands cs seg rest" and ?W = "wild_cands cs p"
    have code: "lookup_recursive (Node d cs) path m =
        (if ok then (True, m1) else
          (case lookup_params cs seg rest m1 of (Found, m2) \<Rightarrow> (True, m2) | (Fail, m2) \<Rightarrow> (False, m2)
             | (Continue, m2) \<Rightarrow> lookup_wildcards cs p m2))"
      using False by (simp add: s Let_def flip: p_def seg_def rest_def)
    have cands: "rec_cands (Node d cs) path = static_cands cs seg rest \<union> (?B \<union> ?W)"
      using rec_cands_more [of path p "Node d cs"] False by (simp add: p_def seg_def rest_def)
    have before: "pref ts ts'" if "(ts, ps, v) \<in> static_cands cs seg rest" "(ts', ps', v') \<in> ?B \<union> ?W"
      for ts ps v ts' ps' v'
      using that by (auto simp: static_cands_def intro!: pref_static dest!: param_wild_shape
          dest: static_reach_hd [OF _ wf])
    show ?thesis
      unfolding code cands
      by (rule selects_first [OF sel])
        (use before sel r selects_params_wildcards [OF wf par, of p] in
          \<open>auto simp: selects_False split: loop_exit.splits\<close>)
  qed
  with static show ?case by (simp add: lookup_ok_def)
qed


subsection \<open>Inserted patterns and the paths they match\<close>

text \<open>
  A path is an instance of a pattern segment by segment: a static segment is equal, a parameter
  takes any segment, a wildcard takes everything that is left.
\<close>

inductive instance_of :: "string \<Rightarrow> string \<Rightarrow> ioh_param list \<Rightarrow> bool" where
  inst_end: "pat = [] \<or> fst (next_segment pat) = None \<or> fst (next_segment pat) = Some [] \<Longrightarrow>
     skip_slash path = [] \<Longrightarrow> instance_of pat path []"
| inst_static: "next_segment pat = (Some seg, rest) \<Longrightarrow> seg \<noteq> [] \<Longrightarrow> hd seg \<noteq> CHR ''*'' \<Longrightarrow>
     hd seg \<noteq> CHR '':'' \<Longrightarrow> skip_slash path = p \<Longrightarrow> takeWhile (\<lambda>c. c \<noteq> slash) p = seg \<Longrightarrow>
     instance_of rest (dropWhile (\<lambda>c. c \<noteq> slash) p) ps \<Longrightarrow> instance_of pat path ps"
| inst_param: "next_segment pat = (Some (CHR '':'' # x), rest) \<Longrightarrow> skip_slash path = p \<Longrightarrow> p \<noteq> [] \<Longrightarrow>
     instance_of rest (dropWhile (\<lambda>c. c \<noteq> slash) p) ps \<Longrightarrow>
     instance_of pat path (\<lparr>p_name = x, p_value = takeWhile (\<lambda>c. c \<noteq> slash) p\<rparr> # ps)"
| inst_wild: "next_segment pat = (Some (CHR ''*'' # x), rest) \<Longrightarrow> skip_slash path = p \<Longrightarrow> p \<noteq> [] \<Longrightarrow>
     instance_of pat path [\<lparr>p_name = x, p_value = p\<rparr>]"

lemma node_at_label:
  assumes "wf_node n" and "c \<in> set (nchildren n)"
  shows "node_at n (label c @ ts) \<longleftrightarrow> node_at c ts"
proof
  assume "node_at n (label c @ ts)"
  then obtain d ts' where d: "d \<in> set (nchildren n)" "label c @ ts = label d @ ts'" "node_at d ts'"
    using label_nonempty [OF wf_nodeD(2) [OF assms]] unfolding node_at_iff [of n] edge_node_def by blast
  then have "c = d" using edge_unique [OF assms(1,2)] by blast
  with d show "node_at c ts" by simp
next
  assume "node_at c ts"
  then have "edge_node c (label c @ ts)" by (auto simp: edge_node_def)
  with assms(2) show "node_at n (label c @ ts)" unfolding node_at_iff [of n] by blast
qed

lemma node_at_static:
  "wf_node n \<Longrightarrow> node_at n (map Ch seg) \<Longrightarrow> seg \<noteq> [] \<Longrightarrow>
     \<exists>c. static_reach (nchildren n) seg c \<and> wf_node c \<and>
        (\<forall>ts v. route n (map Ch seg @ ts) v = route c ts v) \<and>
        (\<forall>ts. node_at n (map Ch seg @ ts) = node_at c ts)"
proof (induction n arbitrary: seg)
  case (Node d cs)
  let ?n = "Node d cs"
  note wf = Node.prems(1)
  obtain c ts' where c: "c \<in> set cs" "map Ch seg = label c @ ts'" "node_at c ts'"
    using Node.prems(2,3) unfolding node_at_iff [of ?n] edge_node_def by auto
  have cwf: "wf_edge c" "wf_node c" using wf_nodeD(2,3) [OF wf] c(1) by auto
  have "hd (label c) \<in> range Ch"
    using c(2) label_nonempty [OF cwf(1)] Node.prems(3) by (metis hd_append2 hd_map rangeI)
  then have st: "ntype c = NODE_STATIC" by (auto simp: label_def split: node_type.splits)
  then obtain s where s: "seg = nprefix c @ s" "ts' = map Ch s"
    using c(2) by (auto simp: label_def map_eq_append_conv dest: map_injective [OF _ injI])
  note lab = label_static [OF st]
  have r: "route ?n (map Ch (nprefix c) @ ts) v = route c ts v" for ts v
    using edge_route_unfold_unique [OF wf, of c ts v] c(1) by (simp add: lab)
  have nd: "node_at ?n (map Ch (nprefix c) @ ts) = node_at c ts" for ts
    using node_at_label [OF wf, of c ts] c(1) by (simp add: lab)
  show ?case
  proof (cases "s = []")
    case True
    then show ?thesis using s r nd reach_child [OF c(1) st] cwf by auto
  next
    case False
    from Node.IH [OF c(1) cwf(2) c(3) [unfolded s(2)] False] obtain e
      where e: "static_reach (nchildren c) s e" "wf_node e" "\<forall>ts v. route c (map Ch s @ ts) v = route e ts v"
        "\<forall>ts. node_at c (map Ch s @ ts) = node_at e ts" by blast
    then show ?thesis using reach_below [OF c(1) st e(1)] r nd by (auto simp: s(1))
  qed
qed

lemma route_token:
  assumes "wf_node n" and "route n (t # ts) v" and "t \<notin> range Ch"
  shows "\<exists>c\<in>set (nchildren n). label c = [t] \<and> route c ts v \<and> wf_node c \<and>
     (\<forall>us. node_at n (t # us) = node_at c us)"
proof -
  obtain c ts' where c: "c \<in> set (nchildren n)" "t # ts = label c @ ts'" "route c ts' v"
    using assms(2) unfolding route_iff [of n] edge_route_def by blast
  have "hd (label c) = t"
    using c(2) label_nonempty [OF wf_nodeD(2) [OF assms(1) c(1)]] by (metis hd_append2 list.sel(1))
  then have "ntype c \<noteq> NODE_STATIC"
    using assms(3) label_nonempty [OF wf_nodeD(2) [OF assms(1) c(1)]] by (auto simp: label_def hd_map)
  then have "label c = [t]"
    using c(2) by (cases "ntype c") (auto simp: label_def)
  with c node_at_label [OF assms(1) c(1)] wf_nodeD(3) [OF assms(1) c(1)] show ?thesis by auto
qed

lemma instance_matches:
  "instance_of pat path ps \<Longrightarrow> wf_node n \<Longrightarrow> route n (tokens pat) v \<Longrightarrow> \<forall>b\<in>bounds pat. node_at n b \<Longrightarrow>
     matches n path (tokens pat) ps v"
proof (induction arbitrary: n rule: instance_of.induct)
  case (inst_end pat path)
  then have "tokens pat = []" by (auto simp: tokens.simps [of pat] split: prod.splits)
  with inst_end show ?case using match_end route_Nil by fastforce
next
  case (inst_static pat seg rest path p ps)
  then have pat: "pat \<noteq> []" by (auto simp: next_segment_def skip_slash_def)
  obtain s name where seg: "seg = s # name" using inst_static.hyps(2) by (cases seg) auto
  have tok: "tokens pat = map Ch seg @ tokens rest" "bounds pat = insert [] ((@) (map Ch seg) ` bounds rest)"
    using pat inst_static.hyps(1,3,4) by (simp_all add: tokens.simps [of pat] bounds.simps [of pat] seg)
  have "[] \<in> bounds rest" by (subst bounds.simps) (auto split: prod.splits option.splits list.splits)
  then have "node_at n (map Ch seg)" using inst_static.prems(3) tok(2) by force
  from node_at_static [OF inst_static.prems(1) this inst_static.hyps(2)] obtain c
    where c: "static_reach (nchildren n) seg c" "wf_node c" "route c (tokens rest) v" "\<forall>b\<in>bounds rest. node_at c b"
    using inst_static.prems(2,3) by (auto simp: tok)
  have "p \<noteq> []" using inst_static.hyps(2,6) by auto
  then show ?case
    unfolding tok using match_static [OF inst_static.hyps(5) _ inst_static.hyps(6) [symmetric] c(1)]
      inst_static.IH [OF c(2-4)] by blast
next
  case (inst_param pat x rest path p ps)
  then have pat: "pat \<noteq> []" by (auto simp: next_segment_def skip_slash_def)
  have tok: "tokens pat = Par x # tokens rest" "bounds pat = insert [] ((#) (Par x) ` bounds rest)"
    using pat inst_param.hyps(1) by (simp_all add: tokens.simps [of pat] bounds.simps [of pat])
  from route_token [OF inst_param.prems(1), of "Par x" "tokens rest" v] obtain c
    where c: "c \<in> set (nchildren n)" "label c = [Par x]" "route c (tokens rest) v" "wf_node c"
      "\<forall>b\<in>bounds rest. node_at c b"
    using inst_param.prems(2,3) by (auto simp: tok)
  then have "ntype c = NODE_PARAM" "x = the (nparam c)"
    by (auto simp: label_def split: node_type.splits)
  then show ?case
    unfolding tok using match_param [OF inst_param.hyps(2,3) c(1)] inst_param.IH [OF c(4,3,5)] by blast
next
  case (inst_wild pat x rest path p)
  then have pat: "pat \<noteq> []" by (auto simp: next_segment_def skip_slash_def)
  have tok: "tokens pat = [Wild x]" using pat inst_wild.hyps(1) by (simp add: tokens.simps [of pat])
  from route_token [OF inst_wild.prems(1), of "Wild x" "[]" v] obtain c
    where c: "c \<in> set (nchildren n)" "label c = [Wild x]" "route c [] v" "wf_node c"
    using inst_wild.prems(2) by (auto simp: tok)
  then have "ntype c = NODE_WILDCARD" "x = the (nparam c)" "node_val (ndata c) = Some v"
    using route_Nil [OF c(4)] by (auto simp: label_def split: node_type.splits)
  then show ?case unfolding tok using match_wild [OF inst_wild.hyps(2,3) c(1)] by blast
qed

lemma static_reach_route:
  "static_reach cs seg c \<Longrightarrow> cs = nchildren n \<Longrightarrow> route c ts v \<Longrightarrow> route n (map Ch seg @ ts) v"
proof (induction arbitrary: n rule: static_reach.induct)
  case (reach_child c cs)
  then have "edge_route c (map Ch (nprefix c) @ ts) v" by (auto simp: edge_route_def label_def)
  with reach_child show ?case unfolding route_iff [of n] by blast
next
  case (reach_below c cs s m)
  then have "edge_route c (map Ch (nprefix c @ s) @ ts) v"
    by (auto simp: edge_route_def label_def)
  with reach_below show ?case unfolding route_iff [of n] by blast
qed

lemma matches_route: "matches n path ts ps v \<Longrightarrow> route n ts v"
proof (induction rule: matches.induct)
  case (match_end path n v)
  then show ?case unfolding route_iff [of n] by blast
next
  case (match_static path p seg n c ts ps v)
  then show ?case by (blast intro: static_reach_route)
next
  case (match_param path p c n x ts ps v)
  then have "edge_route c (Par x # ts) v" by (auto simp: edge_route_def label_def)
  with match_param show ?case unfolding route_iff [of n] by blast
next
  case (match_wild path p c n x v)
  then have "route c [] v" unfolding route_iff [of c] by blast
  then have "edge_route c [Wild x] v" using match_wild by (auto simp: edge_route_def label_def)
  with match_wild show ?case unfolding route_iff [of n] by blast
qed

lemma route_unique: "wf_node n \<Longrightarrow> route n ts v \<Longrightarrow> route n ts v' \<Longrightarrow> v = v'"
proof (induction n arbitrary: ts)
  case (Node d cs)
  let ?n = "Node d cs"
  show ?case
  proof (cases "ts = []")
    case True
    then show ?thesis using Node.prems route_Nil [OF Node.prems(1)] by simp
  next
    case False
    then obtain c ts' where c: "c \<in> set cs" "ts = label c @ ts'" "route c ts' v"
      using Node.prems(2) unfolding route_iff [of ?n] edge_route_def by auto
    then have "route c ts' v'"
      using edge_route_unfold_unique [OF Node.prems(1), of c ts' v'] Node.prems(3) by simp
    then show ?thesis using Node.IH [OF c(1) _ c(3)] wf_nodeD(3) [OF Node.prems(1)] c(1) by simp
  qed
qed

lemma pref_all_static: "pref ts ts' \<Longrightarrow> set ts' \<subseteq> range Ch \<Longrightarrow> ts = ts'"
  by (induction ts ts' rule: pref.induct) (auto split: if_splits)

end
