(* ===== verification/Route_Store.thy ===== *)
theory Route_Store
  imports Iohttp_Prelude
begin

text \<open>
  The interface between a route table and the code that registers routes: an insertion that may
  refuse a pattern, the set of routes the table holds, and the positions a later lookup needs.
  Registering a list of routes is the client; its facts are proved once from the laws.
\<close>

text \<open>Registering routes in order, keeping what was accepted.\<close>

fun register ::
  "('t \<Rightarrow> 'k \<Rightarrow> 'v \<Rightarrow> (unit, 't) outcome) \<Rightarrow> 't \<Rightarrow> ('k \<times> 'v) list \<Rightarrow> 't \<times> ('k \<times> 'v) list" where
  "register ins t [] = (t, [])"
| "register ins t ((k, v) # xs) =
     (case ins t k v of
        (Inr _, t') \<Rightarrow> (let (t'', acc) = register ins t' xs in (t'', (k, v) # acc))
      | (Inl _, t') \<Rightarrow> register ins t' xs)"

locale route_store =
  fixes ins :: "'t \<Rightarrow> 'k \<Rightarrow> 'v \<Rightarrow> (unit, 't) outcome"
    and inv :: "'t \<Rightarrow> bool"
    and routes :: "'t \<Rightarrow> ('a \<times> 'v) set"
    and key :: "'k \<Rightarrow> 'a"
    and ready :: "'t \<Rightarrow> 'k \<Rightarrow> bool"
  assumes ins_inv: "inv t \<Longrightarrow> inv (snd (ins t k v))"
    and ins_ok: "inv t \<Longrightarrow> fst (ins t k v) = Inr u \<Longrightarrow>
      key k \<notin> fst ` routes t \<and> routes (snd (ins t k v)) = insert (key k, v) (routes t)"
    and ins_err: "inv t \<Longrightarrow> fst (ins t k v) = Inl e \<Longrightarrow> routes (snd (ins t k v)) = routes t"
    and ins_ready: "inv t \<Longrightarrow> fst (ins t k v) = Inr u \<Longrightarrow> ready (snd (ins t k v)) k"
    and ready_mono: "inv t \<Longrightarrow> ready t k' \<Longrightarrow> ready (snd (ins t k v)) k'"
begin

lemma register_inv: "inv t \<Longrightarrow> inv (fst (register ins t xs))"
proof (induction xs arbitrary: t)
  case (Cons x xs)
  obtain k v where x: "x = (k, v)" by (rule prod.exhaust)
  obtain rc t' where r: "ins t k v = (rc, t')" by (rule prod.exhaust)
  have "inv t'" using ins_inv [OF Cons.prems, of k v] by (simp add: r)
  from Cons.IH [OF this] show ?case by (auto simp: x r split: sum.splits prod.splits)
qed simp

lemma register_ready: "inv t \<Longrightarrow> ready t k' \<Longrightarrow> ready (fst (register ins t xs)) k'"
proof (induction xs arbitrary: t)
  case (Cons x xs)
  obtain k v where x: "x = (k, v)" by (rule prod.exhaust)
  obtain rc t' where r: "ins t k v = (rc, t')" by (rule prod.exhaust)
  have "inv t'" "ready t' k'"
    using ins_inv [OF Cons.prems(1), of k v] ready_mono [OF Cons.prems, of k v] by (simp_all add: r)
  from Cons.IH [OF this] show ?case by (auto simp: x r split: sum.splits prod.splits)
qed simp

theorem register_routes:
  assumes "inv t" and "register ins t xs = (t', acc)"
  shows "routes t' = (\<lambda>(k, v). (key k, v)) ` set acc \<union> routes t"
    and "distinct (map (key \<circ> fst) acc)"
    and "\<forall>(k, v)\<in>set acc. key k \<notin> fst ` routes t \<and> ready t' k \<and> (k, v) \<in> set xs"
proof -
  have "routes t' = (\<lambda>(k, v). (key k, v)) ` set acc \<union> routes t \<and> distinct (map (key \<circ> fst) acc) \<and>
      (\<forall>(k, v)\<in>set acc. key k \<notin> fst ` routes t \<and> ready t' k \<and> (k, v) \<in> set xs)"
    using assms
  proof (induction xs arbitrary: t acc)
    case (Cons x xs)
    obtain k v where x: "x = (k, v)" by (rule prod.exhaust)
    obtain rc t1 where r: "ins t k v = (rc, t1)" by (rule prod.exhaust)
    have inv1: "inv t1" using ins_inv [OF Cons.prems(1), of k v] by (simp add: r)
    show ?case
    proof (cases rc)
      case (Inl e)
      then have "routes t1 = routes t" using ins_err [OF Cons.prems(1), of k v] by (simp add: r)
      with Cons.IH [OF inv1] Cons.prems(2) show ?thesis by (auto simp: x r Inl)
    next
      case (Inr u)
      obtain acc' where acc: "register ins t1 xs = (t', acc')" "acc = (k, v) # acc'"
        using Cons.prems(2) by (auto simp: x r Inr split: prod.splits)
      have t1: "key k \<notin> fst ` routes t" "routes t1 = insert (key k, v) (routes t)" "ready t1 k"
        using ins_ok [OF Cons.prems(1), of k v] ins_ready [OF Cons.prems(1), of k v] by (auto simp: r Inr)
      have "ready t' k" using register_ready [OF inv1 t1(3), of xs] by (simp add: acc)
      with Cons.IH [OF inv1 acc(1)] t1 show ?thesis by (auto simp: acc x)
    qed
  qed simp
  then show "routes t' = (\<lambda>(k, v). (key k, v)) ` set acc \<union> routes t"
    and "distinct (map (key \<circ> fst) acc)"
    and "\<forall>(k, v)\<in>set acc. key k \<notin> fst ` routes t \<and> ready t' k \<and> (k, v) \<in> set xs"
    by blast+
qed

end

end
