(* ===== verification/Radix_Table.thy ===== *)
theory Radix_Table
  imports Radix_Lookup Route_Store
begin

text \<open>
  The radix trie as a route table: when a static pattern is accepted, the trie as an instance of
  the route store interface, and the properties of registering routes and looking paths up.
\<close>

definition routes_of :: "('h, 'o, 'm) rnode \<Rightarrow> (token list \<times> ('h, 'o, 'm) route_val) set" where
  "routes_of t = {(ts, v). route t ts v}"

definition radix_ins ::
  "('h, 'o, 'm) rnode \<Rightarrow> string \<Rightarrow> ('h, 'o, 'm) route_val \<Rightarrow> (unit, ('h, 'o, 'm) rnode) outcome" where
  "radix_ins t pat v = ioh_radix_insert t pat (Some (rv_handler v)) (rv_metadata v) (rv_meta v)"

definition boundaries_ready :: "('h, 'o, 'm) rnode \<Rightarrow> string \<Rightarrow> bool" where
  "boundaries_ready t pat \<longleftrightarrow> (\<forall>b\<in>bounds pat. node_at t b)"

text \<open>
  Which paths a token list stands for, without reference to any trie: tokens are consumed one path
  segment at a time.
\<close>

inductive tokens_match :: "token list \<Rightarrow> string \<Rightarrow> ioh_param list \<Rightarrow> bool" where
  tm_end: "skip_slash path = [] \<Longrightarrow> tokens_match [] path []"
| tm_static: "skip_slash path = p \<Longrightarrow> p \<noteq> [] \<Longrightarrow> tokens_match ts (dropWhile (\<lambda>c. c \<noteq> slash) p) ps \<Longrightarrow>
     tokens_match (map Ch (takeWhile (\<lambda>c. c \<noteq> slash) p) @ ts) path ps"
| tm_param: "skip_slash path = p \<Longrightarrow> p \<noteq> [] \<Longrightarrow> tokens_match ts (dropWhile (\<lambda>c. c \<noteq> slash) p) ps \<Longrightarrow>
     tokens_match (Par x # ts) path (\<lparr>p_name = x, p_value = takeWhile (\<lambda>c. c \<noteq> slash) p\<rparr> # ps)"
| tm_wild: "skip_slash path = p \<Longrightarrow> p \<noteq> [] \<Longrightarrow> tokens_match [Wild x] path [\<lparr>p_name = x, p_value = p\<rparr>]"

text \<open>The pattern whose segments are given, each behind a slash.\<close>

definition join_segments :: "string list \<Rightarrow> string" where
  "join_segments segs = concat (map (\<lambda>s. slash # s) segs)"

definition static_segment :: "string \<Rightarrow> bool" where
  "static_segment s \<longleftrightarrow> s \<noteq> [] \<and> slash \<notin> set s \<and> hd s \<noteq> CHR '':'' \<and> hd s \<noteq> CHR ''*''"

subsection \<open>Static patterns\<close>

text \<open>A route that starts with a character goes through the child with that first character.\<close>

lemma route_via_static_child:
  assumes wf: "wf_node n" and c: "c \<in> set (nchildren n)" "ntype c = NODE_STATIC"
    and seg: "seg \<noteq> []" "hd seg = hd (nprefix c)"
  shows "route n (map Ch seg @ ts) v \<longleftrightarrow> edge_route c (map Ch seg @ ts) v"
proof
  assume "route n (map Ch seg @ ts) v"
  then obtain d where d: "d \<in> set (nchildren n)" "edge_route d (map Ch seg @ ts) v"
    using seg(1) unfolding route_iff [of n] by blast
  then obtain ts' where ts': "map Ch seg @ ts = label d @ ts'" by (auto simp: edge_route_def)
  note wd = wf_nodeD(2) [OF wf d(1)]
  have "hd (label d) = Ch (hd seg)"
    using ts' label_nonempty [OF wd] seg(1) by (metis hd_append2 hd_map map_is_Nil_conv)
  then have "ckey d = ckey c"
    using seg wd c(2) by (auto simp: label_def ckey_def wf_edge_def hd_map split: node_type.splits)
  then have "d = c" using wf_nodeD(1) [OF wf] d(1) c(1) by (auto simp: distinct_map inj_on_def)
  with d(2) show "edge_route c (map Ch seg @ ts) v" by simp
next
  assume "edge_route c (map Ch seg @ ts) v"
  with c(1) show "route n (map Ch seg @ ts) v" unfolding route_iff [of n] by blast
qed

text \<open>Where a static segment leads: the status is that of the insertion below a node with the same routes.\<close>

lemma static_segment_target:
  assumes "wf_node n" and "seg \<noteq> []" and "slash \<notin> set seg" and rest: "rest = [] \<or> hd rest = slash"
  shows "\<exists>m. wf_node m \<and> fst (insert_static_segment n seg rest v) = fst (insert_recursive m rest v) \<and>
     (\<forall>ts v. route m ts v = route n (map Ch seg @ ts) v)"
  using assms(1-3)
proof (induction "size n" arbitrary: n seg rule: less_induct)
  case less
  note code = insert_static_segment.simps [of n]
  show ?case
  proof (cases "find_static_child (seg @ rest) (nchildren n)")
    case None
    let ?m = "ioh_radix_node_create seg NODE_STATIC"
    have "\<not> route n (map Ch seg @ ts) v'" for ts v'
    proof
      assume "route n (map Ch seg @ ts) v'"
      then obtain d ts' where d: "d \<in> set (nchildren n)" "map Ch seg @ ts = label d @ ts'"
        using less.prems(2) unfolding route_iff [of n] edge_route_def by blast
      have "ckey ?m = ckey d"
        by (rule label_ckey [of _ _ ts ts']) (use d less.prems wf_nodeD(2) [OF less.prems(1)] in \<open>auto simp: wf_edge_create\<close>)
      with d(1) fresh_static_ckey [OF less.prems(1) None less.prems(2)] show False by auto
    qed
    then show ?thesis by (intro exI [of _ ?m]) (simp add: code None split: prod.splits)
  next
    case (Some i)
    define c where "c = nchildren n ! i"
    define k where "k = common_prefix_len seg (nprefix c)"
    note c = static_child_facts [OF less.prems(1) Some rest, folded c_def, folded k_def]
    note code = code Some Let_def c(5) c_def [symmetric] k_def [symmetric]
    have k: "0 < k" "k \<le> length seg" "k \<le> length (nprefix c)" "take k seg = take k (nprefix c)"
      using c(6) common_prefix_len_le common_prefix_len_take by (simp_all add: k_def)
    have via: "route n (map Ch seg @ ts) v' \<longleftrightarrow> edge_route c (map Ch seg @ ts) v'" for ts v'
    proof (rule route_via_static_child [OF less.prems(1) _ c(2) less.prems(2)])
      show "c \<in> set (nchildren n)" using c(1) by (simp add: c_def)
      show "hd seg = hd (nprefix c)" using k by (metis hd_take)
    qed
    have lab: "label c = map Ch (nprefix c)" by (rule label_static [OF c(2)])
    consider "k = length (nprefix c)" "k = length seg" | "k < length (nprefix c)" "k = length seg"
      | "k < length (nprefix c)" "k < length seg" | "k = length (nprefix c)" "k < length seg"
      using k by linarith
    then show ?thesis
    proof cases
      case 1
      then have "label c = map Ch seg" using k(4) by (simp add: lab)
      then show ?thesis using 1 c(4) via by (intro exI [of _ c]) (simp add: code edge_route_def)
    next
      case 2
      let ?m = "split_static_node c k"
      have "label ?m = map Ch seg" using 2 k(4) split_static_node_sel [OF c(2), of k] by (simp add: label_static)
      then have "edge_route ?m (map Ch seg @ ts) v' = route ?m ts v'" for ts v' by (simp add: edge_route_def)
      then show ?thesis using 2 via edge_route_split [OF c(2)] wf_split(1) [OF c(2-4) k(1)]
        by (intro exI [of _ ?m]) (simp add: code)
    next
      case 3
      have "seg ! k \<noteq> nprefix c ! k"
        using common_prefix_len_diff [of seg "nprefix c"] 3 by (simp add: k_def hd_drop_conv_nth)
      then have "map Ch seg @ ts \<noteq> map Ch (nprefix c) @ ts'" for ts ts'
        using 3 by (metis length_map nth_append nth_map token.inject(1))
      then have "\<not> edge_route c (map Ch seg @ ts) v'" for ts v' by (simp add: edge_route_def lab)
      then show ?thesis using 3 via
        by (intro exI [of _ "ioh_radix_node_create (drop k seg) NODE_STATIC"]) (simp add: code split: prod.splits)
    next
      case 4
      have seg: "map Ch (nprefix c) @ map Ch (drop k seg) = map Ch seg"
        using 4 k(4) map_Ch_split(1) [of k seg "[]"] by simp
      have "edge_route c (map Ch seg @ ts) v' = route c (map Ch (drop k seg) @ ts) v'" for ts v'
        unfolding seg [symmetric] append.assoc by (simp add: edge_route_def lab)
      moreover from less.hyps [of c "drop k seg"] obtain m where "wf_node m"
          "fst (insert_static_segment c (drop k seg) rest v) = fst (insert_recursive m rest v)"
          "\<forall>ts v. route m ts v = route c (map Ch (drop k seg) @ ts) v"
        using 4 c less.prems size_child_less [of i n] by (auto simp: c_def dest: in_set_dropD)
      ultimately show ?thesis using 4 via by (intro exI [of _ m]) (simp add: code)
    qed
  qed
qed

text \<open>A static pattern is refused exactly when its key is taken.\<close>

lemma static_insert_succeeds:
  "wf_node n \<Longrightarrow> set (tokens pat) \<subseteq> range Ch \<Longrightarrow> \<forall>v'. \<not> route n (tokens pat) v' \<Longrightarrow>
     fst (insert_recursive n pat v) = Inr ()"
proof (induction "length pat" arbitrary: n pat rule: less_induct)
  case less
  obtain seg rest where ns: "next_segment pat = (seg, rest)" by (rule prod.exhaust)
  note code = insert_recursive.simps [of n pat] tokens.simps [of pat] ns
  show ?case
  proof (cases "pat = [] \<or> seg = None \<or> seg = Some []")
    case True
    then have "insert_recursive n pat v = set_handler_here v n" "tokens pat = []" by (auto simp: code)
    moreover from this have "node_val (ndata n) = None"
      using less.prems route_Nil [OF less.prems(1)] by (cases "node_val (ndata n)") auto
    then have "nhandler n = None" by (simp add: node_val_def)
    ultimately show ?thesis by (simp add: set_handler_here_def)
  next
    case False
    then obtain s name where sn: "seg = Some (s # name)" by (cases seg) (auto simp: neq_Nil_conv)
    note ns' = ns [unfolded sn]
    have s: "s \<noteq> CHR ''*''" "s \<noteq> CHR '':''" using less.prems(2) False by (auto simp: code sn split: if_splits)
    let ?n = "ioh_radix_increment_priority n"
    obtain m where m: "wf_node m"
        "fst (insert_static_segment ?n (s # name) rest v) = fst (insert_recursive m rest v)"
        "\<forall>ts v. route m ts v = route ?n (map Ch (s # name) @ ts) v"
      using static_segment_target [of ?n "s # name" rest v] less.prems(1) next_segment_SomeD [OF ns'] by auto
    have "fst (insert_recursive m rest v) = Inr ()"
      by (rule less.hyps [OF next_segment_shorter [OF ns'] m(1)])
        (use less.prems(2,3) False s m(3) in \<open>auto simp: code sn\<close>)
    then show ?thesis using m(2) False s by (simp add: code sn)
  qed
qed

lemma next_segment_join:
  "static_segment s \<Longrightarrow> next_segment (join_segments (s # segs)) = (Some s, join_segments segs)"
proof -
  assume s: "static_segment s"
  have r: "join_segments segs = [] \<or> hd (join_segments segs) = slash"
    by (cases segs) (auto simp: join_segments_def)
  have "join_segments (s # segs) = slash # s @ join_segments segs" by (simp add: join_segments_def)
  with s r show ?thesis
    by (simp add: next_segment_def skip_slash_def Let_def static_segment_def takeWhile_append_delim
        dropWhile_append_delim)
qed

lemma join_segments_static:
  assumes "\<forall>s\<in>set segs. static_segment s"
  shows "tokens (join_segments segs) = map Ch (concat segs)"
    and "instance_of (join_segments segs) (join_segments segs) []"
proof -
  have "tokens (join_segments segs) = map Ch (concat segs) \<and>
      instance_of (join_segments segs) (join_segments segs) []"
    using assms
  proof (induction segs)
    case Nil
    then show ?case by (auto simp: join_segments_def tokens.simps skip_slash_def intro: inst_end)
  next
    case (Cons s segs)
    let ?p = "join_segments (s # segs)"
    have s: "static_segment s" using Cons.prems by simp
    note ns = next_segment_join [OF s, of segs]
    obtain a as where a: "s = a # as" using s by (cases s) (auto simp: static_segment_def)
    have "?p \<noteq> []" by (simp add: join_segments_def)
    then have "tokens ?p = map Ch s @ tokens (join_segments segs)"
      using s unfolding tokens.simps [of ?p] ns by (simp add: a static_segment_def)
    moreover have "instance_of ?p ?p []"
    proof (rule inst_static [OF ns])
      show "skip_slash ?p = s @ join_segments segs" by (simp add: join_segments_def skip_slash_def)
      have r: "join_segments segs = [] \<or> hd (join_segments segs) = slash"
        by (cases segs) (auto simp: join_segments_def)
      show "takeWhile (\<lambda>c. c \<noteq> slash) (s @ join_segments segs) = s"
        using s r by (intro takeWhile_append_delim) (simp_all add: static_segment_def)
      have "dropWhile (\<lambda>c. c \<noteq> slash) (s @ join_segments segs) = join_segments segs"
        using s r by (intro dropWhile_append_delim) (simp_all add: static_segment_def)
      then show "instance_of (join_segments segs) (dropWhile (\<lambda>c. c \<noteq> slash) (s @ join_segments segs)) []"
        using Cons by simp
    qed (use s in \<open>simp_all add: static_segment_def\<close>)
    ultimately show ?case using Cons by simp
  qed
  then show "tokens (join_segments segs) = map Ch (concat segs)"
    and "instance_of (join_segments segs) (join_segments segs) []" by blast+
qed

subsection \<open>The trie is a route store\<close>

lemma radix_insert_contract:
  assumes "wf_node t"
  shows "insert_spec t (radix_ins t pat v) (tokens pat) (bounds pat) v"
  using insert_recursive_contract [OF assms, of pat v] insert_spec_unchanged [OF assms]
  by (cases v) (simp add: radix_ins_def ioh_radix_insert_def)

interpretation radix: route_store radix_ins wf_node routes_of tokens boundaries_ready
proof
  fix t :: "('h, 'o, 'm) rnode" and pat pat' v u e
  assume wf: "wf_node t"
  note spec = radix_insert_contract [OF wf, of pat v, unfolded insert_spec_def]
  show "wf_node (snd (radix_ins t pat v))" using spec by blast
  show "boundaries_ready t pat' \<Longrightarrow> boundaries_ready (snd (radix_ins t pat v)) pat'"
    using spec by (auto simp: boundaries_ready_def)
  show "fst (radix_ins t pat v) = Inr u \<Longrightarrow> tokens pat \<notin> fst ` routes_of t \<and>
      routes_of (snd (radix_ins t pat v)) = insert (tokens pat, v) (routes_of t)"
    using spec by (auto simp: routes_of_def)
  show "fst (radix_ins t pat v) = Inl e \<Longrightarrow> routes_of (snd (radix_ins t pat v)) = routes_of t"
    using spec by (simp add: routes_of_def)
  show "fst (radix_ins t pat v) = Inr u \<Longrightarrow> boundaries_ready (snd (radix_ins t pat v)) pat"
    using spec by (simp add: boundaries_ready_def)
qed

lemma wf_radix_create [simp]: "wf_node ioh_radix_create"
  by (simp add: ioh_radix_create_def)

lemma routes_of_create [simp]: "routes_of ioh_radix_create = {}"
  by (simp add: routes_of_def ioh_radix_create_def)

lemma matches_tokens: "matches n path ts ps v \<Longrightarrow> tokens_match ts path ps"
  by (induction rule: matches.induct) (auto intro: tokens_match.intros)

lemma matches_static_params: "matches n path ts ps v \<Longrightarrow> set ts \<subseteq> range Ch \<Longrightarrow> ps = []"
  by (induction rule: matches.induct) auto

text \<open>What a lookup from an empty match record returns.\<close>

lemma radix_lookup_selects:
  assumes "wf_node t" and "path \<noteq> []"
  shows "ioh_radix_lookup t path = Inr m \<Longrightarrow>
      \<exists>ts ps v. matches t path ts ps v \<and> length ps \<le> IOH_MAX_PATH_PARAMS \<and> m = found v ps empty_match \<and>
        (\<forall>ts' ps' v'. matches t path ts' ps' v' \<longrightarrow> length ps' \<le> IOH_MAX_PATH_PARAMS \<longrightarrow> pref ts ts')"
    and "ioh_radix_lookup t path = Inl e \<Longrightarrow>
      e = ENOENT \<and> (\<forall>ts ps v. matches t path ts ps v \<longrightarrow> IOH_MAX_PATH_PARAMS < length ps)"
proof -
  have fits: "fits empty_match ps \<longleftrightarrow> length ps \<le> IOH_MAX_PATH_PARAMS" for ps
    by (simp add: fits_def empty_match_def)
  obtain ok m' where r: "lookup_recursive t path empty_match = (ok, m')" by (rule prod.exhaust)
  have sel: "selects (rec_cands t path) empty_match (ok, m')"
    by (rule lookup_okD(1) [OF lookup_ok [OF assms(1)] _ r]) (simp add: fits)
  show "\<exists>ts ps v. matches t path ts ps v \<and> length ps \<le> IOH_MAX_PATH_PARAMS \<and> m = found v ps empty_match \<and>
        (\<forall>ts' ps' v'. matches t path ts' ps' v' \<longrightarrow> length ps' \<le> IOH_MAX_PATH_PARAMS \<longrightarrow> pref ts ts')"
    if "ioh_radix_lookup t path = Inr m"
  proof -
    have ok: ok and m: "m' = m" using that r assms(2) by (auto simp: ioh_radix_lookup_def split: bool.splits)
    show ?thesis
      using sel ok unfolding m rec_cands_def by (rule selectsE) (simp only: mem_Collect_eq prod.case fits, blast)
  qed
  show "e = ENOENT \<and> (\<forall>ts ps v. matches t path ts ps v \<longrightarrow> IOH_MAX_PATH_PARAMS < length ps)"
    if "ioh_radix_lookup t path = Inl e"
    using that r assms(2) sel
    by (cases ok) (auto simp: ioh_radix_lookup_def selects_False rec_cands_def fits not_le)
qed

text \<open>The error codes of an insertion.\<close>

lemma static_segment_status:
  "(\<And>m. fst (insert_recursive m rest v) \<in> E) \<Longrightarrow> fst (insert_static_segment n seg rest v) \<in> E"
proof (induction "size n" arbitrary: n seg rule: less_induct)
  case less
  show ?case
  proof (cases "find_static_child (seg @ rest) (nchildren n)")
    case None
    then show ?thesis using less.prems by (simp add: insert_static_segment.simps [of n] case_prod_beta)
  next
    case (Some i)
    then have "fst (insert_static_segment (nchildren n ! i) s rest v) \<in> E" for s
      using less size_child_less [of i n] find_static_child_SomeD by blast
    then show ?thesis
      using less.prems by (simp add: insert_static_segment.simps [of n] case_prod_beta Some Let_def)
  qed
qed

lemma insert_status:
  assumes E: "Inr () \<in> E" "Inl EEXIST \<in> E" "Inl EINVAL \<in> E"
  shows "fst (insert_recursive n pat v) \<in> E"
proof (induction "length pat" arbitrary: n pat rule: less_induct)
  case less
  obtain seg rest where ns: "next_segment pat = (seg, rest)" by (rule prod.exhaust)
  show ?case
  proof (cases "pat = [] \<or> seg = None \<or> seg = Some []")
    case True
    then show ?thesis using E by (auto simp: insert_recursive.simps [of n pat] ns set_handler_here_def)
  next
    case False
    then obtain s name where sn: "seg = Some (s # name)" by (cases seg) (auto simp: neq_Nil_conv)
    have ih: "fst (insert_recursive m rest v) \<in> E" for m
      by (rule less) (rule next_segment_shorter [OF ns [unfolded sn]])
    have "fst (insert_wildcard n name v) \<in> E"
      using E by (simp add: insert_wildcard_def Let_def split: option.split)
    with ih static_segment_status [OF ih] E False show ?thesis
      by (auto simp: insert_recursive.simps [of n pat] ns sn case_prod_beta split: option.split)
  qed
qed

lemma insert_errors: "fst (insert_recursive n pat v) \<in> {Inr (), Inl EEXIST, Inl EINVAL}"
  by (rule insert_status) simp_all

text \<open>The value registered with a pattern and the match record a lookup returns for it.\<close>

definition route_match :: "('h, 'o, 'm) route_val \<Rightarrow> ioh_param list \<Rightarrow> ('h, 'o, 'm) radix_match" where
  "route_match v ps = \<lparr>rm_handler = Some (rv_handler v), rm_metadata = rv_metadata v,
     rm_meta = rv_meta v, rm_params = ps\<rparr>"

lemma found_empty_match: "found v ps empty_match = route_match v ps"
  by (simp add: found_def empty_match_def route_match_def)

text \<open>A static route whose boundaries are nodes is found under its own text.\<close>

lemma radix_lookup_static_route:
  assumes wf: "wf_node t" and route: "route t (tokens (join_segments segs)) v"
    and bs: "boundaries_ready t (join_segments segs)"
    and segs: "segs \<noteq> []" "\<forall>s\<in>set segs. static_segment s"
  shows "ioh_radix_lookup t (join_segments segs) = Inr (route_match v [])"
proof -
  note st = join_segments_static [OF segs(2)]
  let ?p = "join_segments segs"
  have ne: "?p \<noteq> []" using segs(1) by (cases segs) (simp_all add: join_segments_def)
  have m: "matches t ?p (tokens ?p) [] v"
    using instance_matches [OF st(2) wf route] bs by (simp add: boundaries_ready_def)
  note sel = radix_lookup_selects [OF wf ne]
  obtain r where r: "ioh_radix_lookup t ?p = Inr r"
    using sel(2) m by (cases "ioh_radix_lookup t ?p") fastforce+
  from sel(1) [OF r] m obtain ts ps v' where m': "matches t ?p ts ps v'" "r = route_match v' ps" "pref ts (tokens ?p)"
    unfolding found_empty_match by fastforce
  have ts: "ts = tokens ?p" by (rule pref_all_static [OF m'(3)]) (auto simp: st(1))
  have "v' = v" using route_unique [OF wf] matches_route m m'(1) ts by blast
  moreover have "ps = []"
    using matches_static_params [OF m'(1)] by (auto simp: ts st(1))
  ultimately show ?thesis using r m'(2) by simp
qed

text \<open>A route whose boundaries are nodes makes every instance of its pattern found.\<close>

lemma radix_lookup_instance:
  assumes wf: "wf_node t" and route: "route t (tokens pat) v" and bs: "boundaries_ready t pat"
    and inst: "instance_of pat path ps" and "length ps \<le> IOH_MAX_PATH_PARAMS" and "path \<noteq> []"
  obtains ts v' ps' where "ioh_radix_lookup t path = Inr (route_match v' ps')" "route t ts v'"
    "tokens_match ts path ps'" "length ps' \<le> IOH_MAX_PATH_PARAMS" "pref ts (tokens pat)"
proof -
  have m: "matches t path (tokens pat) ps v"
    using instance_matches [OF inst wf route] bs by (simp add: boundaries_ready_def)
  note sel = radix_lookup_selects [OF wf assms(6)]
  obtain r where r: "ioh_radix_lookup t path = Inr r"
    using sel(2) m assms(5) by (cases "ioh_radix_lookup t path") fastforce+
  from sel(1) [OF r] m assms(5) obtain ts ps' v' where "matches t path ts ps' v'"
      "length ps' \<le> IOH_MAX_PATH_PARAMS" "r = route_match v' ps'" "pref ts (tokens pat)"
    unfolding found_empty_match by blast
  then show thesis using that r matches_route matches_tokens by blast
qed

lemma registered:
  assumes "register radix_ins ioh_radix_create xs = (t, acc)"
  shows "wf_node t" and "route t ts v \<longleftrightarrow> (\<exists>pat. (pat, v) \<in> set acc \<and> ts = tokens pat)"
    and "(pat, v) \<in> set acc \<Longrightarrow> \<forall>b\<in>bounds pat. node_at t b"
proof -
  note reg = radix.register_routes [OF wf_radix_create assms]
  show "wf_node t" using radix.register_inv [OF wf_radix_create, of xs] by (simp add: assms)
  show "route t ts v \<longleftrightarrow> (\<exists>pat. (pat, v) \<in> set acc \<and> ts = tokens pat)"
    using reg(1) unfolding routes_of_create by (force simp: routes_of_def set_eq_iff image_iff)
  show "(pat, v) \<in> set acc \<Longrightarrow> \<forall>b\<in>bounds pat. node_at t b"
    using reg(3) by (auto simp: boundaries_ready_def)
qed

text \<open>A small table that exercises the three kinds of segments.\<close>

definition example_route :: "nat \<Rightarrow> (nat, unit, unit) route_val" where
  "example_route h = \<lparr>rv_handler = h, rv_metadata = None, rv_meta = None\<rparr>"

definition example_routes :: "(string \<times> (nat, unit, unit) route_val) list" where
  "example_routes = [(''/u/:id'', example_route 1), (''/u/me'', example_route 2),
     (''/f/*path'', example_route 3), (''/u/:id'', example_route 4)]"

definition example_table :: "(nat, unit, unit) rnode" where
  "example_table = fst (register radix_ins ioh_radix_create example_routes)"

lemma example_register:
  "register radix_ins ioh_radix_create example_routes = (example_table, take 3 example_routes)"
proof -
  have "snd (register radix_ins ioh_radix_create example_routes) = take 3 example_routes" by code_simp
  then show ?thesis unfolding example_table_def by (metis prod.collapse)
qed

lemma example_accepted:
  "(''/u/:id'', example_route 1) \<in> set (take 3 example_routes)"
  "(''/u/me'', example_route 2) \<in> set (take 3 example_routes)"
  by (simp_all add: example_routes_def)

lemma example_instance: "instance_of ''/u/:id'' ''/u/42'' [\<lparr>p_name = ''id'', p_value = ''42''\<rparr>]"
proof (rule inst_static)
  show "next_segment ''/u/:id'' = (Some ''u'', ''/:id'')" by code_simp
  show "instance_of ''/:id'' (dropWhile (\<lambda>c. c \<noteq> slash) ''u/42'') [\<lparr>p_name = ''id'', p_value = ''42''\<rparr>]"
    using inst_param [of "''/:id''" "''id''" "[]" "''/42''" "''42''" "[]"]
    by (simp add: next_segment_def skip_slash_def inst_end)
qed (simp_all add: skip_slash_def)

subsection \<open>Properties\<close>

text \<open>C5: inserting a pattern updates the set of routes like a map update.  The trie stays
  well-formed; on success the pattern starts with a slash, its key was free and exactly that key is
  bound to the new handler, options and metadata; on failure the error is \<^verbatim>\<open>-EINVAL\<close> or
  \<^verbatim>\<open>-EEXIST\<close> and no route is added or lost, whatever nodes were split on the way.\<close>

theorem radix_insert_refines_update:
  assumes "wf_node t" and "ioh_radix_insert t pat (Some h) opts meta = (rc, t')"
  shows "wf_node t' \<and>
     (case rc of
        Inr _ \<Rightarrow> pat \<noteq> [] \<and> hd pat = slash \<and> tokens pat \<notin> fst ` routes_of t \<and>
          routes_of t' = insert (tokens pat, \<lparr>rv_handler = h, rv_metadata = opts, rv_meta = meta\<rparr>) (routes_of t)
      | Inl e \<Rightarrow> e \<in> {EINVAL, EEXIST} \<and> routes_of t' = routes_of t)"
proof -
  let ?v = "\<lparr>rv_handler = h, rv_metadata = opts, rv_meta = meta\<rparr>"
  have r: "radix_ins t pat ?v = (rc, t')" using assms(2) by (simp add: radix_ins_def)
  have "wf_node t'" using radix.ins_inv [OF assms(1), of pat ?v] by (simp add: r)
  moreover have "rc = Inr () \<or> rc = Inl EEXIST \<or> rc = Inl EINVAL"
    using insert_errors [of t pat ?v] assms(2) by (auto simp: ioh_radix_insert_def split: if_splits)
  ultimately show ?thesis
    using radix.ins_ok [OF assms(1), of pat ?v] radix.ins_err [OF assms(1), of pat ?v] assms(2)
    by (auto simp: r ioh_radix_insert_def split: sum.splits if_splits)
qed

theorem radix_insert_refines_update_witness:
  "\<exists>t'. ioh_radix_insert ioh_radix_create ''/u/:id'' (Some (7::nat)) (None :: unit option) (None :: unit option) = (Inr (), t') \<and>
     routes_of t' = {([Ch (CHR ''u''), Par ''id''], \<lparr>rv_handler = 7, rv_metadata = None, rv_meta = None\<rparr>)}"
proof -
  let ?r = "ioh_radix_insert ioh_radix_create ''/u/:id'' (Some (7::nat)) (None :: unit option) (None :: unit option)"
  have ok: "fst ?r = Inr ()" by code_simp
  have tok: "tokens ''/u/:id'' = [Ch (CHR ''u''), Par ''id'']" by code_simp
  obtain t' where r: "?r = (Inr (), t')" using ok by (cases ?r) auto
  from radix_insert_refines_update [OF wf_radix_create r] show ?thesis
    using r by (intro exI [of _ t']) (simp add: tok)
qed

text \<open>A pattern of static segments is refused only when its key is taken: the insertion
  succeeds if and only if no stored route has the same characters.\<close>

theorem radix_static_insert_accepts:
  assumes "wf_node t" and "\<forall>s\<in>set segs. static_segment s" and "segs \<noteq> []"
  shows "fst (ioh_radix_insert t (join_segments segs) (Some h) opts meta) = Inr () \<longleftrightarrow>
     map Ch (concat segs) \<notin> fst ` routes_of t"
proof -
  let ?v = "\<lparr>rv_handler = h, rv_metadata = opts, rv_meta = meta\<rparr>" and ?pat = "join_segments segs"
  have "?pat \<noteq> []" "hd ?pat = slash" using assms(3) by (cases segs; simp add: join_segments_def)+
  then have r: "ioh_radix_insert t ?pat (Some h) opts meta = insert_recursive t ?pat ?v"
    by (simp add: ioh_radix_insert_def)
  note tok = join_segments_static(1) [OF assms(2)]
  show ?thesis
  proof
    assume "fst (ioh_radix_insert t ?pat (Some h) opts meta) = Inr ()"
    then have "fst (radix_ins t ?pat ?v) = Inr ()" by (simp add: radix_ins_def)
    from radix.ins_ok [OF assms(1) this] show "map Ch (concat segs) \<notin> fst ` routes_of t" by (simp add: tok)
  next
    assume "map Ch (concat segs) \<notin> fst ` routes_of t"
    then have "\<forall>v'. \<not> route t (tokens ?pat) v'" by (force simp: tok routes_of_def)
    then show "fst (ioh_radix_insert t ?pat (Some h) opts meta) = Inr ()"
      unfolding r by (intro static_insert_succeeds [OF assms(1)]) (auto simp: tok)
  qed
qed

theorem radix_static_insert_accepts_witness:
  "fst (ioh_radix_insert ioh_radix_create ''/api/v1'' (Some (1::nat)) (None :: unit option) (None :: unit option)) = Inr ()"
  using radix_static_insert_accepts
    [of "ioh_radix_create :: (nat, unit, unit) rnode" "[''api'', ''v1'']" 1 None None]
  by (simp add: static_segment_def join_segments_def)

text \<open>C6: lookup is complete and follows the documented priority.  After registering any list of
  routes, a path that is an instance of an accepted pattern with at most
  \<^verbatim>\<open>IOH_MAX_PATH_PARAMS\<close> parameters is always found; the answer is the handler, options and
  metadata of an accepted pattern that matches the path, with that pattern's parameter bindings, and
  this pattern is preferred (static over parameter over wildcard, from the left) or equal to the
  given one.\<close>

theorem radix_lookup_complete:
  assumes reg: "register radix_ins ioh_radix_create xs = (t, acc)" and pat: "(pat, v) \<in> set acc"
    and inst: "instance_of pat path ps" and "length ps \<le> IOH_MAX_PATH_PARAMS" and "path \<noteq> []"
  shows "\<exists>pat' v' ps'. (pat', v') \<in> set acc \<and> ioh_radix_lookup t path = Inr (route_match v' ps') \<and>
     tokens_match (tokens pat') path ps' \<and> length ps' \<le> IOH_MAX_PATH_PARAMS \<and> pref (tokens pat') (tokens pat)"
proof -
  note t = registered [OF reg]
  have "route t (tokens pat) v" "boundaries_ready t pat"
    using pat t(2,3) by (auto simp: boundaries_ready_def)
  from radix_lookup_instance [OF t(1) this inst assms(4,5)] show ?thesis using t(2) by metis
qed

theorem radix_lookup_complete_witness:
  "\<exists>pat' v' ps'. (pat', v') \<in> set (take 3 example_routes) \<and>
     ioh_radix_lookup example_table ''/u/42'' = Inr (route_match v' ps') \<and>
     tokens_match (tokens pat') ''/u/42'' ps' \<and> length ps' \<le> IOH_MAX_PATH_PARAMS \<and>
     pref (tokens pat') (tokens ''/u/:id'')"
  by (rule radix_lookup_complete [OF example_register example_accepted(1) example_instance])
    (simp_all add: IOH_MAX_PATH_PARAMS_def)

text \<open>C7: lookup is sound.  Whatever a lookup returns is the handler, options and metadata of an
  accepted pattern whose tokens match the path, with the parameter bindings of that match, and the
  bindings fit in the match record.\<close>

theorem radix_lookup_sound:
  assumes reg: "register radix_ins ioh_radix_create xs = (t, acc)" and r: "ioh_radix_lookup t path = Inr m"
  shows "\<exists>pat v ps. (pat, v) \<in> set acc \<and> m = route_match v ps \<and> tokens_match (tokens pat) path ps \<and>
     length ps \<le> IOH_MAX_PATH_PARAMS"
proof -
  note t = registered [OF reg]
  have "path \<noteq> []" using r by (auto simp: ioh_radix_lookup_def)
  from radix_lookup_selects(1) [OF t(1) this r] obtain ts ps v
    where m: "matches t path ts ps v" "length ps \<le> IOH_MAX_PATH_PARAMS" "m = route_match v ps"
    unfolding found_empty_match by blast
  from m(1) obtain pat where "(pat, v) \<in> set acc" "ts = tokens pat"
    using matches_route t(2) by blast
  with m matches_tokens show ?thesis by blast
qed

theorem radix_lookup_sound_witness:
  "\<exists>pat v ps. (pat, v) \<in> set (take 3 example_routes) \<and>
     route_match (example_route 1) [\<lparr>p_name = ''id'', p_value = ''42''\<rparr>] = route_match v ps \<and>
     tokens_match (tokens pat) ''/u/42'' ps \<and> length ps \<le> IOH_MAX_PATH_PARAMS"
proof (rule radix_lookup_sound [OF example_register])
  show "ioh_radix_lookup example_table ''/u/42'' =
      Inr (route_match (example_route 1) [\<lparr>p_name = ''id'', p_value = ''42''\<rparr>])" by code_simp
qed

text \<open>Insert and lookup: a static pattern that was accepted is found again under its
  own text, with exactly the handler, options and metadata it was registered with and no parameters,
  whatever other static, parameter or wildcard routes were registered before or after it.\<close>

theorem radix_static_round_trip:
  assumes reg: "register radix_ins ioh_radix_create xs = (t, acc)" and pat: "(join_segments segs, v) \<in> set acc"
    and segs: "segs \<noteq> []" "\<forall>s\<in>set segs. static_segment s"
  shows "ioh_radix_lookup t (join_segments segs) = Inr (route_match v [])"
proof -
  note t = registered [OF reg]
  show ?thesis
    using t(2,3) pat by (intro radix_lookup_static_route [OF t(1) _ _ segs]) (auto simp: boundaries_ready_def)
qed

theorem radix_static_round_trip_witness:
  "ioh_radix_lookup example_table ''/u/me'' = Inr (route_match (example_route 2) [])"
  using radix_static_round_trip [OF example_register, of "[''u'', ''me'']" "example_route 2"] example_accepted(2)
  by (simp add: join_segments_def static_segment_def)

text \<open>The trie does not keep the slash between two static segments.  A table that only holds
  \<^verbatim>\<open>/user/s\<close> answers the path \<^verbatim>\<open>/users\<close> with its handler, and refuses to register
  \<^verbatim>\<open>/users\<close> as a second route with \<^verbatim>\<open>-EEXIST\<close>.\<close>

theorem radix_static_segments_run_together:
  "let t = snd (radix_ins ioh_radix_create ''/user/s'' (example_route 1))
   in ioh_radix_lookup t ''/users'' = Inr (route_match (example_route 1) []) \<and>
      fst (radix_ins t ''/users'' (example_route 2)) = Inl EEXIST"
  by code_simp

end
