(* ===== verification/Router.thy ===== *)
theory Router
  imports Request Radix_Table
begin

text \<open>
  The router of \<^verbatim>\<open>src/router/ioh_router.c\<close>: one radix trie per method, path normalization, and
  dispatch with its security checks, trailing-slash redirects, automatic HEAD and the list of
  allowed methods of a 405 answer.

  Handlers, route metadata, middleware and the error handler are opaque (the type variables
  \<open>'h\<close>, \<open>'m\<close>, \<open>'w\<close> and \<open>'e\<close>).
  Null arguments are not modelled, except the handler of a registration.
\<close>

subsection \<open>Path normalization\<close>

lemma norm_rest_shorter:
  "q = dropWhile (\<lambda>c. c = slash) p \<Longrightarrow> q \<noteq> [] \<Longrightarrow>
     length (dropWhile (\<lambda>c. c \<noteq> slash) q) < length p"
  using hd_dropWhile [of "\<lambda>c. c = slash" p] by (intro dropWhile_shrinks [OF _ _ refl]) simp_all

text \<open>
  The segment stack of the loop, innermost segment first.  \<open>None\<close> is the error exit: a step above
  the root, or more than 256 segments.
\<close>

function norm_loop :: "string \<Rightarrow> string list \<Rightarrow> string list option" where
  "norm_loop p stk =
     (let q = dropWhile (\<lambda>c. c = slash) p
      in if q = [] then Some stk
         else
           (let seg = takeWhile (\<lambda>c. c \<noteq> slash) q; rest = dropWhile (\<lambda>c. c \<noteq> slash) q
            in if seg = ''.'' then norm_loop rest stk
               else if seg = ''..'' then
                 (case stk of [] \<Rightarrow> None | _ # stk' \<Rightarrow> norm_loop rest stk')
               else if length stk \<ge> 256 then None
               else norm_loop rest (seg # stk)))"
  by pat_completeness auto
termination
proof (relation "measure (\<lambda>(p, stk). length p)", goal_cases)
  case (2 p stk q seg rest)
  then show ?case by (simp add: norm_rest_shorter)
next
  case (3 p stk q seg rest)
  then show ?case by (simp add: norm_rest_shorter)
next
  case (4 p stk q seg rest)
  then show ?case by (simp add: norm_rest_shorter)
qed simp

declare norm_loop.simps [simp del]

fun build_path :: "nat \<Rightarrow> string \<Rightarrow> string list \<Rightarrow> string option" where
  "build_path out_size written [] = Some written"
| "build_path out_size written (s # segs) =
     (if length written + 1 + length s \<ge> out_size then None
      else build_path out_size (written @ slash # s) segs)"

definition ioh_path_normalize :: "string \<Rightarrow> nat \<Rightarrow> errno + string" where
  "ioh_path_normalize path out_size =
     (if out_size = 0 then Inl EINVAL
      else if path = [] \<or> hd path \<noteq> slash then Inl EINVAL
      else if nul \<in> set path then Inl EINVAL
      else (case norm_loop path [] of
          None \<Rightarrow> Inl EINVAL
        | Some [] \<Rightarrow> if out_size < 2 then Inl EINVAL else Inr [slash]
        | Some stk \<Rightarrow>
            (case build_path out_size [] (rev stk) of None \<Rightarrow> Inl EINVAL | Some out \<Rightarrow> Inr out)))"

definition path_has_null_byte :: "string \<Rightarrow> bool" where
  "path_has_null_byte path \<longleftrightarrow> nul \<in> set path"

fun path_has_encoded_null :: "string \<Rightarrow> bool" where
  "path_has_encoded_null (a # b # c # cs) =
     (if a = CHR ''%'' \<and> b = CHR ''0'' \<and> c = CHR ''0'' then True
      else path_has_encoded_null (b # c # cs))"
| "path_has_encoded_null _ = False"

subsection \<open>The router\<close>

record 'm ioh_route_opts =
  ro_meta :: "'m option"
  ro_oas_operation :: "nat option"
  ro_permissions :: u32
  ro_auth_required :: bool
  ro_body_timeout_ms :: u32
  ro_keepalive_timeout_ms :: u32

definition ROUTER_METHOD_COUNT :: nat where "ROUTER_METHOD_COUNT = 9"
definition IOH_MAX_GLOBAL_MIDDLEWARE :: nat where "IOH_MAX_GLOBAL_MIDDLEWARE = 32"

record ('h, 'm, 'w, 'e) ioh_router =
  rt_trees :: "('h, 'm ioh_route_opts, 'm) rnode option list"
  rt_groups :: "nat list"
  rt_global_mw :: "'w list"
  rt_error_handler :: "'e option"
  rt_not_found_handler :: "'h option"
  rt_method_not_allowed_handler :: "'h option"

definition ioh_router_create :: "('h, 'm, 'w, 'e) ioh_router" where
  "ioh_router_create =
     \<lparr>rt_trees = replicate ROUTER_METHOD_COUNT None, rt_groups = [], rt_global_mw = [],
      rt_error_handler = None, rt_not_found_handler = None, rt_method_not_allowed_handler = None\<rparr>"

definition router_add_route ::
  "('h, 'm, 'w, 'e) ioh_router \<Rightarrow> ioh_method \<Rightarrow> string \<Rightarrow> 'h option \<Rightarrow> 'm ioh_route_opts option
   \<Rightarrow> (unit, ('h, 'm, 'w, 'e) ioh_router) outcome" where
  "router_add_route r method pattern h opts =
     (if h = None then (Inl EINVAL, r)
      else if method_index method \<ge> ROUTER_METHOD_COUNT then (Inl EINVAL, r)
      else
        (let i = method_index method;
             tree = (case rt_trees r ! i of None \<Rightarrow> ioh_radix_create | Some t \<Rightarrow> t);
             meta = (case opts of None \<Rightarrow> None | Some o' \<Rightarrow> ro_meta o');
             (rc, tree') = ioh_radix_insert tree pattern h opts meta
         in (rc, r\<lparr>rt_trees := (rt_trees r)[i := Some tree']\<rparr>)))"

definition ioh_router_get where "ioh_router_get r pattern h = router_add_route r IOH_METHOD_GET pattern h None"
definition ioh_router_post where "ioh_router_post r pattern h = router_add_route r IOH_METHOD_POST pattern h None"
definition ioh_router_put where "ioh_router_put r pattern h = router_add_route r IOH_METHOD_PUT pattern h None"
definition ioh_router_delete where "ioh_router_delete r pattern h = router_add_route r IOH_METHOD_DELETE pattern h None"
definition ioh_router_patch where "ioh_router_patch r pattern h = router_add_route r IOH_METHOD_PATCH pattern h None"
definition ioh_router_head where "ioh_router_head r pattern h = router_add_route r IOH_METHOD_HEAD pattern h None"
definition ioh_router_options where "ioh_router_options r pattern h = router_add_route r IOH_METHOD_OPTIONS pattern h None"
definition ioh_router_handle where "ioh_router_handle r m pattern h = router_add_route r m pattern h None"
definition ioh_router_get_with where "ioh_router_get_with r pattern h opts = router_add_route r IOH_METHOD_GET pattern h opts"
definition ioh_router_handle_with where "ioh_router_handle_with r m pattern h opts = router_add_route r m pattern h opts"
definition ioh_router_post_with where "ioh_router_post_with r pattern h opts = router_add_route r IOH_METHOD_POST pattern h opts"
definition ioh_router_put_with where "ioh_router_put_with r pattern h opts = router_add_route r IOH_METHOD_PUT pattern h opts"
definition ioh_router_delete_with where "ioh_router_delete_with r pattern h opts = router_add_route r IOH_METHOD_DELETE pattern h opts"
definition ioh_router_patch_with where "ioh_router_patch_with r pattern h opts = router_add_route r IOH_METHOD_PATCH pattern h opts"

definition ioh_router_own_group ::
  "('h, 'm, 'w, 'e) ioh_router \<Rightarrow> nat \<Rightarrow> (unit, ('h, 'm, 'w, 'e) ioh_router) outcome" where
  "ioh_router_own_group r g = (Inr (), r\<lparr>rt_groups := rt_groups r @ [g]\<rparr>)"

definition ioh_router_get_tree ::
  "('h, 'm, 'w, 'e) ioh_router \<Rightarrow> ioh_method \<Rightarrow> ('h, 'm ioh_route_opts, 'm) rnode option" where
  "ioh_router_get_tree r method =
     (if method_index method \<ge> ROUTER_METHOD_COUNT then None else rt_trees r ! method_index method)"

definition ioh_router_use ::
  "('h, 'm, 'w, 'e) ioh_router \<Rightarrow> 'w option \<Rightarrow> (unit, ('h, 'm, 'w, 'e) ioh_router) outcome" where
  "ioh_router_use r mw =
     (case mw of
        None \<Rightarrow> (Inl EINVAL, r)
      | Some w \<Rightarrow>
          if length (rt_global_mw r) \<ge> IOH_MAX_GLOBAL_MIDDLEWARE then (Inl ENOSPC, r)
          else (Inr (), r\<lparr>rt_global_mw := rt_global_mw r @ [w]\<rparr>))"

definition ioh_router_set_error_handler where
  "ioh_router_set_error_handler r h = r\<lparr>rt_error_handler := h\<rparr>"
definition ioh_router_set_not_found where
  "ioh_router_set_not_found r h = r\<lparr>rt_not_found_handler := h\<rparr>"
definition ioh_router_set_method_not_allowed where
  "ioh_router_set_method_not_allowed r h = r\<lparr>rt_method_not_allowed_handler := h\<rparr>"

subsection \<open>Dispatch\<close>

datatype ioh_match_status =
    IOH_MATCH_FOUND | IOH_MATCH_NOT_FOUND | IOH_MATCH_METHOD_NOT_ALLOWED | IOH_MATCH_REDIRECT

definition IOH_MAX_PARAM_STORAGE :: nat where "IOH_MAX_PARAM_STORAGE = 512"

record ('h, 'm) ioh_route_match =
  m_status :: ioh_match_status
  m_handler :: "'h option"
  m_opts :: "'m ioh_route_opts option"
  m_meta :: "'m option"
  m_params :: "ioh_param list"
  m_allowed_methods :: string
  m_redirect_path :: string
  m_param_storage :: string
  m_param_storage_used :: nat

definition no_match :: "('h, 'm) ioh_route_match" where
  "no_match =
     \<lparr>m_status = IOH_MATCH_NOT_FOUND, m_handler = None, m_opts = None, m_meta = None, m_params = [],
      m_allowed_methods = [], m_redirect_path = [], m_param_storage = [], m_param_storage_used = 0\<rparr>"

text \<open>The loop of \<^verbatim>\<open>stabilize_param_values\<close>: the bytes stored so far are the storage up to the offset.\<close>

fun stabilize_loop :: "ioh_param list \<Rightarrow> string \<Rightarrow> bool \<times> string" where
  "stabilize_loop [] st = (True, st)"
| "stabilize_loop (p # ps) st =
     (if length st + length (p_value p) + 1 > IOH_MAX_PARAM_STORAGE then (False, st)
      else stabilize_loop ps (st @ p_value p @ [nul]))"

definition stabilize_param_values :: "('h, 'm) ioh_route_match \<Rightarrow> bool \<times> ('h, 'm) ioh_route_match" where
  "stabilize_param_values m =
     (let (ok, st) = stabilize_loop (m_params m) []
      in (ok, if ok then m\<lparr>m_param_storage := st, m_param_storage_used := length st\<rparr>
              else m\<lparr>m_param_storage := st\<rparr>))"

text \<open>The block that turns a trie match into the result, the same for a method's own tree and for
  the automatic HEAD.\<close>

definition take_match ::
  "('h, 'm) ioh_route_match \<Rightarrow> ('h, 'm ioh_route_opts, 'm) radix_match \<Rightarrow> ('h, 'm) ioh_route_match" where
  "take_match result rmatch =
     (let result1 = result\<lparr>m_status := IOH_MATCH_FOUND, m_handler := rm_handler rmatch,
            m_opts := rm_metadata rmatch, m_meta := rm_meta rmatch, m_params := rm_params rmatch\<rparr>;
          (ok, result2) = stabilize_param_values result1
      in if ok then result2 else result2\<lparr>m_status := IOH_MATCH_NOT_FOUND, m_params := []\<rparr>)"

fun method_name_for_index :: "nat \<Rightarrow> string option" where
  "method_name_for_index i =
     (if i = 0 then Some ''GET'' else if i = 1 then Some ''POST'' else if i = 2 then Some ''PUT''
      else if i = 3 then Some ''DELETE'' else if i = 4 then Some ''PATCH'' else if i = 5 then Some ''HEAD''
      else if i = 6 then Some ''OPTIONS'' else if i = 7 then Some ''TRACE''
      else if i = 8 then Some ''CONNECT'' else None)"

definition lookup_tree ::
  "('h, 'm, 'w, 'e) ioh_router \<Rightarrow> nat \<Rightarrow> string \<Rightarrow> ('h, 'm ioh_route_opts, 'm) radix_match option" where
  "lookup_tree r i p =
     (case rt_trees r ! i of
        None \<Rightarrow> None
      | Some t \<Rightarrow> (case ioh_radix_lookup t p of Inl _ \<Rightarrow> None | Inr m \<Rightarrow> Some m))"

text \<open>\<^verbatim>\<open>snprintf(buf + off, size - off, ...)\<close>: the text is cut at the end of the buffer, the offset
  advances by the untruncated length.\<close>

definition snprintf_at :: "nat \<Rightarrow> string \<times> nat \<Rightarrow> string \<Rightarrow> string \<times> nat" where
  "snprintf_at cap bo s =
     (case bo of (buf, off) \<Rightarrow>
        (if off < cap then take off buf @ take (cap - off - 1) s else buf, off + length s))"

definition allowed_step ::
  "('h, 'm, 'w, 'e) ioh_router \<Rightarrow> ioh_method \<Rightarrow> string \<Rightarrow> nat \<Rightarrow> (string \<times> nat) \<times> bool \<Rightarrow> (string \<times> nat) \<times> bool" where
  "allowed_step r method p i st =
     (case st of (bo, matched) \<Rightarrow>
        if i = method_index method then st
        else (case lookup_tree r i p of
            None \<Rightarrow> st
          | Some _ \<Rightarrow>
              (case method_name_for_index i of
                 None \<Rightarrow> st
               | Some mname \<Rightarrow> (snprintf_at 128 bo (if matched then '', '' @ mname else mname), True))))"

definition ioh_router_dispatch ::
  "('h, 'm, 'w, 'e) ioh_router \<Rightarrow> ioh_method \<Rightarrow> string \<Rightarrow> ('h, 'm) ioh_route_match" where
  "ioh_router_dispatch r method path =
     (if path = [] then no_match
      else if path_has_null_byte path then no_match
      else if path_has_encoded_null path then no_match
      else (case ioh_path_normalize path IOH_MAX_URI_SIZE of
          Inl _ \<Rightarrow> no_match
        | Inr p \<Rightarrow>
            let had_trailing_slash = (length path > 1 \<and> last path = slash);
                norm_has_trailing = (length p > 1 \<and> last p = slash);
                needs_redirect = (had_trailing_slash \<and> \<not> norm_has_trailing)
            in if needs_redirect \<and> list_ex (\<lambda>i. lookup_tree r i p \<noteq> None) [0..<ROUTER_METHOD_COUNT] then
                 no_match\<lparr>m_status := IOH_MATCH_REDIRECT, m_redirect_path := p\<rparr>
               else
                 (case (if method_index method < ROUTER_METHOD_COUNT
                        then lookup_tree r (method_index method) p else None) of
                    Some rmatch \<Rightarrow> take_match no_match rmatch
                  | None \<Rightarrow>
                      (case (if method = IOH_METHOD_HEAD then lookup_tree r 0 p else None) of
                         Some rmatch \<Rightarrow> take_match no_match rmatch
                       | None \<Rightarrow>
                           (let ((buf, off), any_matched) =
                              fold (allowed_step r method p) [0..<ROUTER_METHOD_COUNT] (([], 0), False)
                            in no_match\<lparr>m_allowed_methods := buf,
                                 m_status := if any_matched then IOH_MATCH_METHOD_NOT_ALLOWED
                                             else IOH_MATCH_NOT_FOUND\<rparr>)))))"

end
