(* ===== verification/Middleware.thy ===== *)
theory Middleware
  imports Ctx Router
begin

text \<open>
  The middleware chain of \<^verbatim>\<open>src/middleware/ioh_middleware.c\<close>.

  A middleware is C code that may call \<^verbatim>\<open>next\<close> any number of times and act on the results: it is
  modelled by what it does next, either return a status or call \<open>next\<close> on a context and continue with the
  status and the context that come back.  A handler maps the context to its status and the new
  context.  The chain is the list of middlewares and the position \<^verbatim>\<open>chain->current\<close>, which every call of
  \<^verbatim>\<open>next\<close> advances.  The recursion of \<open>chain_next\<close> is bounded by the number of middlewares left, because each
  nested call has advanced the position.
\<close>

datatype 'c act = Return int 'c | Call_Next 'c "int \<Rightarrow> 'c \<Rightarrow> 'c act"

type_synonym 'c middleware = "'c \<Rightarrow> 'c act"
type_synonym 'c handler = "'c \<Rightarrow> int \<times> 'c"

text \<open>Running a middleware, with a function for its calls of \<open>next\<close> and the position threaded through.\<close>

primrec run_act :: "'c act \<Rightarrow> (nat \<Rightarrow> 'c \<Rightarrow> int \<times> 'c \<times> nat) \<Rightarrow> nat \<Rightarrow> int \<times> 'c \<times> nat" where
  "run_act (Return rc c) nxt current = (rc, c, current)"
| "run_act (Call_Next c k) nxt current =
     (case nxt current c of (rc, c', current') \<Rightarrow> run_act (k rc c') nxt current')"

primrec chain_next :: "nat \<Rightarrow> 'c middleware list \<Rightarrow> 'c handler \<Rightarrow> nat \<Rightarrow> 'c \<Rightarrow> int \<times> 'c \<times> nat" where
  "chain_next 0 ms handler current c = (case handler c of (rc, c') \<Rightarrow> (rc, c', current))"
| "chain_next (Suc n) ms handler current c =
     (if current \<ge> length ms then (case handler c of (rc, c') \<Rightarrow> (rc, c', current))
      else run_act ((ms ! current) c) (chain_next n ms handler) (current + 1))"

definition IOH_MAX_GROUP_MIDDLEWARE :: nat where "IOH_MAX_GROUP_MIDDLEWARE = 16"

definition ioh_chain_execute ::
  "'c \<Rightarrow> 'c middleware list \<Rightarrow> 'c middleware list \<Rightarrow> 'c handler option \<Rightarrow> (errno + int) \<times> 'c" where
  "ioh_chain_execute c global_mw group_mw handler =
     (case handler of
        None \<Rightarrow> (Inl EINVAL, c)
      | Some h \<Rightarrow>
          if length global_mw > IOH_MAX_GLOBAL_MIDDLEWARE then (Inl ENOSPC, c)
          else if length group_mw > IOH_MAX_GROUP_MIDDLEWARE then (Inl ENOSPC, c)
          else (let ms = global_mw @ group_mw
                in case chain_next (length ms) ms h 0 c of (rc, c', _) \<Rightarrow> (Inr rc, c')))"

subsection \<open>Lemmas\<close>

lemma chain_next_end: "length ms \<le> current \<Longrightarrow> chain_next n ms h current c = (case h c of (rc, c') \<Rightarrow> (rc, c', current))"
  by (cases n) simp_all

text \<open>The position only advances, and the bound is enough: more of it changes nothing.\<close>

lemma run_act_mono:
  assumes "\<And>i c. i \<le> snd (snd (nxt i c))"
  shows "i \<le> snd (snd (run_act a nxt i))"
proof (induction a arbitrary: i)
  case (Call_Next c k)
  obtain rc c' j where n: "nxt i c = (rc, c', j)" by (metis prod_cases3)
  with assms [of i c] have "i \<le> j" by simp
  with Call_Next.IH [OF rangeI rangeI, of j rc c'] show ?case by (simp add: n)
qed simp

lemma chain_next_mono: "current \<le> snd (snd (chain_next n ms h current c))"
proof (induction n arbitrary: current c)
  case (Suc n)
  show ?case using run_act_mono [of "chain_next n ms h" "Suc current" "(ms ! current) c", OF Suc]
    by (auto split: prod.splits)
qed (auto split: prod.splits)

lemma run_act_cong:
  assumes "\<And>i c. start \<le> i \<Longrightarrow> f i c = g i c" and "\<And>i c. i \<le> snd (snd (g i c))" and "start \<le> i"
  shows "run_act a f i = run_act a g i"
  using assms(3)
proof (induction a arbitrary: i)
  case (Call_Next c k)
  obtain rc c' j where n: "g i c = (rc, c', j)" by (metis prod_cases3)
  with assms(2) [of i c] Call_Next.prems have "start \<le> j" by simp
  with Call_Next.IH [OF rangeI rangeI, of j rc c'] show ?case using assms(1) [OF Call_Next.prems, of c] by (simp add: n)
qed simp

lemma chain_next_fuel:
  "length ms \<le> current + n \<Longrightarrow> chain_next n ms h current c = chain_next (length ms - current) ms h current c"
proof (induction n arbitrary: current c rule: less_induct)
  case (less n)
  show ?case
  proof (cases "length ms \<le> current")
    case True
    then show ?thesis by (simp add: chain_next_end)
  next
    case False
    then obtain m where m: "length ms - current = Suc m" by (metis Suc_diff_Suc not_le)
    from False less.prems obtain n' where n': "n = Suc n'" by (cases n) auto
    have "run_act ((ms ! current) c) (chain_next n' ms h) (Suc current) =
        run_act ((ms ! current) c) (chain_next m ms h) (Suc current)"
    proof (rule run_act_cong [where start = "Suc current"])
      fix i c
      assume i: "Suc current \<le> i"
      have "chain_next n' ms h i c = chain_next (length ms - i) ms h i c"
        using i less.prems n' by (intro less.IH) auto
      moreover have "chain_next m ms h i c = chain_next (length ms - i) ms h i c"
        using i m less.prems n' by (intro less.IH) auto
      ultimately show "chain_next n' ms h i c = chain_next m ms h i c" by simp
    qed (simp_all add: chain_next_mono)
    then show ?thesis using False by (simp add: m n')
  qed
qed

subsection \<open>Middlewares that call \<open>next\<close> at most once\<close>

text \<open>
  What such a middleware does before: answer with a status and a context, or pass a context on; and what it
  does with what comes back.
\<close>

record 'c one_shot =
  before :: "'c \<Rightarrow> (int \<times> 'c) + 'c"
  after :: "int \<Rightarrow> 'c \<Rightarrow> int \<times> 'c"

definition one_shot_mw :: "'c one_shot \<Rightarrow> 'c middleware" where
  "one_shot_mw m c =
     (case before m c of
        Inl (rc, c') \<Rightarrow> Return rc c'
      | Inr c' \<Rightarrow> Call_Next c' (\<lambda>rc c''. case after m rc c'' of (rc', c3) \<Rightarrow> Return rc' c3))"

text \<open>The nesting such middlewares are meant to have.\<close>

fun nested :: "'c one_shot list \<Rightarrow> 'c handler \<Rightarrow> 'c handler" where
  "nested [] h c = h c"
| "nested (m # ms) h c =
     (case before m c of
        Inl (rc, c') \<Rightarrow> (rc, c')
      | Inr c' \<Rightarrow> (case nested ms h c' of (rc, c'') \<Rightarrow> after m rc c''))"

lemma run_one_shot:
  "run_act (one_shot_mw m c) nxt i =
     (case before m c of
        Inl (rc, c') \<Rightarrow> (rc, c', i)
      | Inr c' \<Rightarrow> (case nxt i c' of (rc, c'', j) \<Rightarrow> (case after m rc c'' of (rc', c3) \<Rightarrow> (rc', c3, j))))"
  by (auto simp: one_shot_mw_def split: sum.splits prod.splits)

lemma chain_next_nested:
  "\<exists>i. chain_next (length rest) (map one_shot_mw (pre @ rest)) h (length pre) c =
     (fst (nested rest h c), snd (nested rest h c), i)"
proof (induction rest arbitrary: pre c)
  case Nil
  then show ?case by (simp add: split_beta)
next
  case (Cons m rest)
  have nth: "map one_shot_mw (pre @ m # rest) ! length pre = one_shot_mw m" by (simp add: nth_append)
  show ?case
  proof (cases "before m c")
    case (Inl r)
    then show ?thesis using nth by (cases r) (simp add: run_one_shot nth_append)
  next
    case (Inr c')
    from Cons [of "pre @ [m]" c'] obtain i where "chain_next (length rest) (map one_shot_mw (pre @ m # rest)) h (Suc (length pre)) c' =
        (fst (nested rest h c'), snd (nested rest h c'), i)" by auto
    then show ?thesis using nth Inr
      by (cases "after m (fst (nested rest h c')) (snd (nested rest h c'))")
        (simp add: run_one_shot split_beta del: map_append)
  qed
qed

lemma chain_execute_nested:
  assumes "length gs \<le> IOH_MAX_GLOBAL_MIDDLEWARE" and "length ms \<le> IOH_MAX_GROUP_MIDDLEWARE"
  shows "ioh_chain_execute c (map one_shot_mw gs) (map one_shot_mw ms) (Some h) =
     (Inr (fst (nested (gs @ ms) h c)), snd (nested (gs @ ms) h c))"
  using chain_next_nested [of "gs @ ms" "[]" h c] assms by (auto simp: ioh_chain_execute_def Let_def)

text \<open>
  A middleware that calls \<open>next\<close> twice reaches the handler the second time, past every middleware after it.
\<close>

definition call_twice :: "'c middleware" where
  "call_twice c = Call_Next c (\<lambda>_ c'. Call_Next c' Return)"

lemma second_next_skips_guard:
  "ioh_chain_execute c [call_twice, \<lambda>c. Return 0 (deny c)] [] (Some h) = (Inr (fst (h (deny c))), snd (h (deny c)))"
  by (simp add: ioh_chain_execute_def call_twice_def IOH_MAX_GLOBAL_MIDDLEWARE_def IOH_MAX_GROUP_MIDDLEWARE_def
      numeral_2_eq_2 split: prod.splits)

subsection \<open>Properties\<close>

text \<open>C25: The chain runs middlewares in order, global ones before those of the group, and the handler innermost: for middlewares
  that call \<open>next\<close> at most once the result is that of the nested composition, each middleware seeing
  the context as the previous one passed it on and the status and context its inner part returned.  For arbitrary
  middlewares, however often they call \<open>next\<close>, the recursion depth is at most the number of
  middlewares: a larger bound gives the same result.\<close>

theorem chain_runs_nested:
  assumes "length gs \<le> IOH_MAX_GLOBAL_MIDDLEWARE" and "length ms \<le> IOH_MAX_GROUP_MIDDLEWARE"
  shows "ioh_chain_execute c (map one_shot_mw gs) (map one_shot_mw ms) (Some h) =
      (Inr (fst (nested (gs @ ms) h c)), snd (nested (gs @ ms) h c)) \<and>
    chain_next (length any + n) any h 0 c = chain_next (length any) any h 0 c"
  using chain_execute_nested [OF assms] chain_next_fuel [of any 0 "length any + n" h c] by simp

definition tagger :: "nat \<Rightarrow> nat list one_shot" where
  "tagger k = \<lparr>before = (\<lambda>c. Inr (c @ [k])), after = (\<lambda>rc c. (rc, c @ [k]))\<rparr>"

theorem chain_runs_nested_witness:
  "ioh_chain_execute [] [one_shot_mw (tagger 1)] [one_shot_mw (tagger 2)] (Some (\<lambda>c. (0, c @ [9]))) = (Inr 0, [1, 2, 9, 2, 1])"
proof -
  have "length [tagger 1] \<le> IOH_MAX_GLOBAL_MIDDLEWARE" "length [tagger 2] \<le> IOH_MAX_GROUP_MIDDLEWARE"
    by (simp_all add: IOH_MAX_GLOBAL_MIDDLEWARE_def IOH_MAX_GROUP_MIDDLEWARE_def)
  from chain_runs_nested [OF this, of "[]" "\<lambda>c. (0, c @ [9])" "[]" 0] show ?thesis by (simp add: tagger_def)
qed

end
