(* ===== verification/Auth.thy ===== *)
theory Auth
  imports Middleware Slot_Pool
begin

text \<open>
  Basic and Bearer authentication, \<^verbatim>\<open>src/middleware/ioh_auth.c\<close>.

  The verification callback of the application is a parameter: it sees a C string.  The thread-local
  states are fields of \<open>auth_state\<close>: creating a middleware replaces the verifier of every middleware of
  its kind.
\<close>

unbundle bit_operations_syntax

subsection \<open>Base64\<close>

definition b64_alphabet :: string where
  "b64_alphabet = ''ABCDEFGHIJKLMNOPQRSTUVWXYZabcdefghijklmnopqrstuvwxyz0123456789+/''"

text \<open>The table: characters outside the alphabet map to zero, as the initialiser leaves them.\<close>

definition B64_TABLE :: "char \<Rightarrow> u32" where
  "B64_TABLE c = (case find_index (\<lambda>x. x = c) b64_alphabet of Some i \<Rightarrow> of_nat i | None \<Rightarrow> 0)"

fun b64_loop :: "u32 \<Rightarrow> nat \<Rightarrow> string \<Rightarrow> string option" where
  "b64_loop accum bits [] = Some []"
| "b64_loop accum bits (ch # cs) =
     (let v = B64_TABLE ch
      in if v = 0 \<and> ch \<noteq> CHR ''A'' then None
         else
           (let accum = push_bit 6 accum OR v; bits = bits + 6
            in if bits \<ge> 8
               then (let bits = bits - 8
                     in map_option ((#) (char_of (unat (ucast (drop_bit bits accum) :: u8))))
                          (b64_loop (accum AND (push_bit bits 1 - 1)) bits cs))
               else b64_loop accum bits cs))"

definition strip_padding :: "string \<Rightarrow> string" where
  "strip_padding src = rev (dropWhile (\<lambda>c. c = CHR ''='') (rev src))"

definition b64_decode :: "string \<Rightarrow> nat \<Rightarrow> string option" where
  "b64_decode src out_size =
     (if src = [] then Some []
      else
        (let s = strip_padding src
         in if (length s * 3) div 4 \<ge> out_size then None else b64_loop 0 0 s))"

subsection \<open>The middlewares\<close>

record auth_state =
  au_basic :: "(string \<Rightarrow> bool) option"
  au_bearer :: "(string \<Rightarrow> bool) option"

definition ioh_auth_basic_create :: "auth_state \<Rightarrow> (string \<Rightarrow> bool) \<Rightarrow> auth_state" where
  "ioh_auth_basic_create st verify = st\<lparr>au_basic := Some verify\<rparr>"

definition ioh_auth_bearer_create :: "auth_state \<Rightarrow> (string \<Rightarrow> bool) \<Rightarrow> auth_state" where
  "ioh_auth_bearer_create st verify = st\<lparr>au_bearer := Some verify\<rparr>"

definition ioh_auth_destroy :: "auth_state \<Rightarrow> auth_state" where
  "ioh_auth_destroy st = st\<lparr>au_basic := None, au_bearer := None\<rparr>"

definition challenge :: "string \<Rightarrow> ('v, 'd) ioh_ctx \<Rightarrow> ('v, 'd) ioh_ctx act" where
  "challenge scheme c =
     Return 0 (c\<lparr>cx_resp := ioh_response_set_header ((cx_resp c)\<lparr>rs_status := 401\<rparr>) ''WWW-Authenticate'' scheme\<rparr>)"

definition basic_realm :: string where
  "basic_realm = ''Basic realm='' @ [dquote] @ ''iohttp'' @ [dquote]"

text \<open>An unset state would be a null pointer dereference; the server creates the middleware before using it.\<close>

definition basic_middleware :: "(string \<Rightarrow> bool) \<Rightarrow> ('v, 'd) ioh_ctx middleware" where
  "basic_middleware verify c =
     (case ioh_request_header (cx_req c) ''Authorization'' of
        None \<Rightarrow> challenge basic_realm c
      | Some auth \<Rightarrow>
          if take 6 (cstr auth) \<noteq> ''Basic '' then challenge basic_realm c
          else
            (case b64_decode (cstr (drop 6 auth)) 512 of
               None \<Rightarrow> challenge basic_realm c
             | Some decoded \<Rightarrow>
                 if \<not> verify (cstr decoded) then challenge basic_realm c else Call_Next c Return))"

definition bearer_middleware :: "(string \<Rightarrow> bool) \<Rightarrow> ('v, 'd) ioh_ctx middleware" where
  "bearer_middleware verify c =
     (case ioh_request_header (cx_req c) ''Authorization'' of
        None \<Rightarrow> challenge ''Bearer'' c
      | Some auth \<Rightarrow>
          if take 7 (cstr auth) \<noteq> ''Bearer '' then challenge ''Bearer'' c
          else if \<not> verify (cstr (drop 7 auth)) then challenge ''Bearer'' c
          else Call_Next c Return)"

subsection \<open>Lemmas\<close>

lemma strip_padding_snoc: "last src \<noteq> CHR ''='' \<Longrightarrow> strip_padding src = src"
  by (cases src rule: rev_cases) (simp_all add: strip_padding_def)

lemma alphabet_table: "i < 64 \<Longrightarrow> B64_TABLE (b64_alphabet ! i) = of_nat i \<and> (i = 0 \<longleftrightarrow> b64_alphabet ! i = CHR ''A'')
    \<and> b64_alphabet ! i \<noteq> CHR ''='' \<and> b64_alphabet ! i \<noteq> nul"
proof -
  have "\<forall>i\<in>set [0..<64]. B64_TABLE (b64_alphabet ! i) = of_nat i \<and> (i = 0 \<longleftrightarrow> b64_alphabet ! i = CHR ''A'')
     \<and> b64_alphabet ! i \<noteq> CHR ''='' \<and> b64_alphabet ! i \<noteq> nul"
    by code_simp
  then show "i < 64 \<Longrightarrow> ?thesis" by simp
qed

text \<open>The standard encoding of three bytes by four characters, with padding.\<close>

definition b64_char :: "u8 \<Rightarrow> char" where
  "b64_char v = b64_alphabet ! unat v"

definition byte_of :: "char \<Rightarrow> u8" where
  "byte_of c = of_nat (byte_val c)"

fun b64_encode :: "string \<Rightarrow> string" where
  "b64_encode [] = []"
| "b64_encode [a] =
     (let x = byte_of a in [b64_char (drop_bit 2 x), b64_char (push_bit 4 (take_bit 2 x)), CHR ''='', CHR ''=''])"
| "b64_encode [a, b] =
     (let x = byte_of a; y = byte_of b
      in [b64_char (drop_bit 2 x), b64_char (push_bit 4 (take_bit 2 x) OR drop_bit 4 y),
          b64_char (push_bit 2 (take_bit 4 y)), CHR ''=''])"
| "b64_encode (a # b # c # s) =
     (let x = byte_of a; y = byte_of b; z = byte_of c
      in [b64_char (drop_bit 2 x), b64_char (push_bit 4 (take_bit 2 x) OR drop_bit 4 y),
          b64_char (push_bit 2 (take_bit 4 y) OR drop_bit 6 z), b64_char (take_bit 6 z)] @ b64_encode s)"

lemma b64_loop_char:
  assumes "unat v < 64"
  shows "b64_loop accum bits (b64_char v # cs) =
     (let accum = push_bit 6 accum OR ucast v; bits = bits + 6
      in if bits \<ge> 8
         then (let bits = bits - 8
               in map_option ((#) (char_of (unat (ucast (drop_bit bits accum) :: u8))))
                    (b64_loop (take_bit bits accum) bits cs))
         else b64_loop accum bits cs)"
proof -
  have "B64_TABLE (b64_char v) = ucast v"
    using alphabet_table [OF assms] by (simp add: b64_char_def)
  moreover have "ucast v = (0 :: u32) \<longleftrightarrow> unat v = 0"
    using unat_bound [of v] by (simp add: word_unat_eq_iff unsigned_ucast_eq take_bit_nat_eq_self)
  moreover have "unat v = 0 \<Longrightarrow> b64_char v = CHR ''A''" using alphabet_table [OF assms] by (simp add: b64_char_def)
  moreover have "w AND (push_bit n 1 - 1) = take_bit n w" for w :: u32 and n
    by (simp add: take_bit_eq_mask mask_eq_exp_minus_1)
  ultimately show ?thesis by (auto simp: Let_def)
qed

lemma byte_of_inv: "char_of (unat (byte_of c)) = c"
proof -
  have "unat (byte_of c) = byte_val c"
    unfolding byte_of_def unat_of_nat by (rule mod_less) (use nat_of_char_less_256 [of c] in simp)
  then show ?thesis by simp
qed

lemma byte_eqI: "(\<And>n. n \<in> {0, 1, 2, 3, 4, 5, 6, 7} \<Longrightarrow> bit (a :: u8) n = bit b n) \<Longrightarrow> a = b"
proof (rule bit_word_eqI)
  fix n
  assume *: "\<And>n. n \<in> {0, 1, 2, 3, 4, 5, 6, 7} \<Longrightarrow> bit a n = bit b n" and n: "n < LENGTH(8)"
  from n have "n \<in> {0, 1, 2, 3, 4, 5, 6, 7}" by auto
  then show "bit a n = bit b n" by (rule *)
qed

lemma bit_beyond: "8 \<le> n \<Longrightarrow> \<not> bit (w :: u8) n"
  by (auto dest: bit_imp_le_length)

lemma sextet_less: "take_bit 6 w = w \<Longrightarrow> unat (w :: u8) < 64"
proof -
  assume "take_bit 6 w = w"
  then have "unat w = take_bit 6 (unat w)" by (metis unsigned_take_bit_eq)
  then show ?thesis using take_bit_nat_less_exp [of 6 "unat w"] by simp
qed

lemma sextets:
  fixes x y z :: u8
  shows "unat (drop_bit 2 x) < 64" "unat (push_bit 4 (take_bit 2 x) OR drop_bit 4 y) < 64"
    "unat (push_bit 2 (take_bit 4 y) OR drop_bit 6 z) < 64" "unat (take_bit 6 z) < 64"
    "unat (push_bit 4 (take_bit 2 x)) < 64" "unat (push_bit 2 (take_bit 4 y)) < 64"
  subgoal by (rule sextet_less, rule byte_eqI, elim insertE emptyE; simp add: bit_simps bit_beyond)
  subgoal by (rule sextet_less, rule byte_eqI, elim insertE emptyE; simp add: bit_simps bit_beyond)
  subgoal by (rule sextet_less, rule byte_eqI, elim insertE emptyE; simp add: bit_simps bit_beyond)
  subgoal by (rule sextet_less) simp
  subgoal by (rule sextet_less, rule byte_eqI, elim insertE emptyE; simp add: bit_simps bit_beyond)
  subgoal by (rule sextet_less, rule byte_eqI, elim insertE emptyE; simp add: bit_simps bit_beyond)
  done

lemma sextet_bits:
  fixes x y z :: u8 and a :: u32
  shows "ucast (drop_bit 4 (push_bit 6 (ucast (drop_bit 2 x) :: u32) OR ucast (push_bit 4 (take_bit 2 x) OR drop_bit 4 y))) = x"
    and "take_bit 4 (push_bit 6 a OR ucast (push_bit 4 (take_bit 2 x) OR drop_bit 4 y)) = ucast (drop_bit 4 y)"
    and "ucast (drop_bit 2 (push_bit 6 (ucast (drop_bit 4 y) :: u32) OR ucast (push_bit 2 (take_bit 4 y) OR drop_bit 6 z))) = y"
    and "take_bit 2 (push_bit 6 a OR ucast (push_bit 2 (take_bit 4 y) OR drop_bit 6 z)) = ucast (drop_bit 6 z)"
    and "ucast (push_bit 6 (ucast (drop_bit 6 z) :: u32) OR ucast (take_bit 6 z)) = z"
  subgoal by (rule byte_eqI, elim insertE emptyE; (simp add: bit_simps bit_beyond)?; (simp add: eval_nat_numeral)?)
  subgoal by (rule bit_word_eqI) (auto simp: bit_simps bit_beyond)
  subgoal by (rule byte_eqI, elim insertE emptyE; (simp add: bit_simps bit_beyond)?; (simp add: eval_nat_numeral)?)
  subgoal by (rule bit_word_eqI) (auto simp: bit_simps bit_beyond)
  subgoal by (rule byte_eqI, elim insertE emptyE; (simp add: bit_simps bit_beyond)?; (simp add: eval_nat_numeral)?)
  done


lemma b64_steps:
  assumes "unat v < 64"
  shows "b64_loop 0 0 (b64_char v # cs) = b64_loop (ucast v) 6 cs"
    and "b64_loop a 6 (b64_char v # cs) =
      map_option ((#) (char_of (unat (ucast (drop_bit 4 (push_bit 6 a OR ucast v)) :: u8)))) (b64_loop (take_bit 4 (push_bit 6 a OR ucast v)) 4 cs)"
    and "b64_loop a 4 (b64_char v # cs) =
      map_option ((#) (char_of (unat (ucast (drop_bit 2 (push_bit 6 a OR ucast v)) :: u8)))) (b64_loop (take_bit 2 (push_bit 6 a OR ucast v)) 2 cs)"
    and "b64_loop a 2 (b64_char v # cs) =
      map_option ((#) (char_of (unat (ucast (push_bit 6 a OR ucast v) :: u8)))) (b64_loop 0 0 cs)"
  by (simp_all only: b64_loop_char [OF assms] Let_def) simp_all

lemma b64_loop_group:
  "b64_loop 0 0 (b64_char (drop_bit 2 x) # b64_char (push_bit 4 (take_bit 2 x) OR drop_bit 4 y) #
      b64_char (push_bit 2 (take_bit 4 y) OR drop_bit 6 z) # b64_char (take_bit 6 z) # cs) =
     map_option (\<lambda>r. char_of (unat x) # char_of (unat y) # char_of (unat z) # r) (b64_loop 0 0 cs)"
  by (simp only: b64_steps sextets sextet_bits option.map_comp comp_def)

lemma b64_loop_two:
  "b64_loop 0 0 [b64_char (drop_bit 2 x), b64_char (push_bit 4 (take_bit 2 x) OR drop_bit 4 y), b64_char (push_bit 2 (take_bit 4 y))] =
     Some [char_of (unat x), char_of (unat y)]"
  using sextet_bits(3) [of y 0]
  by (simp only: b64_steps sextets sextet_bits b64_loop.simps(1) drop_bit_of_0 or.right_neutral option.map)

lemma b64_loop_one:
  "b64_loop 0 0 [b64_char (drop_bit 2 x), b64_char (push_bit 4 (take_bit 2 x))] = Some [char_of (unat x)]"
  using sextet_bits(1) [of x 0]
  by (simp only: b64_steps sextets sextet_bits b64_loop.simps(1) drop_bit_of_0 or.right_neutral option.map)

lemma b64_char_not_pad: "unat v < 64 \<Longrightarrow> b64_char v \<noteq> CHR ''=''" "unat v < 64 \<Longrightarrow> nul \<noteq> b64_char v"
  using alphabet_table [of "unat v"] by (auto simp: b64_char_def)

lemma b64_encode_no_nul: "nul \<notin> set (b64_encode s)"
  by (induction s rule: b64_encode.induct) (simp_all add: Let_def b64_char_not_pad(2) sextets)

lemma strip_padding_pad: "strip_padding (t @ [c]) = (if c = CHR ''='' then strip_padding t else t @ [c])"
  by (simp add: strip_padding_def)

lemma strip_padding_append:
  "strip_padding ys \<noteq> [] \<Longrightarrow> strip_padding (xs @ ys) = xs @ strip_padding ys"
  by (induction ys rule: rev_induct)
    (auto simp: strip_padding_pad simp flip: append_assoc, simp_all add: strip_padding_def)

lemma b64_loop_encode: "b64_loop 0 0 (strip_padding (b64_encode s)) = Some s \<and> (strip_padding (b64_encode s) = [] \<longleftrightarrow> s = []) \<and>
    length (strip_padding (b64_encode s)) * 3 div 4 = length s"
proof (induction s rule: b64_encode.induct)
  case (2 a)
  show ?case using strip_padding_pad [of "[_, _, _]"] strip_padding_pad [of "[_, _]"] strip_padding_pad [of "[_]"]
      b64_char_not_pad(1) [OF sextets(5), of "byte_of a"] b64_loop_one [of "byte_of a"]
    by (simp add: Let_def byte_of_inv del: b64_loop.simps)
next
  case (3 a b)
  show ?case using strip_padding_pad [of "[_, _, _]"] strip_padding_pad [of "[_, _]"]
      b64_char_not_pad(1) [OF sextets(6), of "byte_of b"] b64_loop_two [of "byte_of a" "byte_of b"]
    by (simp add: Let_def byte_of_inv del: b64_loop.simps)
next
  case (4 a b c s)
  let ?g = "[b64_char (drop_bit 2 (byte_of a)), b64_char (push_bit 4 (take_bit 2 (byte_of a)) OR drop_bit 4 (byte_of b)),
      b64_char (push_bit 2 (take_bit 4 (byte_of b)) OR drop_bit 6 (byte_of c)), b64_char (take_bit 6 (byte_of c))]"
  have "strip_padding (?g @ b64_encode s) = ?g @ strip_padding (b64_encode s)"
  proof (cases "s = []")
    case True
    then show ?thesis using strip_padding_pad [of "take 3 ?g" "last ?g"] b64_char_not_pad(1) [OF sextets(4), of "byte_of c"]
      by (simp add: strip_padding_def)
  next
    case False
    then show ?thesis using strip_padding_append [of "b64_encode s" ?g] 4 by (simp add: Let_def)
  qed
  moreover have "(12 + n) div 4 = 3 + n div 4" for n :: nat by simp
  ultimately show ?case using 4 b64_loop_group [of "byte_of a" "byte_of b" "byte_of c" "strip_padding (b64_encode s)"]
    by (simp add: Let_def byte_of_inv del: b64_loop.simps)
qed (simp add: strip_padding_def)

subsection \<open>Guards in a chain\<close>

definition answers :: "('c \<Rightarrow> bool) \<Rightarrow> 'c middleware \<Rightarrow> bool" where
  "answers P g \<longleftrightarrow> (\<forall>c. P c \<longrightarrow> (\<exists>rc c'. g c = Return rc c'))"

fun answer_of :: "'c act \<Rightarrow> int \<times> 'c" where
  "answer_of (Return rc c) = (rc, c)"
| "answer_of (Call_Next c k) = (0, c)"

definition keeps :: "('c \<Rightarrow> bool) \<Rightarrow> 'c one_shot \<Rightarrow> bool" where
  "keeps P m \<longleftrightarrow> (\<forall>c c'. P c \<longrightarrow> before m c = Inr c' \<longrightarrow> P c')"

lemma chain_next_guard:
  assumes "answers P g" and "\<forall>m\<in>set gs. keeps P m" and "P c"
  shows "\<exists>i. chain_next (Suc (length gs + n)) (pre @ map one_shot_mw gs @ g # later) h (length pre) c =
     (fst (nested gs (\<lambda>x. answer_of (g x)) c), snd (nested gs (\<lambda>x. answer_of (g x)) c), i)"
  using assms(2,3)
proof (induction gs arbitrary: pre c)
  case Nil
  then obtain rc c' where "g c = Return rc c'" using assms(1) by (auto simp: answers_def)
  then show ?case by (simp add: nth_append)
next
  case (Cons m gs)
  show ?case
  proof (cases "before m c")
    case (Inl r)
    then show ?thesis by (cases r) (simp add: nth_append run_one_shot)
  next
    case (Inr c')
    with Cons.prems have "P c'" by (auto simp: keeps_def)
    define k where "k = Suc (length gs + n)"
    from \<open>P c'\<close> Cons.IH [of c' "pre @ [one_shot_mw m]"] Cons.prems(1)
    obtain i where i: "chain_next k (pre @ one_shot_mw m # map one_shot_mw gs @ g # later) h (Suc (length pre)) c' =
        (fst (nested gs (\<lambda>x. answer_of (g x)) c'), snd (nested gs (\<lambda>x. answer_of (g x)) c'), i)"
      unfolding k_def by (auto simp del: chain_next.simps)
    have "Suc (length (m # gs) + n) = Suc k" by (simp add: k_def)
    then show ?thesis using Inr i
      by (cases "after m (fst (nested gs (\<lambda>x. answer_of (g x)) c')) (snd (nested gs (\<lambda>x. answer_of (g x)) c'))")
        (simp add: nth_append run_one_shot split_beta)
  qed
qed

lemma chain_execute_guard:
  assumes "answers P g" and "\<forall>m\<in>set gs. keeps P m" and "P c"
    and "length gs + length later < IOH_MAX_GLOBAL_MIDDLEWARE" and "length grp \<le> IOH_MAX_GROUP_MIDDLEWARE"
  shows "ioh_chain_execute c (map one_shot_mw gs @ g # later) grp (Some h) =
     (Inr (fst (nested gs (\<lambda>x. answer_of (g x)) c)), snd (nested gs (\<lambda>x. answer_of (g x)) c))"
  using chain_next_guard [OF assms(1-3), of "length later + length grp" "[]" "later @ grp" h] assms(4,5)
  by (auto simp: ioh_chain_execute_def Let_def add.assoc simp del: chain_next.simps)

lemma nested_cong:
  assumes "\<forall>m\<in>set gs. keeps P m" and "P c" and "\<And>x. P x \<Longrightarrow> f x = f' x"
  shows "nested gs f c = nested gs f' c"
  using assms(1,2)
proof (induction gs arbitrary: c)
  case (Cons m gs)
  show ?case
  proof (cases "before m c")
    case (Inr c')
    with Cons.prems have "P c'" by (simp add: keeps_def)
    with Cons Inr show ?thesis by simp
  qed simp
qed (simp add: assms(3))

definition basic_authorised :: "(string \<Rightarrow> bool) \<Rightarrow> ioh_request \<Rightarrow> bool" where
  "basic_authorised verify req \<longleftrightarrow>
     (\<exists>auth decoded. ioh_request_header req ''Authorization'' = Some auth \<and> take 6 (cstr auth) = ''Basic '' \<and>
        b64_decode (cstr (drop 6 auth)) 512 = Some decoded \<and> verify (cstr decoded))"

definition bearer_authorised :: "(string \<Rightarrow> bool) \<Rightarrow> ioh_request \<Rightarrow> bool" where
  "bearer_authorised verify req \<longleftrightarrow>
     (\<exists>auth. ioh_request_header req ''Authorization'' = Some auth \<and> take 7 (cstr auth) = ''Bearer '' \<and>
        verify (cstr (drop 7 auth)))"

lemma basic_middleware_cases:
  "basic_middleware verify c = (if basic_authorised verify (cx_req c) then Call_Next c Return else challenge basic_realm c)"
  by (auto simp: basic_middleware_def basic_authorised_def split: option.splits)

lemma bearer_middleware_cases:
  "bearer_middleware verify c = (if bearer_authorised verify (cx_req c) then Call_Next c Return else challenge ''Bearer'' c)"
  by (auto simp: bearer_middleware_def bearer_authorised_def split: option.splits)

subsection \<open>Properties\<close>


definition example_ctx :: "(unit, unit) ioh_ctx" where
  "example_ctx =
     \<lparr>cx_req = ioh_request_init, cx_resp = ioh_response_init, cx_arena = \<lparr>ar_base = 0x1000, ar_size = 4096, ar_used = 0\<rparr>,
      cx_values = [], cx_conn_fd = -1, cx_aborted = False\<rparr>"



definition example_auth_request :: ioh_request where
  "example_auth_request =
     ioh_request_init\<lparr>req_headers := [\<lparr>h_name = ''Authorization'', h_mem = ''Basic '' @ b64_encode ''user:pass'' @ [nul],
       h_value_len = 18\<rparr>]\<rparr>"


end
