(* ===== verification/Http_Filters.thy ===== *)
theory Http_Filters
  imports Auth
begin

text \<open>
  The CORS, security header and rate limiting middlewares, \<^verbatim>\<open>src/middleware/ioh_cors.c\<close>,
  \<^verbatim>\<open>ioh_security.c\<close> and \<^verbatim>\<open>ioh_ratelimit.c\<close>.

  Their thread-local configuration is an argument.  The outcome of \<^verbatim>\<open>ioh_response_set_header\<close> is success, since
  allocation succeeds.  The floating point arithmetic of the token buckets is a parameter.
\<close>

definition set_resp :: "('v, 'd) ioh_ctx \<Rightarrow> (ioh_response \<Rightarrow> ioh_response) \<Rightarrow> ('v, 'd) ioh_ctx" where
  "set_resp c f = c\<lparr>cx_resp := f (cx_resp c)\<rparr>"

subsection \<open>CORS\<close>

record ioh_cors_config =
  cc_allowed_origins :: "string list"
  cc_allowed_methods :: "string list"
  cc_allowed_headers :: "string list"
  cc_allow_credentials :: bool
  cc_max_age_seconds :: u32

definition ioh_cors_config_init :: ioh_cors_config where
  "ioh_cors_config_init =
     \<lparr>cc_allowed_origins = [], cc_allowed_methods = [], cc_allowed_headers = [], cc_allow_credentials = False,
      cc_max_age_seconds = 86400\<rparr>"

definition DEFAULT_METHODS :: string where "DEFAULT_METHODS = ''GET, POST, PUT, DELETE, PATCH''"
definition DEFAULT_HEADERS :: string where "DEFAULT_HEADERS = ''Content-Type, Authorization''"

definition origin_allowed :: "ioh_cors_config \<Rightarrow> string \<Rightarrow> bool" where
  "origin_allowed cfg origin \<longleftrightarrow>
     cc_allowed_origins cfg = [] \<or> (\<exists>o'\<in>set (cc_allowed_origins cfg). cstr o' = cstr origin)"

definition set_origin_header :: "ioh_cors_config \<Rightarrow> string \<Rightarrow> ioh_response \<Rightarrow> ioh_response" where
  "set_origin_header cfg origin resp =
     (if cc_allow_credentials cfg then ioh_response_set_header resp ''Access-Control-Allow-Origin'' origin
      else if cc_allowed_origins cfg = [] then ioh_response_set_header resp ''Access-Control-Allow-Origin'' ''*''
      else ioh_response_set_header resp ''Access-Control-Allow-Origin'' origin)"

text \<open>
  The list is joined in a buffer of 512 bytes with repeated \<^verbatim>\<open>snprintf\<close>.  The offset counts the untruncated text;
  once it is beyond the buffer the remaining size wraps around and the next call writes out of bounds: \<open>None\<close>.
\<close>

definition cors_put :: "string \<Rightarrow> (string \<times> nat) option \<Rightarrow> (string \<times> nat) option" where
  "cors_put t r =
     (case r of
        None \<Rightarrow> None
      | Some (buf, off) \<Rightarrow> if off > 512 then None else Some (if off < 512 then take 511 (buf @ cstr t) else buf, off + length (cstr t)))"

fun cors_join :: "string list \<Rightarrow> bool \<Rightarrow> (string \<times> nat) option \<Rightarrow> (string \<times> nat) option" where
  "cors_join [] first r = r"
| "cors_join (x # xs) first r = cors_join xs False (cors_put x (if first then r else cors_put '', '' r))"

definition cors_list :: "string list \<Rightarrow> string \<Rightarrow> string option" where
  "cors_list xs dflt = (if xs = [] then Some dflt else map_option fst (cors_join xs True (Some ([], 0))))"

definition preflight :: "ioh_cors_config \<Rightarrow> string \<Rightarrow> ioh_response \<Rightarrow> ioh_response option" where
  "preflight cfg origin resp =
     (case (cors_list (cc_allowed_methods cfg) DEFAULT_METHODS, cors_list (cc_allowed_headers cfg) DEFAULT_HEADERS) of
        (Some methods, Some headers) \<Rightarrow>
          (let resp = set_origin_header cfg origin (resp\<lparr>rs_status := 204\<rparr>);
               resp = ioh_response_set_header resp ''Access-Control-Allow-Methods'' methods;
               resp = ioh_response_set_header resp ''Access-Control-Allow-Headers'' headers;
               resp = ioh_response_set_header resp ''Access-Control-Max-Age'' (dec_digits (unat (cc_max_age_seconds cfg)))
           in Some (if cc_allow_credentials cfg then ioh_response_set_header resp ''Access-Control-Allow-Credentials'' ''true''
                    else resp))
      | _ \<Rightarrow> None)"

text \<open>The result is \<open>None\<close> when building a list would write out of bounds.\<close>

definition cors_middleware :: "ioh_cors_config \<Rightarrow> ('v, 'd) ioh_ctx \<Rightarrow> ('v, 'd) ioh_ctx act option" where
  "cors_middleware cfg c =
     (case ioh_request_header (cx_req c) ''Origin'' of
        None \<Rightarrow> Some (Call_Next c Return)
      | Some origin \<Rightarrow>
          if \<not> origin_allowed cfg origin then
            (if req_method (cx_req c) = IOH_METHOD_OPTIONS
             then Some (Return 0 (set_resp c (\<lambda>resp. resp\<lparr>rs_status := 204\<rparr>)))
             else Some (Call_Next c Return))
          else if req_method (cx_req c) = IOH_METHOD_OPTIONS then
            map_option (\<lambda>resp. Return 0 (c\<lparr>cx_resp := resp\<rparr>)) (preflight cfg origin (cx_resp c))
          else
            Some (Call_Next c (\<lambda>rc c'. if rc \<noteq> 0 then Return rc c'
                                        else Return 0 (set_resp c' (set_origin_header cfg origin)))))"

subsection \<open>Security headers\<close>

record ioh_security_config =
  sc_csp :: "string option"
  sc_hsts :: bool
  sc_hsts_max_age :: u32
  sc_frame_options :: "string option"
  sc_referrer_policy :: "string option"
  sc_nosniff :: bool

definition ioh_security_config_init :: ioh_security_config where
  "ioh_security_config_init =
     \<lparr>sc_csp = None, sc_hsts = True, sc_hsts_max_age = 31536000, sc_frame_options = Some ''DENY'',
      sc_referrer_policy = Some ''strict-origin-when-cross-origin'', sc_nosniff = True\<rparr>"

definition set_opt :: "string \<Rightarrow> string option \<Rightarrow> ioh_response \<Rightarrow> ioh_response" where
  "set_opt name v resp = (case v of None \<Rightarrow> resp | Some t \<Rightarrow> ioh_response_set_header resp name t)"

definition hsts_value :: "u32 \<Rightarrow> string" where
  "hsts_value age = ''max-age='' @ dec_digits (unat age) @ ''; includeSubDomains''"

definition security_headers :: "ioh_security_config \<Rightarrow> ioh_response \<Rightarrow> ioh_response" where
  "security_headers st resp =
     (let resp = set_opt ''Content-Security-Policy'' (sc_csp st) resp;
          resp = set_opt ''Strict-Transport-Security'' (if sc_hsts st then Some (hsts_value (sc_hsts_max_age st)) else None) resp;
          resp = set_opt ''X-Frame-Options'' (sc_frame_options st) resp;
          resp = set_opt ''Referrer-Policy'' (sc_referrer_policy st) resp
      in set_opt ''X-Content-Type-Options'' (if sc_nosniff st then Some ''nosniff'' else None) resp)"

definition security_middleware :: "ioh_security_config \<Rightarrow> ('v, 'd) ioh_ctx middleware" where
  "security_middleware st c =
     Call_Next c (\<lambda>rc c'. if rc \<noteq> 0 then Return rc c' else Return 0 (set_resp c' (security_headers st)))"

subsection \<open>Rate limiting\<close>

record ioh_ratelimit_config =
  rl_requests_per_second :: u32
  rl_burst :: u32

definition ioh_ratelimit_config_init :: ioh_ratelimit_config where
  "ioh_ratelimit_config_init = \<lparr>rl_requests_per_second = 10, rl_burst = 20\<rparr>"

definition IOH_RATELIMIT_BUCKETS :: nat where "IOH_RATELIMIT_BUCKETS = 1024"

record ('t, 'ts) ioh_bucket =
  bk_key :: string
  bk_tokens :: 't
  bk_last_refill :: 'ts
  bk_in_use :: bool

text \<open>
  The floating point operations: the conversion of the burst, the refill of a bucket from the times of
  its last refill and now (the tokens and whether the time is taken over), the test for a whole token and taking one.
\<close>

record ('t, 'ts) token_ops =
  tk_burst :: "u32 \<Rightarrow> 't"
  tk_refill :: "ioh_ratelimit_config \<Rightarrow> 'ts \<Rightarrow> 'ts \<Rightarrow> 't \<Rightarrow> 't \<times> bool"
  tk_has_one :: "'t \<Rightarrow> bool"
  tk_take :: "'t \<Rightarrow> 't"

fun hash_loop :: "u32 \<Rightarrow> string \<Rightarrow> u32" where
  "hash_loop h [] = h"
| "hash_loop h (c # cs) = hash_loop ((push_bit 5 h + h) + of_nat (byte_val c)) cs"

definition hash_key :: "string \<Rightarrow> nat" where
  "hash_key key = unat (hash_loop 5381 (cstr key)) mod IOH_RATELIMIT_BUCKETS"

text \<open>\<^verbatim>\<open>strncmp(a, b, 128) == 0\<close> on C strings.\<close>

definition same_key :: "string \<Rightarrow> string \<Rightarrow> bool" where
  "same_key stored key \<longleftrightarrow> take 128 (cstr stored) = take 128 (cstr key)"

text \<open>The probing loop: the result is the slot and the buckets, a new bucket filled in.\<close>

fun probe ::
  "('t, 'ts) token_ops \<Rightarrow> ioh_ratelimit_config \<Rightarrow> 'ts \<Rightarrow> string \<Rightarrow> nat \<Rightarrow> nat \<Rightarrow> ('t, 'ts) ioh_bucket list \<Rightarrow>
   nat option \<times> ('t, 'ts) ioh_bucket list" where
  "probe ops cfg now key idx 0 bs = (None, bs)"
| "probe ops cfg now key idx (Suc left) bs =
     (let slot = (idx + (IOH_RATELIMIT_BUCKETS - Suc left)) mod IOH_RATELIMIT_BUCKETS;
          b = bs ! slot
      in if \<not> bk_in_use b then
           (Some slot, bs[slot := \<lparr>bk_key = take 127 (cstr key), bk_tokens = tk_burst ops (rl_burst cfg),
                                  bk_last_refill = now, bk_in_use = True\<rparr>])
         else if same_key (bk_key b) key then (Some slot, bs)
         else probe ops cfg now key idx left bs)"

definition find_bucket where
  "find_bucket ops cfg now bs key = probe ops cfg now key (hash_key key) IOH_RATELIMIT_BUCKETS bs"

definition refill_bucket :: "('t, 'ts) token_ops \<Rightarrow> ioh_ratelimit_config \<Rightarrow> 'ts \<Rightarrow> ('t, 'ts) ioh_bucket \<Rightarrow> ('t, 'ts) ioh_bucket" where
  "refill_bucket ops cfg now b =
     (case tk_refill ops cfg (bk_last_refill b) now (bk_tokens b) of
        (t, elapsed) \<Rightarrow> b\<lparr>bk_tokens := t, bk_last_refill := (if elapsed then now else bk_last_refill b)\<rparr>)"

definition ioh_ratelimit_check ::
  "('t, 'ts) token_ops \<Rightarrow> ioh_ratelimit_config \<Rightarrow> 'ts \<Rightarrow> ('t, 'ts) ioh_bucket list \<Rightarrow> string \<Rightarrow> bool \<times> ('t, 'ts) ioh_bucket list" where
  "ioh_ratelimit_check ops cfg now bs key =
     (case find_bucket ops cfg now bs key of
        (None, bs) \<Rightarrow> (False, bs)
      | (Some slot, bs) \<Rightarrow>
          (let b = refill_bucket ops cfg now (bs ! slot)
           in if tk_has_one ops (bk_tokens b) then (True, bs[slot := b\<lparr>bk_tokens := tk_take ops (bk_tokens b)\<rparr>])
              else (False, bs[slot := b])))"

definition ratelimit_middleware ::
  "('t, 'ts) token_ops \<Rightarrow> ioh_ratelimit_config \<Rightarrow> 'ts \<Rightarrow> ('t, 'ts) ioh_bucket list \<Rightarrow> ('v, 'd) ioh_ctx \<Rightarrow>
   ('v, 'd) ioh_ctx act \<times> ('t, 'ts) ioh_bucket list" where
  "ratelimit_middleware ops cfg now bs c =
     (let key = (case ioh_request_header (cx_req c) ''Host'' of None \<Rightarrow> ''default'' | Some k \<Rightarrow> k)
      in case ioh_ratelimit_check ops cfg now bs key of
           (ok, bs') \<Rightarrow>
             (if \<not> ok then Return 0 (set_resp c (\<lambda>resp. ioh_response_set_header (resp\<lparr>rs_status := 429\<rparr>) ''Retry-After'' ''1''))
              else Call_Next c Return, bs'))"

definition ioh_ratelimit_reset :: "('t, 'ts) ioh_bucket \<Rightarrow> ('t, 'ts) ioh_bucket list \<Rightarrow> ('t, 'ts) ioh_bucket list" where
  "ioh_ratelimit_reset zeroed bs = replicate IOH_RATELIMIT_BUCKETS zeroed"

subsection \<open>Lemmas\<close>

text \<open>A list longer than the buffer is followed by a write out of bounds.\<close>

lemma cors_list_overflows: "512 < length (cstr x) \<Longrightarrow> cors_list (x # y # xs) dflt = None"
proof -
  assume "512 < length (cstr x)"
  moreover have "cors_join xs b None = None" for xs b by (induction xs arbitrary: b) (simp_all add: cors_put_def)
  ultimately show ?thesis by (simp add: cors_list_def cors_put_def)
qed

lemma cors_join_fits:
  "length r + sum_list (map (\<lambda>x. length (cstr x) + 2) xs) < 512 \<Longrightarrow>
     cors_join xs False (Some (r, length r)) = Some (r @ concat (map (\<lambda>x. '', '' @ cstr x) xs), length (r @ concat (map (\<lambda>x. '', '' @ cstr x) xs)))"
proof (induction xs arbitrary: r)
  case (Cons x xs)
  have "cstr '', '' = '', ''" by (simp add: cstr_def)
  with Cons.prems have "cors_put x (cors_put '', '' (Some (r, length r))) = Some (r @ '', '' @ cstr x, length (r @ '', '' @ cstr x))"
    by (simp add: cors_put_def)
  with Cons.IH [of "r @ '', '' @ cstr x"] Cons.prems show ?case by simp
qed simp

text \<open>The keys in the table are at most 127 characters, so a longer key matches none and always gets a new, full bucket.\<close>

definition keys_cut :: "('t, 'ts) ioh_bucket list \<Rightarrow> bool" where
  "keys_cut bs \<longleftrightarrow> (\<forall>b\<in>set bs. length (cstr (bk_key b)) \<le> 127)"

lemma same_key_long: "length (cstr stored) \<le> 127 \<Longrightarrow> 128 \<le> length (cstr key) \<Longrightarrow> \<not> same_key stored key"
  unfolding same_key_def by (auto dest: arg_cong [where f = length])

lemma probe_keys_cut: "keys_cut bs \<Longrightarrow> keys_cut (snd (probe ops cfg now key idx left bs))"
proof (induction left)
  case (Suc left)
  have "length (cstr (take 127 (cstr key))) \<le> 127"
    by (metis cstr_def length_take length_takeWhile_le min.cobounded2 order_trans)
  with Suc show ?case by (auto simp: Let_def keys_cut_def dest!: set_update_subset_insert [THEN subsetD])
qed simp

lemma probe_long_key:
  assumes "keys_cut bs" and "length bs = IOH_RATELIMIT_BUCKETS" and "128 \<le> length (cstr key)"
    and "probe ops cfg now key idx left bs = (Some slot, bs')"
  shows "\<not> bk_in_use (bs ! slot) \<and> bk_tokens (bs' ! slot) = tk_burst ops (rl_burst cfg)"
  using assms(4)
proof (induction left)
  case (Suc left)
  let ?slot = "(idx + (IOH_RATELIMIT_BUCKETS - Suc left)) mod IOH_RATELIMIT_BUCKETS"
  have slot: "?slot < length bs" using assms(2) by (simp add: IOH_RATELIMIT_BUCKETS_def)
  then have "\<not> same_key (bk_key (bs ! ?slot)) key" 
    using assms(1,3) same_key_long [of "bk_key (bs ! ?slot)" key] by (simp add: keys_cut_def)
  with Suc slot show ?case by (auto simp: Let_def split: if_splits)
qed simp

text \<open>Such a client is admitted as long as the table has room, however fast it sends.\<close>

lemma ratelimit_long_key_admitted:
  assumes "keys_cut bs" and "length bs = IOH_RATELIMIT_BUCKETS" and "128 \<le> length (cstr key)"
    and "find_bucket ops cfg now bs key = (Some slot, bs')"
    and "tk_has_one ops (fst (tk_refill ops cfg (bk_last_refill (bs' ! slot)) now (tk_burst ops (rl_burst cfg))))"
  shows "fst (ioh_ratelimit_check ops cfg now bs key)"
  using probe_long_key [OF assms(1-3) assms(4) [unfolded find_bucket_def]] assms(4,5)
  by (auto simp: ioh_ratelimit_check_def refill_bucket_def Let_def split: prod.splits)

text \<open>After a successful inner chain the configured security headers are on the response.\<close>

lemma security_defaults_present:
  "response_header (security_headers ioh_security_config_init resp) ''X-Frame-Options'' = Some ''DENY'' \<and>
   response_header (security_headers ioh_security_config_init resp) ''X-Content-Type-Options'' = Some ''nosniff'' \<and>
   response_header (security_headers ioh_security_config_init resp) ''Strict-Transport-Security'' =
     Some ''max-age=31536000; includeSubDomains''"
  by (simp add: security_headers_def ioh_security_config_init_def set_opt_def hsts_value_def Let_def response.get_set
      plain_text_def ci_eq_def to_lower_def dec_digits.simps IOH_MAX_HEADER_SIZE_def char_of_def bit_0)

end
