(* ===== verification/Conn.thy ===== *)
theory Conn
  imports Slot_Pool
begin

unbundle bit_operations_syntax

text \<open>
  Connections and the connection pool of \<^verbatim>\<open>src/core/ioh_conn.c\<close>.

  A connection is a record of its fields.  Its receive buffer is the list of the bytes received so
  far (\<^verbatim>\<open>recv_len\<close> is its length) and the allocated size, its send buffer an option.  A pointer to a
  connection is its index in the pool.  The TLS state is opaque (\<open>'tls\<close>).
\<close>

subsection \<open>The state machine\<close>

datatype ioh_conn_state =
    IOH_CONN_FREE | IOH_CONN_ACCEPTING | IOH_CONN_PROXY_HEADER | IOH_CONN_TLS_HANDSHAKE
  | IOH_CONN_HTTP_ACTIVE | IOH_CONN_WEBSOCKET | IOH_CONN_SSE | IOH_CONN_QUIC | IOH_CONN_DRAINING
  | IOH_CONN_CLOSING

fun state_val :: "ioh_conn_state \<Rightarrow> nat" where
  "state_val IOH_CONN_FREE = 0"
| "state_val IOH_CONN_ACCEPTING = 1"
| "state_val IOH_CONN_PROXY_HEADER = 2"
| "state_val IOH_CONN_TLS_HANDSHAKE = 3"
| "state_val IOH_CONN_HTTP_ACTIVE = 4"
| "state_val IOH_CONN_WEBSOCKET = 5"
| "state_val IOH_CONN_SSE = 6"
| "state_val IOH_CONN_QUIC = 7"
| "state_val IOH_CONN_DRAINING = 8"
| "state_val IOH_CONN_CLOSING = 9"

definition state_bit :: "ioh_conn_state \<Rightarrow> u16" where
  "state_bit s = push_bit (state_val s) 1"

text \<open>The table has no entry for QUIC, so the compiler fills it with zero.\<close>

fun valid_transitions :: "ioh_conn_state \<Rightarrow> u16" where
  "valid_transitions IOH_CONN_FREE = state_bit IOH_CONN_ACCEPTING"
| "valid_transitions IOH_CONN_ACCEPTING =
     state_bit IOH_CONN_PROXY_HEADER OR state_bit IOH_CONN_TLS_HANDSHAKE OR
     state_bit IOH_CONN_HTTP_ACTIVE OR state_bit IOH_CONN_CLOSING"
| "valid_transitions IOH_CONN_PROXY_HEADER =
     state_bit IOH_CONN_TLS_HANDSHAKE OR state_bit IOH_CONN_HTTP_ACTIVE OR state_bit IOH_CONN_CLOSING"
| "valid_transitions IOH_CONN_TLS_HANDSHAKE = state_bit IOH_CONN_HTTP_ACTIVE OR state_bit IOH_CONN_CLOSING"
| "valid_transitions IOH_CONN_HTTP_ACTIVE =
     state_bit IOH_CONN_WEBSOCKET OR state_bit IOH_CONN_SSE OR
     state_bit IOH_CONN_DRAINING OR state_bit IOH_CONN_CLOSING"
| "valid_transitions IOH_CONN_WEBSOCKET = state_bit IOH_CONN_DRAINING OR state_bit IOH_CONN_CLOSING"
| "valid_transitions IOH_CONN_SSE = state_bit IOH_CONN_DRAINING OR state_bit IOH_CONN_CLOSING"
| "valid_transitions IOH_CONN_QUIC = 0"
| "valid_transitions IOH_CONN_DRAINING = state_bit IOH_CONN_CLOSING"
| "valid_transitions IOH_CONN_CLOSING = 0"

fun ioh_conn_state_name :: "ioh_conn_state \<Rightarrow> string option" where
  "ioh_conn_state_name IOH_CONN_FREE = Some ''FREE''"
| "ioh_conn_state_name IOH_CONN_ACCEPTING = Some ''ACCEPTING''"
| "ioh_conn_state_name IOH_CONN_PROXY_HEADER = Some ''PROXY_HEADER''"
| "ioh_conn_state_name IOH_CONN_TLS_HANDSHAKE = Some ''TLS_HANDSHAKE''"
| "ioh_conn_state_name IOH_CONN_HTTP_ACTIVE = Some ''HTTP_ACTIVE''"
| "ioh_conn_state_name IOH_CONN_WEBSOCKET = Some ''WEBSOCKET''"
| "ioh_conn_state_name IOH_CONN_SSE = Some ''SSE''"
| "ioh_conn_state_name IOH_CONN_QUIC = None"
| "ioh_conn_state_name IOH_CONN_DRAINING = Some ''DRAINING''"
| "ioh_conn_state_name IOH_CONN_CLOSING = Some ''CLOSING''"

subsection \<open>Connections\<close>

datatype ioh_timeout_phase =
  IOH_TIMEOUT_NONE | IOH_TIMEOUT_HEADER | IOH_TIMEOUT_BODY | IOH_TIMEOUT_KEEPALIVE

record 'tls ioh_conn =
  c_fd :: int
  c_state :: ioh_conn_state
  c_id :: u32
  c_peer_addr :: sockaddr
  c_proxy_addr :: sockaddr
  c_proxy_used :: bool
  c_created_at_ms :: u64
  c_last_activity_ms :: u64
  c_tls_ctx :: "'tls option"
  c_recv_buf_size :: nat
  c_recv :: string
  c_send_buf :: "string option"
  c_send_len :: nat
  c_send_offset :: nat
  c_send_active :: bool
  c_keep_alive :: bool
  c_tls_done :: bool
  c_timeout_phase :: ioh_timeout_phase
  c_route_body_timeout_ms :: u32
  c_route_keepalive_timeout_ms :: u32

text \<open>A slot after \<^verbatim>\<open>memset(conn, 0, ...)\<close> with the descriptor set to -1.\<close>

definition free_conn :: "'tls ioh_conn" where
  "free_conn =
     \<lparr>c_fd = -1, c_state = IOH_CONN_FREE, c_id = 0, c_peer_addr = No_Addr, c_proxy_addr = No_Addr,
      c_proxy_used = False, c_created_at_ms = 0, c_last_activity_ms = 0, c_tls_ctx = None,
      c_recv_buf_size = 0, c_recv = [], c_send_buf = None, c_send_len = 0, c_send_offset = 0,
      c_send_active = False, c_keep_alive = False, c_tls_done = False,
      c_timeout_phase = IOH_TIMEOUT_NONE, c_route_body_timeout_ms = 0, c_route_keepalive_timeout_ms = 0\<rparr>"

definition ioh_conn_transition :: "'tls ioh_conn \<Rightarrow> ioh_conn_state \<Rightarrow> (unit, 'tls ioh_conn) outcome" where
  "ioh_conn_transition conn new_state =
     (if valid_transitions (c_state conn) AND state_bit new_state = 0 then (Inl EINVAL, conn)
      else (Inr (), conn\<lparr>c_state := new_state\<rparr>))"

subsection \<open>The pool\<close>

record 'tls ioh_conn_pool =
  cp_conns :: "'tls ioh_conn list"
  cp_active_count :: u32
  cp_next_id :: u32

definition IOH_CONN_RECV_BUF_SIZE :: nat where "IOH_CONN_RECV_BUF_SIZE = 8192"

definition ioh_conn_pool_create :: "u32 \<Rightarrow> 'tls ioh_conn_pool option" where
  "ioh_conn_pool_create max_conns =
     (if max_conns = 0 then None
      else Some \<lparr>cp_conns = replicate (unat max_conns) free_conn, cp_active_count = 0, cp_next_id = 1\<rparr>)"

text \<open>
  The flag says whether the allocation of the receive buffer succeeds.  When it fails the slot goes
  back to the free state, keeping the identifier it was given.
\<close>

definition ioh_conn_alloc :: "bool \<Rightarrow> 'tls ioh_conn_pool \<Rightarrow> nat option \<times> 'tls ioh_conn_pool" where
  "ioh_conn_alloc malloc_ok pool =
     (case find_index (\<lambda>c. c_state c = IOH_CONN_FREE) (cp_conns pool) of
        None \<Rightarrow> (None, pool)
      | Some i \<Rightarrow>
          (let conn = free_conn\<lparr>c_state := IOH_CONN_ACCEPTING, c_id := cp_next_id pool\<rparr>;
               pool = pool\<lparr>cp_next_id := cp_next_id pool + 1, cp_active_count := cp_active_count pool + 1\<rparr>
           in if malloc_ok
              then (Some i, pool\<lparr>cp_conns := (cp_conns pool)[i := conn\<lparr>c_recv_buf_size := IOH_CONN_RECV_BUF_SIZE\<rparr>]\<rparr>)
              else (None, pool\<lparr>cp_conns := (cp_conns pool)[i := conn\<lparr>c_state := IOH_CONN_FREE\<rparr>],
                     cp_active_count := cp_active_count pool - 1\<rparr>)))"

definition ioh_conn_free :: "'tls ioh_conn_pool \<Rightarrow> nat \<Rightarrow> 'tls ioh_conn_pool" where
  "ioh_conn_free pool i =
     pool\<lparr>cp_conns := (cp_conns pool)[i := free_conn], cp_active_count := cp_active_count pool - 1\<rparr>"

definition ioh_conn_find :: "'tls ioh_conn_pool \<Rightarrow> int \<Rightarrow> nat option" where
  "ioh_conn_find pool fd =
     (if fd < 0 then None
      else find_index (\<lambda>c. c_state c \<noteq> IOH_CONN_FREE \<and> c_fd c = fd) (cp_conns pool))"

definition ioh_conn_pool_capacity :: "'tls ioh_conn_pool \<Rightarrow> nat" where
  "ioh_conn_pool_capacity pool = length (cp_conns pool)"

definition ioh_conn_pool_get :: "'tls ioh_conn_pool \<Rightarrow> nat \<Rightarrow> 'tls ioh_conn option" where
  "ioh_conn_pool_get pool i =
     (if i \<ge> ioh_conn_pool_capacity pool then None else Some (cp_conns pool ! i))"

definition ioh_conn_pool_active :: "'tls ioh_conn_pool \<Rightarrow> u32" where
  "ioh_conn_pool_active pool = cp_active_count pool"

subsection \<open>Invariants\<close>

definition live_slots :: "'tls ioh_conn_pool \<Rightarrow> nat set" where
  "live_slots pool = {i. i < length (cp_conns pool) \<and> c_state (cp_conns pool ! i) \<noteq> IOH_CONN_FREE}"

text \<open>
  The pool invariant: the counter is the number of live slots, a free slot holds nothing, and the
  received bytes of a live slot fit in its buffer.
\<close>

definition conn_ok :: "'tls ioh_conn \<Rightarrow> bool" where
  "conn_ok c \<longleftrightarrow>
     (if c_state c = IOH_CONN_FREE then c_fd c = -1 \<and> c_recv_buf_size c = 0 \<and> c_recv c = [] \<and> c_send_buf c = None
      else c_recv_buf_size c = IOH_CONN_RECV_BUF_SIZE \<and> length (c_recv c) \<le> IOH_CONN_RECV_BUF_SIZE)"

definition pool_inv :: "'tls ioh_conn_pool \<Rightarrow> bool" where
  "pool_inv pool \<longleftrightarrow>
     length (cp_conns pool) < 2 ^ 32 \<and> unat (cp_active_count pool) = card (live_slots pool) \<and>
     (\<forall>c\<in>set (cp_conns pool). conn_ok c)"

text \<open>Live connections have different identifiers, all below the next one.\<close>

definition ids_inv :: "'tls ioh_conn_pool \<Rightarrow> bool" where
  "ids_inv pool \<longleftrightarrow>
     (\<forall>i\<in>live_slots pool. c_id (cp_conns pool ! i) < cp_next_id pool) \<and>
     (\<forall>i\<in>live_slots pool. \<forall>j\<in>live_slots pool. c_id (cp_conns pool ! i) = c_id (cp_conns pool ! j) \<longrightarrow> i = j)"

text \<open>Replacing one connection by an updated one: what every handler of the server does.\<close>

definition put_conn :: "'tls ioh_conn_pool \<Rightarrow> nat \<Rightarrow> 'tls ioh_conn \<Rightarrow> 'tls ioh_conn_pool" where
  "put_conn pool i c = pool\<lparr>cp_conns := (cp_conns pool)[i := c]\<rparr>"

text \<open>A run of transitions that must all succeed.\<close>

fun run_transitions :: "'tls ioh_conn \<Rightarrow> ioh_conn_state list \<Rightarrow> 'tls ioh_conn option" where
  "run_transitions c [] = Some c"
| "run_transitions c (s # ss) =
     (case ioh_conn_transition c s of (Inl _, _) \<Rightarrow> None | (Inr _, c') \<Rightarrow> run_transitions c' ss)"

subsection \<open>Lemmas\<close>

fun allowed_transitions :: "ioh_conn_state \<Rightarrow> ioh_conn_state list" where
  "allowed_transitions IOH_CONN_FREE = [IOH_CONN_ACCEPTING]"
| "allowed_transitions IOH_CONN_ACCEPTING =
     [IOH_CONN_PROXY_HEADER, IOH_CONN_TLS_HANDSHAKE, IOH_CONN_HTTP_ACTIVE, IOH_CONN_CLOSING]"
| "allowed_transitions IOH_CONN_PROXY_HEADER = [IOH_CONN_TLS_HANDSHAKE, IOH_CONN_HTTP_ACTIVE, IOH_CONN_CLOSING]"
| "allowed_transitions IOH_CONN_TLS_HANDSHAKE = [IOH_CONN_HTTP_ACTIVE, IOH_CONN_CLOSING]"
| "allowed_transitions IOH_CONN_HTTP_ACTIVE =
     [IOH_CONN_WEBSOCKET, IOH_CONN_SSE, IOH_CONN_DRAINING, IOH_CONN_CLOSING]"
| "allowed_transitions IOH_CONN_WEBSOCKET = [IOH_CONN_DRAINING, IOH_CONN_CLOSING]"
| "allowed_transitions IOH_CONN_SSE = [IOH_CONN_DRAINING, IOH_CONN_CLOSING]"
| "allowed_transitions IOH_CONN_DRAINING = [IOH_CONN_CLOSING]"
| "allowed_transitions _ = []"

lemma transition_allowed:
  "ioh_conn_transition c s =
     (if s \<in> set (allowed_transitions (c_state c)) then (Inr (), c\<lparr>c_state := s\<rparr>) else (Inl EINVAL, c))"
  by (cases "c_state c"; cases s) (simp_all add: ioh_conn_transition_def state_bit_def)

lemma allowed_increases: "s' \<in> set (allowed_transitions s) \<Longrightarrow> state_val s < state_val s'"
  by (cases s) auto

lemma allowed_not_quic: "s' \<in> set (allowed_transitions s) \<Longrightarrow> s' \<noteq> IOH_CONN_QUIC \<and> s' \<noteq> IOH_CONN_FREE"
  by (cases s) auto

lemma run_transitions_trace:
  "run_transitions c ss = Some c' \<Longrightarrow>
     sorted_wrt (\<lambda>a b. state_val a < state_val b) (c_state c # ss) \<and>
     IOH_CONN_QUIC \<notin> set ss \<and> IOH_CONN_FREE \<notin> set ss \<and> c' = c\<lparr>c_state := last (c_state c # ss)\<rparr>"
proof (induction ss arbitrary: c)
  case (Cons s ss)
  then have s: "s \<in> set (allowed_transitions (c_state c))" and r: "run_transitions (c\<lparr>c_state := s\<rparr>) ss = Some c'"
    by (auto simp: transition_allowed split: if_splits)
  have "\<forall>x\<in>set ss. state_val (c_state c) < state_val x"
    using Cons.IH [OF r] allowed_increases [OF s] by auto
  with Cons.IH [OF r] allowed_increases [OF s] allowed_not_quic [OF s] show ?case by (simp, blast)
qed simp

fun moves_left :: "ioh_conn_state \<Rightarrow> nat" where
  "moves_left IOH_CONN_FREE = 7"
| "moves_left IOH_CONN_ACCEPTING = 6"
| "moves_left IOH_CONN_PROXY_HEADER = 5"
| "moves_left IOH_CONN_TLS_HANDSHAKE = 4"
| "moves_left IOH_CONN_HTTP_ACTIVE = 3"
| "moves_left IOH_CONN_WEBSOCKET = 2"
| "moves_left IOH_CONN_SSE = 2"
| "moves_left IOH_CONN_DRAINING = 1"
| "moves_left _ = 0"

lemma allowed_moves_left: "s' \<in> set (allowed_transitions s) \<Longrightarrow> moves_left s' < moves_left s"
  by (cases s) auto

lemma run_transitions_bounded: "run_transitions c ss = Some c' \<Longrightarrow> length ss \<le> moves_left (c_state c)"
proof (induction ss arbitrary: c)
  case (Cons s ss)
  then have s: "s \<in> set (allowed_transitions (c_state c))" and r: "run_transitions (c\<lparr>c_state := s\<rparr>) ss = Some c'"
    by (auto simp: transition_allowed split: if_splits)
  from Cons.IH [OF r] allowed_moves_left [OF s] show ?case by simp
qed simp

lemma live_slots_finite [simp]: "finite (live_slots pool)"
  by (simp add: live_slots_def)

lemma live_slots_bounded: "live_slots pool \<subseteq> {..<length (cp_conns pool)}"
  by (auto simp: live_slots_def)

lemma card_live_slots: "card (live_slots pool) \<le> length (cp_conns pool)"
  using card_mono [OF _ live_slots_bounded] by simp

lemma live_slots_update:
  assumes "i < length (cp_conns pool)"
  shows "live_slots (pool\<lparr>cp_conns := (cp_conns pool)[i := c], cp_active_count := n, cp_next_id := m\<rparr>) =
       (if c_state c = IOH_CONN_FREE then live_slots pool - {i} else insert i (live_slots pool))"
  using assms by (auto simp: live_slots_def nth_list_update)

lemma live_slots_put:
  "i \<in> live_slots pool \<Longrightarrow> c_state c \<noteq> IOH_CONN_FREE \<Longrightarrow> live_slots (put_conn pool i c) = live_slots pool"
  by (auto simp: live_slots_def put_conn_def nth_list_update)

lemma pool_inv_put:
  "pool_inv pool \<Longrightarrow> i \<in> live_slots pool \<Longrightarrow> c_state c \<noteq> IOH_CONN_FREE \<Longrightarrow> conn_ok c \<Longrightarrow> pool_inv (put_conn pool i c)"
  using live_slots_put [of i pool c] set_update_subset_insert [of "cp_conns pool" i c]
  by (auto simp: pool_inv_def put_conn_def)

lemma find_free_slot:
  assumes "find_index (\<lambda>c. c_state c = IOH_CONN_FREE) (cp_conns pool) = Some i"
  shows "i < length (cp_conns pool)" and "i \<notin> live_slots pool" and "card (live_slots pool) < length (cp_conns pool)"
proof -
  from find_index_SomeD [OF assms] show i: "i < length (cp_conns pool)" and "i \<notin> live_slots pool"
    by (auto simp: live_slots_def)
  then have "live_slots pool \<subset> {..<length (cp_conns pool)}" using live_slots_bounded [of pool] by (metis lessThan_iff psubsetI)
  then show "card (live_slots pool) < length (cp_conns pool)" by (metis card_lessThan finite_lessThan psubset_card_mono)
qed

lemma no_free_slot:
  "find_index (\<lambda>c. c_state c = IOH_CONN_FREE) (cp_conns pool) = None \<Longrightarrow> live_slots pool = {..<length (cp_conns pool)}"
  by (auto simp: live_slots_def find_index_None)

lemma conn_okI [simp]:
  "conn_ok (free_conn\<lparr>c_id := x\<rparr>)" "conn_ok free_conn"
  "conn_ok (free_conn\<lparr>c_state := IOH_CONN_ACCEPTING, c_id := x, c_recv_buf_size := IOH_CONN_RECV_BUF_SIZE\<rparr>)"
  by (simp_all add: conn_ok_def free_conn_def)

lemma pool_inv_update:
  assumes "pool_inv pool" and "conn_ok c"
    and "unat n = card (live_slots (pool\<lparr>cp_conns := (cp_conns pool)[i := c], cp_active_count := n, cp_next_id := m\<rparr>))"
  shows "pool_inv (pool\<lparr>cp_conns := (cp_conns pool)[i := c], cp_active_count := n, cp_next_id := m\<rparr>)"
  using assms set_update_subset_insert [of "cp_conns pool" i c] by (auto simp: pool_inv_def)

lemma ioh_conn_alloc_contract:
  assumes inv: "pool_inv pool" and r: "ioh_conn_alloc ok pool = (r, pool')"
  shows "pool_inv pool' \<and> length (cp_conns pool') = length (cp_conns pool) \<and>
     (case r of
        Some i \<Rightarrow> ok \<and> i \<notin> live_slots pool \<and> live_slots pool' = insert i (live_slots pool)
      | None \<Rightarrow> (ok \<longrightarrow> live_slots pool = {..<length (cp_conns pool)}) \<and> live_slots pool' = live_slots pool)"
proof (cases "find_index (\<lambda>c. c_state c = IOH_CONN_FREE) (cp_conns pool)")
  case None
  with r inv no_free_slot [OF None] show ?thesis by (auto simp: ioh_conn_alloc_def)
next
  case (Some i)
  note free = find_free_slot [OF Some]
  note live = live_slots_update [OF free(1)]
  have count: "unat (cp_active_count pool + 1) = card (live_slots pool) + 1"
    using inv free(3) by (auto simp: pool_inv_def intro!: unat_increment [THEN trans])
  define c where "c = (free_conn :: 'a ioh_conn)\<lparr>c_state := IOH_CONN_ACCEPTING, c_id := cp_next_id pool\<rparr>"
  define n where "n = cp_active_count pool"
  define m where "m = cp_next_id pool + 1"
  show ?thesis
  proof (cases ok)
    case True
    define c' where "c' = c\<lparr>c_recv_buf_size := IOH_CONN_RECV_BUF_SIZE\<rparr>"
    have c': "c_state c' \<noteq> IOH_CONN_FREE" "conn_ok c'" by (simp_all add: c'_def c_def)
    have eq: "r = Some i"
      "pool' = pool\<lparr>cp_conns := (cp_conns pool)[i := c'], cp_active_count := n + 1, cp_next_id := m\<rparr>"
      using r Some True by (auto simp: ioh_conn_alloc_def Let_def c'_def c_def n_def m_def)
    have "pool_inv pool'" unfolding eq
      by (rule pool_inv_update [OF inv c'(2)]) (use live c'(1) free(2) count in \<open>simp add: n_def\<close>)
    then show ?thesis using live c'(1) free(2) True by (simp add: eq)
  next
    case False
    define c' where "c' = c\<lparr>c_state := IOH_CONN_FREE\<rparr>"
    have c': "c_state c' = IOH_CONN_FREE" "conn_ok c'" by (simp_all add: c'_def c_def conn_ok_def free_conn_def)
    have eq: "r = None"
      "pool' = pool\<lparr>cp_conns := (cp_conns pool)[i := c'], cp_active_count := n, cp_next_id := m\<rparr>"
      using r Some False by (auto simp: ioh_conn_alloc_def Let_def c'_def c_def n_def m_def)
    have "live_slots pool - {i} = live_slots pool" using free(2) by blast
    then have live': "live_slots (pool\<lparr>cp_conns := (cp_conns pool)[i := c'], cp_active_count := n, cp_next_id := m\<rparr>)
        = live_slots pool" using live c'(1) by simp
    have "pool_inv pool'" unfolding eq
      by (rule pool_inv_update [OF inv c'(2)]) (use live' inv in \<open>simp add: n_def pool_inv_def\<close>)
    then show ?thesis using live' False by (simp add: eq)
  qed
qed

lemma ioh_conn_free_contract:
  assumes inv: "pool_inv pool" and i: "i \<in> live_slots pool"
  shows "pool_inv (ioh_conn_free pool i)" and "live_slots (ioh_conn_free pool i) = live_slots pool - {i}"
    and "length (cp_conns (ioh_conn_free pool i)) = length (cp_conns pool)"
proof -
  have eq: "ioh_conn_free pool i =
      pool\<lparr>cp_conns := (cp_conns pool)[i := free_conn], cp_active_count := cp_active_count pool - 1, cp_next_id := cp_next_id pool\<rparr>"
    by (simp add: ioh_conn_free_def)
  have len: "i < length (cp_conns pool)" using i by (simp add: live_slots_def)
  show live: "live_slots (ioh_conn_free pool i) = live_slots pool - {i}"
    unfolding eq live_slots_update [OF len] by (simp add: free_conn_def)
  have card: "card (live_slots pool - {i}) = card (live_slots pool) - 1" "0 < card (live_slots pool)"
    using i by (auto simp: card_gt_0_iff)
  then have "cp_active_count pool \<noteq> 0" using inv by (auto simp: pool_inv_def)
  then have "unat (cp_active_count pool - 1) = card (live_slots pool - {i})"
    using card inv by (simp add: pool_inv_def unat_decrement)
  with live show "pool_inv (ioh_conn_free pool i)"
    unfolding eq by (intro pool_inv_update [OF inv]) simp_all
  show "length (cp_conns (ioh_conn_free pool i)) = length (cp_conns pool)" by (simp add: eq)
qed

interpretation conn_slots: slot_pool "ioh_conn_alloc True" ioh_conn_free live_slots ioh_conn_pool_capacity pool_inv
proof
  fix s :: "'a ioh_conn_pool" and i
  assume inv: "pool_inv s"
  note alloc = ioh_conn_alloc_contract [OF inv, of True "fst (ioh_conn_alloc True s)" "snd (ioh_conn_alloc True s)", simplified]
  show "live_slots s \<subseteq> {..<ioh_conn_pool_capacity s}"
    using live_slots_bounded by (simp add: ioh_conn_pool_capacity_def)
  show "pool_inv (snd (ioh_conn_alloc True s)) \<and>
      ioh_conn_pool_capacity (snd (ioh_conn_alloc True s)) = ioh_conn_pool_capacity s"
    using alloc by (simp add: ioh_conn_pool_capacity_def)
  show "fst (ioh_conn_alloc True s) = Some i \<Longrightarrow> i \<notin> live_slots s \<and>
      live_slots (snd (ioh_conn_alloc True s)) = insert i (live_slots s)"
    using alloc by simp
  show "fst (ioh_conn_alloc True s) = None \<Longrightarrow> live_slots s = {..<ioh_conn_pool_capacity s} \<and>
      live_slots (snd (ioh_conn_alloc True s)) = live_slots s"
    using alloc by (simp add: ioh_conn_pool_capacity_def)
  show "i \<in> live_slots s \<Longrightarrow> pool_inv (ioh_conn_free s i) \<and> live_slots (ioh_conn_free s i) = live_slots s - {i} \<and>
      ioh_conn_pool_capacity (ioh_conn_free s i) = ioh_conn_pool_capacity s"
    using ioh_conn_free_contract [OF inv] by (simp add: ioh_conn_pool_capacity_def)
qed

lemma pool_create_inv:
  assumes "ioh_conn_pool_create n = Some pool"
  shows "pool_inv pool" and "live_slots pool = {}" and "ioh_conn_pool_capacity pool = unat n" and "ids_inv pool"
    and "cp_next_id pool = 1"
proof -
  have eq: "pool = \<lparr>cp_conns = replicate (unat n) free_conn, cp_active_count = 0, cp_next_id = 1\<rparr>"
    using assms by (simp add: ioh_conn_pool_create_def split: if_splits)
  show live: "live_slots pool = {}" by (auto simp: eq live_slots_def free_conn_def)
  then show "pool_inv pool" using unat_bound [of n] by (auto simp: pool_inv_def eq)
  from live show "ids_inv pool" by (simp add: ids_inv_def)
  show "ioh_conn_pool_capacity pool = unat n" "cp_next_id pool = 1" by (simp_all add: ioh_conn_pool_capacity_def eq)
qed

lemma ids_inv_alloc:
  assumes inv: "ids_inv pool" and next_id: "unat (cp_next_id pool) + 1 < 2 ^ 32"
    and r: "ioh_conn_alloc True pool = (r, pool')"
  shows "ids_inv pool' \<and> unat (cp_next_id pool') \<le> unat (cp_next_id pool) + 1"
proof (cases "find_index (\<lambda>c. c_state c = IOH_CONN_FREE) (cp_conns pool)")
  case None
  with r inv show ?thesis by (auto simp: ioh_conn_alloc_def)
next
  case (Some i)
  note free = find_free_slot [OF Some]
  have succ: "unat (cp_next_id pool + 1) = unat (cp_next_id pool) + 1"
    by (rule unat_increment) (use next_id in simp)
  define c where "c = (free_conn :: 'a ioh_conn)\<lparr>c_state := IOH_CONN_ACCEPTING, c_id := cp_next_id pool,
    c_recv_buf_size := IOH_CONN_RECV_BUF_SIZE\<rparr>"
  have eq: "pool' = pool\<lparr>cp_conns := (cp_conns pool)[i := c], cp_active_count := cp_active_count pool + 1,
      cp_next_id := cp_next_id pool + 1\<rparr>"
    using r Some by (auto simp: ioh_conn_alloc_def Let_def c_def)
  have live: "live_slots pool' = insert i (live_slots pool)"
    unfolding eq live_slots_update [OF free(1)] by (simp add: c_def)
  have nth: "cp_conns pool' ! j = (if j = i then c else cp_conns pool ! j)" for j
    using free(1) by (simp add: eq nth_list_update)
  have old: "c_id (cp_conns pool ! j) < cp_next_id pool" "j \<noteq> i" if "j \<in> live_slots pool" for j
    using that inv free(2) by (auto simp: ids_inv_def)
  have "c_id c = cp_next_id pool" by (simp add: c_def)
  moreover have "x < cp_next_id pool + 1" if "x \<le> cp_next_id pool" for x
    using that succ by (simp add: word_less_nat_alt word_le_nat_alt)
  moreover have "cp_next_id pool' = cp_next_id pool + 1" by (simp add: eq)
  ultimately have "c_id (cp_conns pool' ! j) < cp_next_id pool'" if "j \<in> live_slots pool'" for j
    using that old by (auto simp: live nth intro: less_imp_le)
  moreover have "j = k" if "j \<in> live_slots pool'" "k \<in> live_slots pool'"
      "c_id (cp_conns pool' ! j) = c_id (cp_conns pool' ! k)" for j k
    using that old inv unfolding ids_inv_def
    by (auto simp: live nth \<open>c_id c = cp_next_id pool\<close> split: if_splits)
  ultimately show ?thesis by (auto simp: ids_inv_def succ eq)
qed

lemma ids_inv_free: "ids_inv pool \<Longrightarrow> i \<in> live_slots pool \<Longrightarrow> ids_inv (ioh_conn_free pool i)"
  by (auto simp: ids_inv_def live_slots_def ioh_conn_free_def nth_list_update free_conn_def)

lemma slot_run_ids:
  assumes "pool_inv pool" and "ids_inv pool" and "distinct held" and "set held = live_slots pool"
    and "unat (cp_next_id pool) + length ops < 2 ^ 32"
    and "slot_run (ioh_conn_alloc True) ioh_conn_free pool held ops = (pool', held')"
  shows "ids_inv pool'"
  using assms
proof (induction ops arbitrary: pool held)
  case (Cons op ops)
  show ?case
  proof (cases op)
    case Acquire
    obtain r p1 where r: "ioh_conn_alloc True pool = (r, p1)" by (rule prod.exhaust)
    have n: "unat (cp_next_id pool) + 1 < 2 ^ 32" using Cons.prems(5) by simp
    note c = ioh_conn_alloc_contract [OF Cons.prems(1) r] and ids = ids_inv_alloc [OF Cons.prems(2) n r]
    have bound: "unat (cp_next_id p1) + length ops < 2 ^ 32" using ids Cons.prems(5) by simp
    show ?thesis
    proof (cases r)
      case None
      with Cons.IH [of p1 held] Cons.prems c ids bound show ?thesis by (simp add: Acquire r)
    next
      case (Some i)
      with Cons.IH [of p1 "i # held"] Cons.prems c ids bound show ?thesis by (simp add: Acquire r)
    qed
  next
    case (Release k)
    show ?thesis
    proof (cases "k < length held")
      case True
      note d = drop_nth_take_set [OF Cons.prems(3) True]
      have i: "held ! k \<in> live_slots pool" using True Cons.prems(4) nth_mem by blast
      have "cp_next_id (ioh_conn_free pool (held ! k)) = cp_next_id pool" by (simp add: ioh_conn_free_def)
      with Cons.IH [of "ioh_conn_free pool (held ! k)" "take k held @ drop (Suc k) held"] Cons.prems d True
        ioh_conn_free_contract [OF Cons.prems(1) i] ids_inv_free [OF Cons.prems(2) i]
      show ?thesis by (simp add: Release del: set_append distinct_append)
    next
      case False
      with Cons.IH [of pool held] Cons.prems show ?thesis by (simp add: Release)
    qed
  qed
qed simp

lemma create_two:
  "ioh_conn_pool_create 2 = Some \<lparr>cp_conns = [free_conn, free_conn], cp_active_count = 0, cp_next_id = 1\<rparr>"
proof -
  have "replicate 2 x = [x, x]" for x :: "'a ioh_conn" by (simp add: numeral_2_eq_2)
  then show ?thesis by (simp add: ioh_conn_pool_create_def)
qed

subsection \<open>Properties\<close>



text \<open>C31: The connection identifiers of the live slots are pairwise different after any sequence of
  allocations and releases of fewer than \<open>2 ^ 32 - 1\<close> operations, so the identifier of a completion names at
  most one connection; beyond that the 32-bit counter has wrapped.
\<close>

theorem conn_ids_unique:
  assumes "ioh_conn_pool_create n = Some pool" and "length ops + 1 < 2 ^ 32"
    and "slot_run (ioh_conn_alloc True) ioh_conn_free pool [] ops = (pool', held)"
    and "i \<in> live_slots pool'" and "j \<in> live_slots pool'"
    and "c_id (cp_conns pool' ! i) = c_id (cp_conns pool' ! j)"
  shows "i = j"
proof -
  note create = pool_create_inv [OF assms(1)]
  have "ids_inv pool'"
    by (rule slot_run_ids [OF create(1,4) _ _ _ assms(3)]) (use create(2,5) assms(2) in simp_all)
  with assms(4-) show ?thesis by (simp add: ids_inv_def)
qed

theorem conn_ids_unique_witness:
  "\<exists>pool :: unit ioh_conn_pool. \<exists>i\<in>live_slots pool. \<exists>j\<in>live_slots pool. i \<noteq> j \<and>
     c_id (cp_conns pool ! i) \<noteq> c_id (cp_conns pool ! j)"
proof -
  let ?init = "\<lparr>cp_conns = [free_conn, free_conn :: unit ioh_conn], cp_active_count = 0, cp_next_id = 1\<rparr>"
  let ?p = "snd (ioh_conn_alloc True (snd (ioh_conn_alloc True ?init)))"
  have create: "ioh_conn_pool_create 2 = Some ?init"
    by (rule create_two)
  have run: "slot_run (ioh_conn_alloc True) ioh_conn_free ?init [] [Acquire, Acquire] = (?p, [1, 0])"
    by (simp add: ioh_conn_alloc_def Let_def free_conn_def)
  have live: "0 \<in> live_slots ?p" "1 \<in> live_slots ?p"
    by (simp_all add: live_slots_def ioh_conn_alloc_def Let_def free_conn_def)
  have "c_id (cp_conns ?p ! 0) \<noteq> c_id (cp_conns ?p ! 1)"
  proof
    assume "c_id (cp_conns ?p ! 0) = c_id (cp_conns ?p ! 1)"
    then have "(0 :: nat) = 1" by (rule conn_ids_unique [OF create _ run live, rotated]) simp
    then show False by simp
  qed
  with live show ?thesis by (intro exI [of _ ?p] bexI [of _ 0] bexI [of _ 1] conjI) auto
qed

text \<open>C32: The state machine of a connection only moves forward: if a list of transitions all succeed, the
  states visited are strictly increasing in the order of the state enumeration, none of them is QUIC or FREE, no
  other field changes, and a connection accepted anew changes state at most six times.
\<close>

theorem conn_transitions_forward:
  assumes "c_state c = IOH_CONN_ACCEPTING" and "run_transitions c ss = Some c'"
  shows "sorted_wrt (\<lambda>a b. state_val a < state_val b) (IOH_CONN_ACCEPTING # ss) \<and>
    IOH_CONN_QUIC \<notin> set ss \<and> IOH_CONN_FREE \<notin> set ss \<and>
    c' = c\<lparr>c_state := last (IOH_CONN_ACCEPTING # ss)\<rparr> \<and> length ss \<le> 6"
proof -
  note trace = run_transitions_trace [OF assms(2)]
  moreover have "length ss \<le> 6" using run_transitions_bounded [OF assms(2)] by (simp add: assms(1))
  ultimately show ?thesis by (simp only: assms(1)) simp
qed

theorem conn_transitions_forward_witness:
  "\<exists>c' :: unit ioh_conn. run_transitions (free_conn\<lparr>c_state := IOH_CONN_ACCEPTING\<rparr>)
     [IOH_CONN_PROXY_HEADER, IOH_CONN_TLS_HANDSHAKE, IOH_CONN_HTTP_ACTIVE, IOH_CONN_SSE, IOH_CONN_DRAINING, IOH_CONN_CLOSING]
     = Some c' \<and> c_state c' = IOH_CONN_CLOSING"
proof -
  let ?c = "(free_conn :: unit ioh_conn)\<lparr>c_state := IOH_CONN_ACCEPTING\<rparr>"
  let ?ss = "[IOH_CONN_PROXY_HEADER, IOH_CONN_TLS_HANDSHAKE, IOH_CONN_HTTP_ACTIVE, IOH_CONN_SSE, IOH_CONN_DRAINING,
      IOH_CONN_CLOSING]"
  obtain c' where r: "run_transitions ?c ?ss = Some c'" by (simp add: transition_allowed)
  have s: "c_state ?c = IOH_CONN_ACCEPTING" by simp
  show ?thesis using conn_transitions_forward [OF s r] r by auto
qed

end
