(* ===== verification/Proxy_Proto.thy ===== *)
theory Proxy_Proto
  imports Iohttp_Prelude
begin

text \<open>
  The decoder of the PROXY protocol, \<^verbatim>\<open>src/http/ioh_proxy_proto.c\<close>.

  The conversion of an address text to bytes is \<^verbatim>\<open>inet_pton\<close> of the operating system's network
  library, a parameter of the model: it gets the family and the text and returns the bytes when it
  accepts.  The line of version 1 is copied to a NUL-terminated buffer, so the code sees its C string.
  The result is described for a successful decode.
\<close>

unbundle bit_operations_syntax

datatype ip_family = AF_INET | AF_INET6

type_synonym inet_pton = "ip_family \<Rightarrow> string \<Rightarrow> string option"

definition IOH_PROXY_V2_SIG :: string where
  "IOH_PROXY_V2_SIG = [cr, lf, cr, lf, nul, cr, lf, CHR ''Q'', CHR ''U'', CHR ''I'', CHR ''T'', lf]"

definition IOH_PROXY_V1_MAX_LEN :: nat where "IOH_PROXY_V1_MAX_LEN = 108"
definition IOH_PROXY_V2_MIN_LEN :: nat where "IOH_PROXY_V2_MIN_LEN = 16"
definition INET6_ADDRSTRLEN :: nat where "INET6_ADDRSTRLEN = 46"

record ioh_proxy_result =
  px_version :: nat
  px_is_local :: bool
  px_family :: "ip_family option"
  px_src :: sockaddr
  px_dst :: sockaddr

definition empty_result :: "nat \<Rightarrow> ioh_proxy_result" where
  "empty_result v = \<lparr>px_version = v, px_is_local = False, px_family = None, px_src = No_Addr, px_dst = No_Addr\<rparr>"

subsection \<open>Version 1\<close>

text \<open>The number of bytes before the first CR LF.\<close>

fun crlf_index :: "string \<Rightarrow> nat option" where
  "crlf_index (a # b # cs) = (if a = cr \<and> b = lf then Some 0 else map_option Suc (crlf_index (b # cs)))"
| "crlf_index _ = None"

definition find_crlf :: "string \<Rightarrow> nat \<Rightarrow> nat option" where
  "find_crlf buf max_len = crlf_index (take (min (length buf) max_len) buf)"

text \<open>\<^verbatim>\<open>strchr(pos, ' ')\<close>: the token before the space and the text after it.\<close>

definition next_token :: "string \<Rightarrow> (string \<times> string) option" where
  "next_token s =
     (case dropWhile (\<lambda>c. c \<noteq> CHR '' '') s of
        [] \<Rightarrow> None
      | _ # rest \<Rightarrow> Some (takeWhile (\<lambda>c. c \<noteq> CHR '' '') s, rest))"

text \<open>The port loops, with the 32-bit arithmetic of \<^verbatim>\<open>unsigned int\<close>.\<close>

fun port_loop :: "u32 \<Rightarrow> string \<Rightarrow> u32 option" where
  "port_loop acc [] = Some acc"
| "port_loop acc (c # cs) =
     (if byte_val c < 48 \<or> byte_val c > 57 then None else port_loop (acc * 10 + of_nat (byte_val c - 48)) cs)"

definition v1_addresses ::
  "inet_pton \<Rightarrow> ip_family \<Rightarrow> string \<Rightarrow> string \<Rightarrow> u32 \<Rightarrow> u32 \<Rightarrow> errno + ioh_proxy_result" where
  "v1_addresses pton fam src_ip dst_ip src_port dst_port =
     (let mk = (case fam of AF_INET \<Rightarrow> Inet | AF_INET6 \<Rightarrow> Inet6)
      in case pton fam src_ip of
           None \<Rightarrow> Inl EINVAL
         | Some src \<Rightarrow>
             (case pton fam dst_ip of
                None \<Rightarrow> Inl EINVAL
              | Some dst \<Rightarrow>
                  Inr ((empty_result 1)\<lparr>px_family := Some fam, px_src := mk src (ucast src_port),
                         px_dst := mk dst (ucast dst_port)\<rparr>)))"

text \<open>The part of the line after the family, with its C string semantics.\<close>

definition v1_fields :: "inet_pton \<Rightarrow> ip_family \<Rightarrow> string \<Rightarrow> errno + ioh_proxy_result" where
  "v1_fields pton fam pos =
     (case next_token pos of
        None \<Rightarrow> Inl EINVAL
      | Some (src_ip, pos) \<Rightarrow>
          if length src_ip \<ge> INET6_ADDRSTRLEN then Inl EINVAL
          else (case next_token pos of
                  None \<Rightarrow> Inl EINVAL
                | Some (dst_ip, pos) \<Rightarrow>
                    if length dst_ip \<ge> INET6_ADDRSTRLEN then Inl EINVAL
                    else (case next_token pos of
                            None \<Rightarrow> Inl EINVAL
                          | Some (sport, pos) \<Rightarrow>
                              (case port_loop 0 sport of
                                 None \<Rightarrow> Inl EINVAL
                               | Some src_port \<Rightarrow>
                                   (case port_loop 0 pos of
                                      None \<Rightarrow> Inl EINVAL
                                    | Some dst_port \<Rightarrow>
                                        if src_port > 65535 \<or> dst_port > 65535 then Inl EINVAL
                                        else v1_addresses pton fam src_ip dst_ip src_port dst_port)))))"

definition with_total :: "nat \<Rightarrow> errno + 'a \<Rightarrow> errno + (nat \<times> 'a)" where
  "with_total n r = (case r of Inl e \<Rightarrow> Inl e | Inr x \<Rightarrow> Inr (n, x))"

definition decode_v1 :: "inet_pton \<Rightarrow> string \<Rightarrow> errno + (nat \<times> ioh_proxy_result)" where
  "decode_v1 pton buf =
     (if length buf < 6 then Inl EAGAIN
      else case find_crlf buf IOH_PROXY_V1_MAX_LEN of
             None \<Rightarrow> if length buf \<ge> IOH_PROXY_V1_MAX_LEN then Inl EINVAL else Inl EAGAIN
           | Some line_len \<Rightarrow>
               (let total_consumed = line_len + 2;
                    pos = cstr (drop 6 (take line_len buf))
                in if take 7 pos = ''UNKNOWN'' then Inr (total_consumed, (empty_result 1)\<lparr>px_is_local := True\<rparr>)
                   else if take 5 pos = ''TCP4 '' then with_total total_consumed (v1_fields pton AF_INET (drop 5 pos))
                   else if take 5 pos = ''TCP6 '' then with_total total_consumed (v1_fields pton AF_INET6 (drop 5 pos))
                   else Inl EINVAL))"

subsection \<open>Version 2\<close>

definition byte_at :: "string \<Rightarrow> nat \<Rightarrow> u8" where
  "byte_at buf i = of_nat (byte_val (buf ! i))"

definition be16 :: "string \<Rightarrow> nat \<Rightarrow> u16" where
  "be16 buf i = push_bit 8 (ucast (byte_at buf i)) OR ucast (byte_at buf (i + 1))"

definition v2_addresses :: "string \<Rightarrow> u16 \<Rightarrow> u8 \<Rightarrow> errno + ioh_proxy_result" where
  "v2_addresses addrs addr_len family =
     (if family = 1 then
        (if addr_len < 12 then Inl EINVAL
         else Inr ((empty_result 2)\<lparr>px_family := Some AF_INET,
                px_src := Inet (take 4 addrs) (be16 addrs 8), px_dst := Inet (take 4 (drop 4 addrs)) (be16 addrs 10)\<rparr>))
      else if family = 2 then
        (if addr_len < 36 then Inl EINVAL
         else Inr ((empty_result 2)\<lparr>px_family := Some AF_INET6,
                px_src := Inet6 (take 16 addrs) (be16 addrs 32), px_dst := Inet6 (take 16 (drop 16 addrs)) (be16 addrs 34)\<rparr>))
      else Inr ((empty_result 2)\<lparr>px_is_local := True\<rparr>))"

definition decode_v2 :: "string \<Rightarrow> errno + (nat \<times> ioh_proxy_result)" where
  "decode_v2 buf =
     (if length buf < IOH_PROXY_V2_MIN_LEN then Inl EAGAIN
      else if take 12 buf \<noteq> IOH_PROXY_V2_SIG then Inl EINVAL
      else
        (let ver_cmd = byte_at buf 12; fam_proto = byte_at buf 13
         in if drop_bit 4 ver_cmd \<noteq> 2 then Inl EINVAL
            else
              (let command = ver_cmd AND 15
               in if command > 1 then Inl EINVAL
                  else
                    (let addr_len = be16 buf 14;
                         total = IOH_PROXY_V2_MIN_LEN + unat addr_len
                     in if length buf < total then Inl EAGAIN
                        else if command = 0 then Inr (total, (empty_result 2)\<lparr>px_is_local := True\<rparr>)
                        else with_total total
                               (v2_addresses (drop IOH_PROXY_V2_MIN_LEN buf) addr_len (drop_bit 4 fam_proto AND 15))))))"

definition ioh_proxy_decode :: "inet_pton \<Rightarrow> string \<Rightarrow> errno + (nat \<times> ioh_proxy_result)" where
  "ioh_proxy_decode pton buf =
     (if buf = [] then Inl EAGAIN
      else if length buf \<ge> 12 \<and> take 12 buf = IOH_PROXY_V2_SIG then decode_v2 buf
      else if length buf \<ge> 6 \<and> take 6 buf = ''PROXY '' then decode_v1 pton buf
      else if length buf < 6 then Inl EAGAIN
      else Inl ENOSPC)"

subsection \<open>Lemmas\<close>

lemma crlf_index_Some:
  "crlf_index s = Some k \<Longrightarrow> k + 2 \<le> length s \<and> s ! k = cr \<and> crlf_index (take (k + 2) s @ ys) = Some k"
proof (induction s arbitrary: k rule: crlf_index.induct)
  case (1 a b cs)
  show ?case
  proof (cases "a = cr \<and> b = lf")
    case True
    with "1.prems" show ?thesis by auto
  next
    case False
    with "1.prems" obtain j where j: "crlf_index (b # cs) = Some j" "k = Suc j" by auto
    from "1.IH" [OF False j(1)] False show ?thesis
      by (cases j; cases cs) (auto simp: j(2))
  qed
qed auto

lemma find_crlf_Some:
  assumes "find_crlf buf m = Some k"
  shows "k + 2 \<le> length buf" and "k + 2 \<le> m" and "buf ! k = cr" and "find_crlf (take (k + 2) buf @ ys) m = Some k"
proof -
  let ?s = "take (min (length buf) m) buf"
  have s: "crlf_index ?s = Some k" using assms by (simp add: find_crlf_def)
  note c = crlf_index_Some [OF s]
  then show le: "k + 2 \<le> length buf" "k + 2 \<le> m" by auto
  from c le show "buf ! k = cr" by simp
  have "take (k + 2) ?s = take (k + 2) buf" using le by simp
  with c have "crlf_index (take (k + 2) buf @ zs) = Some k" for zs
    using crlf_index_Some [OF s, of zs] by metis
  moreover have "take (min (length (take (k + 2) buf @ ys)) m) (take (k + 2) buf @ ys) =
      take (k + 2) buf @ take (m - (k + 2)) ys"
    using le by (simp add: min_def)
  ultimately show "find_crlf (take (k + 2) buf @ ys) m = Some k" by (simp add: find_crlf_def)
qed

lemma with_total_Inr [simp]: "with_total t x = Inr (n, r) \<longleftrightarrow> n = t \<and> x = Inr r"
  by (auto simp: with_total_def split: sum.splits)

lemma PROXY_no_cr: "take 6 buf = ''PROXY '' \<Longrightarrow> buf ! k = cr \<Longrightarrow> 6 \<le> k"
proof (rule ccontr)
  assume p: "take 6 buf = ''PROXY ''" and k: "buf ! k = cr" "\<not> 6 \<le> k"
  then have "''PROXY '' ! k = cr" by (metis not_le nth_take)
  moreover have "k \<in> {0, 1, 2, 3, 4, 5}" using k(2) by auto
  ultimately show False by auto
qed

lemma decode_v1_consumed:
  assumes "decode_v1 pton buf = Inr (n, r)" and "take 6 buf = ''PROXY ''"
  shows "8 \<le> n \<and> n \<le> length buf \<and> n \<le> IOH_PROXY_V1_MAX_LEN \<and> decode_v1 pton (take n buf @ ys) = Inr (n, r)"
proof -
  obtain k where k: "find_crlf buf IOH_PROXY_V1_MAX_LEN = Some k"
    using assms by (cases "find_crlf buf IOH_PROXY_V1_MAX_LEN") (auto simp: decode_v1_def split: if_splits)
  have n: "n = k + 2"
    using assms(1) k by (auto simp: decode_v1_def Let_def split: if_splits)
  note f = find_crlf_Some [OF k]
  have "6 \<le> k" using PROXY_no_cr [OF assms(2) f(3)] .
  moreover have "take k (take n buf @ ys) = take k buf" using f(1) n by simp
  then have "decode_v1 pton (take n buf @ ys) = Inr (n, r)"
    using assms(1) k f(4) [of ys] f(1) \<open>6 \<le> k\<close> by (simp add: decode_v1_def n split: if_splits)
  ultimately show ?thesis using f n by simp
qed

lemma byte_at_prefix: "i < n \<Longrightarrow> n \<le> length buf \<Longrightarrow> byte_at (take n buf @ ys) i = byte_at buf i"
  by (simp add: byte_at_def nth_append)

lemma be16_prefix: "Suc i < n \<Longrightarrow> n \<le> length buf \<Longrightarrow> be16 (take n buf @ ys) i = be16 buf i"
  by (simp add: be16_def byte_at_prefix)

lemma v2_addresses_prefix:
  assumes "unat len \<le> length addrs"
  shows "v2_addresses (take (unat len) addrs @ ys) len fam = v2_addresses addrs len fam"
proof -
  have "take 4 (take (unat len) addrs @ ys) = take 4 addrs" "take 4 (drop 4 (take (unat len) addrs @ ys)) = take 4 (drop 4 addrs)"
    "be16 (take (unat len) addrs @ ys) 8 = be16 addrs 8" "be16 (take (unat len) addrs @ ys) 10 = be16 addrs 10"
    if "\<not> len < 12"
  proof -
    have "12 \<le> unat len" using that by (simp add: word_less_nat_alt)
    with assms show "take 4 (take (unat len) addrs @ ys) = take 4 addrs" "take 4 (drop 4 (take (unat len) addrs @ ys)) = take 4 (drop 4 addrs)"
      "be16 (take (unat len) addrs @ ys) 8 = be16 addrs 8" "be16 (take (unat len) addrs @ ys) 10 = be16 addrs 10"
      by (simp_all add: be16_prefix take_drop)
  qed
  moreover have "take 16 (take (unat len) addrs @ ys) = take 16 addrs"
    "take 16 (drop 16 (take (unat len) addrs @ ys)) = take 16 (drop 16 addrs)"
    "be16 (take (unat len) addrs @ ys) 32 = be16 addrs 32" "be16 (take (unat len) addrs @ ys) 34 = be16 addrs 34"
    if "\<not> len < 36"
  proof -
    have "36 \<le> unat len" using that by (simp add: word_less_nat_alt)
    with assms show "take 16 (take (unat len) addrs @ ys) = take 16 addrs"
      "take 16 (drop 16 (take (unat len) addrs @ ys)) = take 16 (drop 16 addrs)"
      "be16 (take (unat len) addrs @ ys) 32 = be16 addrs 32" "be16 (take (unat len) addrs @ ys) 34 = be16 addrs 34"
      by (simp_all add: be16_prefix take_drop)
  qed
  ultimately show ?thesis by (simp add: v2_addresses_def)
qed

lemma decode_v2_consumed:
  assumes "decode_v2 buf = Inr (n, r)"
  shows "16 \<le> n \<and> n \<le> length buf \<and> decode_v2 (take n buf @ ys) = Inr (n, r)"
proof -
  have n: "n = 16 + unat (be16 buf 14)" and le: "n \<le> length buf"
    using assms by (auto simp: decode_v2_def Let_def IOH_PROXY_V2_MIN_LEN_def split: if_splits)
  have b: "byte_at (take n buf @ ys) 12 = byte_at buf 12" "byte_at (take n buf @ ys) 13 = byte_at buf 13"
    "be16 (take n buf @ ys) 14 = be16 buf 14" "take 12 (take n buf @ ys) = take 12 buf"
    using n le by (simp_all add: byte_at_prefix be16_prefix)
  have "drop 16 (take n buf @ ys) = take (unat (be16 buf 14)) (drop 16 buf) @ ys"
    using n le by (simp add: drop_take)
  then have a: "v2_addresses (drop 16 (take n buf @ ys)) (be16 buf 14) fam = v2_addresses (drop 16 buf) (be16 buf 14) fam" for fam
    using v2_addresses_prefix [of "be16 buf 14" "drop 16 buf"] n le by simp
  show ?thesis
    using assms n le b a by (auto simp: decode_v2_def Let_def IOH_PROXY_V2_MIN_LEN_def split: if_splits)
qed

subsection \<open>Printing headers\<close>

definition enc16 :: "u16 \<Rightarrow> string" where
  "enc16 w = [char_of (unat w div 256), char_of (unat w mod 256)]"

text \<open>A header to be sent: the addresses of version 1 are texts, those of version 2 bytes.\<close>

datatype proxy_header =
    V1 ip_family string string u16 u16
  | V2 ip_family string string u16 u16 string

fun addr_size :: "ip_family \<Rightarrow> nat" where
  "addr_size AF_INET = 4"
| "addr_size AF_INET6 = 16"

fun mk_addr :: "ip_family \<Rightarrow> string \<Rightarrow> u16 \<Rightarrow> sockaddr" where
  "mk_addr AF_INET = Inet"
| "mk_addr AF_INET6 = Inet6"

fun print_proxy :: "proxy_header \<Rightarrow> string" where
  "print_proxy (V1 fam src dst sport dport) =
     ''PROXY '' @ (case fam of AF_INET \<Rightarrow> ''TCP4 '' | AF_INET6 \<Rightarrow> ''TCP6 '') @ src @ '' '' @ dst @ '' '' @
     dec_digits (unat sport) @ '' '' @ dec_digits (unat dport) @ [cr, lf]"
| "print_proxy (V2 fam src dst sport dport tlv) =
     IOH_PROXY_V2_SIG @ [CHR 0x21, case fam of AF_INET \<Rightarrow> CHR 0x11 | AF_INET6 \<Rightarrow> CHR 0x21] @
     enc16 (of_nat (2 * addr_size fam + 4 + length tlv)) @ src @ dst @ enc16 sport @ enc16 dport @ tlv"

abbreviation addr_text :: "string \<Rightarrow> bool" where
  "addr_text a \<equiv> length a < INET6_ADDRSTRLEN \<and> CHR '' '' \<notin> set a \<and> cr \<notin> set a \<and> nul \<notin> set a"

fun proxy_ok :: "inet_pton \<Rightarrow> proxy_header \<Rightarrow> bool" where
  "proxy_ok pton (V1 fam src dst sport dport) \<longleftrightarrow>
     addr_text src \<and> addr_text dst \<and> pton fam src \<noteq> None \<and> pton fam dst \<noteq> None \<and>
     length (print_proxy (V1 fam src dst sport dport)) \<le> IOH_PROXY_V1_MAX_LEN"
| "proxy_ok pton (V2 fam src dst sport dport tlv) \<longleftrightarrow>
     length src = addr_size fam \<and> length dst = addr_size fam \<and> 2 * addr_size fam + 4 + length tlv < 2 ^ 16"

fun proxy_result :: "inet_pton \<Rightarrow> proxy_header \<Rightarrow> ioh_proxy_result" where
  "proxy_result pton (V1 fam src dst sport dport) =
     (empty_result 1)\<lparr>px_family := Some fam, px_src := mk_addr fam (the (pton fam src)) sport,
        px_dst := mk_addr fam (the (pton fam dst)) dport\<rparr>"
| "proxy_result pton (V2 fam src dst sport dport tlv) =
     (empty_result 2)\<lparr>px_family := Some fam, px_src := mk_addr fam src sport, px_dst := mk_addr fam dst dport\<rparr>"

lemma be16_enc16: "be16 (pre @ enc16 w @ post) (length pre) = w"
proof -
  have hi: "byte_at (pre @ enc16 w @ post) (length pre) = of_nat (unat w div 256)"
    and lo: "byte_at (pre @ enc16 w @ post) (length pre + 1) = of_nat (unat w mod 256)"
    using unat_bound [of w] by (simp_all add: byte_at_def enc16_def nth_append)
  have "(of_nat (unat w div 256) :: 8 word) = ucast (drop_bit 8 w)"
    by (simp add: word_unat_eq_iff unat_of_nat unsigned_ucast_eq drop_bit_eq_div unat_div_distrib take_bit_eq_mod)
  moreover have "(of_nat (unat w mod 256) :: 8 word) = ucast w"
    by (simp add: word_unat_eq_iff unat_of_nat unsigned_ucast_eq take_bit_eq_mod)
  ultimately show ?thesis unfolding be16_def hi lo
    by (auto intro!: bit_word_eqI simp: bit_simps)
qed

lemma port_loop_digits: "port_loop 0 (dec_digits n) = Some (of_nat n)"
proof -
  have snoc: "port_loop a (ds @ [c]) = (case port_loop a ds of None \<Rightarrow> None | Some b \<Rightarrow> port_loop b [c])" for a ds c
    by (induction ds arbitrary: a) auto
  have "port_loop 0 (dec_digits n) = Some (of_nat n)" for n
  proof (induction n rule: dec_digits.induct)
    case (1 n)
    show ?case
    proof (cases "n < 10")
      case True
      then show ?thesis by (simp add: dec_digits.simps [of n])
    next
      case False
      have "n mod 10 < 10" by simp
      then have d: "byte_val (char_of (48 + n mod 10) :: char) = 48 + n mod 10" "\<not> 9 < n mod 10" by simp_all
      have "of_nat n = (of_nat (n div 10) * 10 + of_nat (n mod 10) :: 32 word)"
        by (metis div_mult_mod_eq of_nat_add of_nat_mult of_nat_numeral)
      then show ?thesis using "1.IH" [OF False] False d by (simp add: dec_digits.simps [of n] snoc)
    qed
  qed
  then show ?thesis .
qed

lemma next_token_space: "CHR '' '' \<notin> set a \<Longrightarrow> next_token (a @ CHR '' '' # r) = Some (a, r)"
  by (simp add: next_token_def takeWhile_append_delim dropWhile_append_delim)

lemma crlf_index_append: "cr \<notin> set a \<Longrightarrow> crlf_index (a @ cr # lf # r) = Some (length a)"
proof (induction a)
  case (Cons c a)
  then show ?case by (cases a) auto
qed simp

lemma port_u16: "(of_nat (unat (p :: u16)) :: u32) \<le> 65535" "ucast (of_nat (unat (p :: u16)) :: u32) = p"
proof -
  have "unat p < 65536" using unat_bound [of p] by simp
  then show "(of_nat (unat p) :: u32) \<le> 65535" by (simp add: word_le_nat_alt unsigned_ucast_eq take_bit_eq_mod)
  show "ucast (of_nat (unat p) :: u32) = p"
    by (rule bit_word_eqI) (simp add: bit_simps)
qed

lemma digits_no_ctl: "cr \<notin> set (dec_digits n)" "nul \<notin> set (dec_digits n)" "CHR '' '' \<notin> set (dec_digits n)"
  using dec_digits_all_digits [of n] by (auto simp: is_digit_def)

lemma v1_fields_print:
  assumes "addr_text src" "addr_text dst" "pton fam src = Some s" "pton fam dst = Some d"
  shows "v1_fields pton fam (src @ CHR '' '' # dst @ CHR '' '' # dec_digits (unat sport) @ CHR '' '' # dec_digits (unat dport)) =
    Inr ((empty_result 1)\<lparr>px_family := Some fam, px_src := mk_addr fam s sport, px_dst := mk_addr fam d dport\<rparr>)"
proof -
  have p: "port_loop 0 (dec_digits (unat (w :: u16))) = Some (of_nat (unat w))" for w
    by (rule port_loop_digits)
  have "\<not> (of_nat (unat (w :: u16)) :: u32) > 65535" for w using port_u16(1) [of w] by simp
  then show ?thesis
    using assms p port_u16(2) digits_no_ctl(3)
    by (cases fam) (simp_all add: v1_fields_def next_token_space v1_addresses_def not_less)
qed

lemma decode_v1_print:
  assumes "proxy_ok pton (V1 fam src dst sport dport)"
  shows "ioh_proxy_decode pton (print_proxy (V1 fam src dst sport dport) @ rest) =
    Inr (length (print_proxy (V1 fam src dst sport dport)), proxy_result pton (V1 fam src dst sport dport))"
proof -
  let ?fam = "case fam of AF_INET \<Rightarrow> ''TCP4 '' | AF_INET6 \<Rightarrow> ''TCP6 ''"
  let ?tail = "src @ CHR '' '' # dst @ CHR '' '' # dec_digits (unat sport) @ CHR '' '' # dec_digits (unat dport)"
  define line where "line = ''PROXY '' @ ?fam @ ?tail"
  define buf where "buf = line @ cr # lf # rest"
  have buf: "print_proxy (V1 fam src dst sport dport) @ rest = buf" by (simp add: buf_def line_def)
  have len: "length (print_proxy (V1 fam src dst sport dport)) = length line + 2" by (simp add: line_def)
  then have fits: "length line + 2 \<le> IOH_PROXY_V1_MAX_LEN" using assms by simp
  have clean: "cr \<notin> set line" "nul \<notin> set line"
    using assms digits_no_ctl by (auto simp: line_def split: ip_family.split)
  have "take (min (length buf) IOH_PROXY_V1_MAX_LEN) buf = line @ cr # lf # take (IOH_PROXY_V1_MAX_LEN - (length line + 2)) rest"
    using fits by (simp add: buf_def min_def take_Cons')
  then have crlf: "find_crlf buf IOH_PROXY_V1_MAX_LEN = Some (length line)"
    using crlf_index_append [OF clean(1)] by (simp add: find_crlf_def)
  have "take (length line) buf = line" by (simp add: buf_def)
  moreover have "nul \<notin> set (drop 6 line)" using clean(2) by (meson in_set_dropD)
  ultimately have pos: "cstr (drop 6 (take (length line) buf)) = ?fam @ ?tail" by (simp add: line_def)
  have "\<not> length buf < 6" "take 6 buf = ''PROXY ''" "take 12 buf \<noteq> IOH_PROXY_V2_SIG"
    by (simp_all add: buf_def line_def IOH_PROXY_V2_SIG_def take_Cons')
  moreover have "decode_v1 pton buf = Inr (length line + 2, proxy_result pton (V1 fam src dst sport dport))"
  proof -
    obtain s d where "pton fam src = Some s" "pton fam dst = Some d" using assms by auto
    then show ?thesis
      using assms \<open>\<not> length buf < 6\<close> v1_fields_print [of src dst pton fam s d sport dport]
      unfolding decode_v1_def crlf option.case Let_def pos by (cases fam) simp_all
  qed
  ultimately show ?thesis unfolding buf len by (auto simp: ioh_proxy_decode_def)
qed

lemma unat_of_nat_u16: "k < 2 ^ 16 \<Longrightarrow> unat (of_nat k :: u16) = k"
  by (simp add: unat_of_nat take_bit_eq_mod)

lemma decode_v2_print:
  assumes "proxy_ok pton (V2 fam src dst sport dport tlv)"
  shows "ioh_proxy_decode pton (print_proxy (V2 fam src dst sport dport tlv) @ rest) =
    Inr (length (print_proxy (V2 fam src dst sport dport tlv)), proxy_result pton (V2 fam src dst sport dport tlv))"
proof -
  define k where "k = 2 * addr_size fam + 4 + length tlv"
  let ?f = "case fam of AF_INET \<Rightarrow> CHR 0x11 | AF_INET6 \<Rightarrow> CHR 0x21"
  define addrs where "addrs = src @ dst @ enc16 sport @ enc16 dport @ tlv @ rest"
  define buf where "buf = IOH_PROXY_V2_SIG @ [CHR 0x21, ?f] @ enc16 (of_nat k) @ addrs"
  have buf: "print_proxy (V2 fam src dst sport dport tlv) @ rest = buf" by (simp add: buf_def addrs_def k_def)
  have sig: "length IOH_PROXY_V2_SIG = 12" by (simp add: IOH_PROXY_V2_SIG_def)
  have e: "length (enc16 w) = 2" for w by (simp add: enc16_def)
  have len: "length (print_proxy (V2 fam src dst sport dport tlv)) = 16 + k" using assms sig e by (simp add: k_def)
  have n: "unat (of_nat k :: u16) = k" using assms by (intro unat_of_nat_u16) (simp add: k_def)
  have b: "take 12 buf = IOH_PROXY_V2_SIG" "byte_at buf 12 = 0x21" "drop 16 buf = addrs"
    "byte_at buf 13 = (case fam of AF_INET \<Rightarrow> 0x11 | AF_INET6 \<Rightarrow> 0x21)"
    by (simp_all add: buf_def sig e byte_at_def nth_append split: ip_family.split)
  have l: "be16 buf 14 = of_nat k"
    using be16_enc16 [of "IOH_PROXY_V2_SIG @ [CHR 0x21, ?f]" "of_nat k" addrs] sig by (simp add: buf_def)
  have long: "length buf \<ge> 16 + k" using assms sig e by (simp add: buf_def addrs_def k_def)
  have "length (src @ dst) = 2 * addr_size fam" "length (src @ dst @ enc16 sport) = 2 * addr_size fam + 2"
    using assms e by simp_all
  moreover have "be16 addrs (length (src @ dst)) = sport" "be16 addrs (length (src @ dst @ enc16 sport)) = dport"
    using be16_enc16 [of "src @ dst" sport "enc16 dport @ tlv @ rest"] be16_enc16 [of "src @ dst @ enc16 sport" dport "tlv @ rest"]
    unfolding addrs_def by (simp_all only: append_assoc)
  ultimately have ports: "be16 addrs (2 * addr_size fam) = sport" "be16 addrs (2 * addr_size fam + 2) = dport" by metis+
  have ips: "take (addr_size fam) addrs = src" "take (addr_size fam) (drop (addr_size fam) addrs) = dst"
    using assms by (simp_all add: addrs_def)
  have "\<not> (of_nat k :: u16) < of_nat (2 * addr_size fam + 4)"
    using n assms by (cases fam) (simp_all add: word_less_nat_alt k_def)
  then have "v2_addresses addrs (of_nat k) (drop_bit 4 (byte_at buf 13) AND 15) =
      Inr (proxy_result pton (V2 fam src dst sport dport tlv))"
    using ports ips by (cases fam) (simp_all add: b v2_addresses_def)
  then have "decode_v2 buf = Inr (16 + k, proxy_result pton (V2 fam src dst sport dport tlv))"
    using b l n long by (simp add: decode_v2_def IOH_PROXY_V2_MIN_LEN_def)
  moreover have "buf \<noteq> []" "12 \<le> length buf" using long by auto
  ultimately show ?thesis unfolding buf len using b(1) by (simp add: ioh_proxy_decode_def)
qed

subsection \<open>Properties\<close>

text \<open>C40: A PROXY header of either version and family, followed by any bytes, is decoded to exactly the addresses and ports
  it carries, and the number of bytes consumed is the length of the header.  For the text version this holds for any
  address conversion that accepts the two texts.\<close>

theorem proxy_round_trip:
  assumes "proxy_ok pton h"
  shows "ioh_proxy_decode pton (print_proxy h @ rest) = Inr (length (print_proxy h), proxy_result pton h)"
  using assms by (cases h) (simp_all only: decode_v1_print decode_v2_print)

definition example_pton :: inet_pton where
  "example_pton fam s = (if fam = AF_INET \<and> s = ''127.0.0.1'' then Some [CHR 0x7F, nul, nul, CHR 0x01] else None)"

theorem proxy_round_trip_witness:
  "ioh_proxy_decode example_pton (print_proxy (V1 AF_INET ''127.0.0.1'' ''127.0.0.1'' 80 8080) @ ''GET'') =
     Inr (length (print_proxy (V1 AF_INET ''127.0.0.1'' ''127.0.0.1'' 80 8080)),
       (empty_result 1)\<lparr>px_family := Some AF_INET, px_src := Inet [CHR 0x7F, nul, nul, CHR 0x01] 80,
         px_dst := Inet [CHR 0x7F, nul, nul, CHR 0x01] 8080\<rparr>)"
proof -
  have "proxy_ok example_pton (V1 AF_INET ''127.0.0.1'' ''127.0.0.1'' 80 8080)"
    by (simp add: example_pton_def INET6_ADDRSTRLEN_def IOH_PROXY_V1_MAX_LEN_def dec_digits.simps)
  from proxy_round_trip [OF this] show ?thesis by (simp add: example_pton_def)
qed

lemma proxy_decode_v2: "12 \<le> length b \<Longrightarrow> take 12 b = IOH_PROXY_V2_SIG \<Longrightarrow> ioh_proxy_decode pton b = decode_v2 b"
  by (cases b) (simp_all add: ioh_proxy_decode_def)

lemma proxy_decode_v1:
  assumes "6 \<le> length b" and p: "take 6 b = ''PROXY ''"
  shows "ioh_proxy_decode pton b = decode_v1 pton b"
proof -
  have "take 12 b \<noteq> IOH_PROXY_V2_SIG"
  proof
    assume "take 12 b = IOH_PROXY_V2_SIG"
    then have "take 6 (take 12 b) = take 6 IOH_PROXY_V2_SIG" by simp
    then have "take 6 IOH_PROXY_V2_SIG = ''PROXY ''" using p by (simp add: take_take)
    then show False by (simp add: IOH_PROXY_V2_SIG_def)
  qed
  with assms show ?thesis by (cases b) (simp_all add: ioh_proxy_decode_def)
qed

text \<open>A decoded header depends only on the bytes it consumes, and they were received: the count is positive and at most
  the buffer's length, at most 108 for the text version, and the same header is decoded from those bytes alone or followed
  by anything else.\<close>

theorem proxy_consumes_own_bytes:
  assumes "ioh_proxy_decode pton buf = Inr (n, r)"
  shows "0 < n \<and> n \<le> length buf \<and> (px_version r = 1 \<longrightarrow> n \<le> IOH_PROXY_V1_MAX_LEN) \<and>
    ioh_proxy_decode pton (take n buf @ ys) = Inr (n, r)"
proof (cases "length buf \<ge> 12 \<and> take 12 buf = IOH_PROXY_V2_SIG")
  case True
  then have v2: "decode_v2 buf = Inr (n, r)" using assms by (auto simp: ioh_proxy_decode_def split: if_splits)
  note c = decode_v2_consumed [OF v2, of ys]
  have "px_version r = 2"
    using v2 by (auto simp: decode_v2_def v2_addresses_def empty_result_def Let_def split: if_splits)
  moreover have "take 12 (take n buf @ ys) = take 12 buf" using c by simp
  moreover have "12 \<le> length (take n buf @ ys)" using c by simp
  ultimately show ?thesis using c True proxy_decode_v2 [of "take n buf @ ys" pton] by simp
next
  case False
  then have v1: "decode_v1 pton buf = Inr (n, r)" and p: "take 6 buf = ''PROXY ''"
    using assms by (auto simp: ioh_proxy_decode_def split: if_splits)
  note c = decode_v1_consumed [OF v1 p, of ys]
  have "take 6 (take n buf @ ys) = ''PROXY ''" "6 \<le> length (take n buf @ ys)" using c p by simp_all
  from proxy_decode_v1 [OF this(2,1), of pton] show ?thesis using c by simp
qed

theorem proxy_consumes_own_bytes_witness:
  "ioh_proxy_decode example_pton (take 15 (''PROXY UNKNOWN'' @ [cr, lf] @ ''GET'') @ ''POST'') =
     Inr (15, (empty_result 1)\<lparr>px_is_local := True\<rparr>)"
proof -
  have "ioh_proxy_decode example_pton (''PROXY UNKNOWN'' @ [cr, lf] @ ''GET'') = Inr (15, (empty_result 1)\<lparr>px_is_local := True\<rparr>)"
    by (simp add: ioh_proxy_decode_def IOH_PROXY_V2_SIG_def decode_v1_def find_crlf_def IOH_PROXY_V1_MAX_LEN_def cstr_def)
  from proxy_consumes_own_bytes [OF this, of "''POST''"] show ?thesis by blast
qed

text \<open>A binary header that arrives in two reads is refused when the first read ends inside its signature: with six to
  eleven bytes of the signature received, the decoder answers ENOSPC (unknown protocol), not EAGAIN, although the
  complete header would be accepted.\<close>

lemma proxy_v2_split_signature_refused:
  assumes "6 \<le> k" and "k < 12"
  shows "ioh_proxy_decode pton (take k (print_proxy (V2 fam src dst sport dport tlv))) = Inl ENOSPC"
proof -
  have "k \<in> {6, 7, 8, 9, 10, 11}" using assms by auto
  then show ?thesis by (auto simp: ioh_proxy_decode_def IOH_PROXY_V2_SIG_def)
qed

text \<open>The port arithmetic wraps: a number above 2 to the 32 is accepted as the port it is congruent to.\<close>

lemma proxy_v1_port_wraps: "port_loop 0 ''4294967376'' = Some 80"
  by simp

end
