(* ===== verification/Tls.thy ===== *)
theory Tls
  imports Iohttp_Prelude
begin

text \<open>
  TLS over memory buffers, \<^verbatim>\<open>src/tls/ioh_tls.c\<close>.

  The TLS engine (wolfSSL) is a parameter: what a call of it does is an interaction that reads ciphertext and
  writes ciphertext through the two callbacks of the source, and ends with a return value, the class
  of its error and the engine's new state.  The input buffer is the list of the bytes up to \<^verbatim>\<open>cipher_in_len\<close>
  with the read position, the output buffer the bytes up to \<^verbatim>\<open>cipher_out_len\<close>.
\<close>

definition IOH_TLS_CIPHER_BUF_SIZE :: nat where "IOH_TLS_CIPHER_BUF_SIZE = 16384"

datatype ssl_error = SSL_WANT_READ | SSL_WANT_WRITE | SSL_FATAL

text \<open>The answer \<open>None\<close> of a callback is the request to try again.\<close>

datatype 's ssl_act =
    Ssl_Return int ssl_error string 's
  | Ssl_Recv nat "string option \<Rightarrow> 's ssl_act"
  | Ssl_Send string "nat option \<Rightarrow> 's ssl_act"

record 's wolfssl =
  wolfSSL_new :: "'s option"
  wolfSSL_UseALPN :: "string \<Rightarrow> 's \<Rightarrow> 's option"
  wolfSSL_accept :: "'s \<Rightarrow> 's ssl_act"
  wolfSSL_read :: "nat \<Rightarrow> 's \<Rightarrow> 's ssl_act"
  wolfSSL_write :: "string \<Rightarrow> 's \<Rightarrow> 's ssl_act"
  wolfSSL_shutdown :: "'s \<Rightarrow> 's ssl_act"

record 's ioh_tls_conn =
  tc_ssl :: 's
  tc_in :: string
  tc_in_pos :: nat
  tc_in_cap :: nat
  tc_out :: string
  tc_out_cap :: nat
  tc_handshake_done :: bool

subsection \<open>Callbacks\<close>

definition tls_ioh_recv_cb :: "nat \<Rightarrow> 's ioh_tls_conn \<Rightarrow> string option \<times> 's ioh_tls_conn" where
  "tls_ioh_recv_cb sz conn =
     (let avail = length (tc_in conn) - tc_in_pos conn
      in if avail = 0 then (None, conn)
         else
           (let to_copy = (if sz < avail then sz else avail);
                data = take to_copy (drop (tc_in_pos conn) (tc_in conn));
                conn = conn\<lparr>tc_in_pos := tc_in_pos conn + to_copy\<rparr>
            in if tc_in_pos conn = length (tc_in conn) then (Some data, conn\<lparr>tc_in_pos := 0, tc_in := []\<rparr>)
               else (Some data, conn)))"

definition tls_ioh_send_cb :: "string \<Rightarrow> 's ioh_tls_conn \<Rightarrow> nat option \<times> 's ioh_tls_conn" where
  "tls_ioh_send_cb buf conn =
     (let space = tc_out_cap conn - length (tc_out conn)
      in if space = 0 then (None, conn)
         else
           (let to_copy = (if length buf < space then length buf else space)
            in (Some to_copy, conn\<lparr>tc_out := tc_out conn @ take to_copy buf\<rparr>)))"

text \<open>A call of the engine: its callbacks act on the connection.\<close>

primrec run_ssl :: "'s ssl_act \<Rightarrow> 's ioh_tls_conn \<Rightarrow> (int \<times> ssl_error \<times> string) \<times> 's ioh_tls_conn" where
  "run_ssl (Ssl_Return ret err data s) conn = ((ret, err, data), conn\<lparr>tc_ssl := s\<rparr>)"
| "run_ssl (Ssl_Recv sz k) conn =
     (case tls_ioh_recv_cb sz conn of (r, conn') \<Rightarrow> run_ssl (k r) conn')"
| "run_ssl (Ssl_Send buf k) conn =
     (case tls_ioh_send_cb buf conn of (r, conn') \<Rightarrow> run_ssl (k r) conn')"

subsection \<open>Configuration and context\<close>

record ioh_tls_config =
  tg_cert_file :: "string option"
  tg_key_file :: "string option"
  tg_ca_file :: "string option"
  tg_require_client_cert :: bool
  tg_enable_session_tickets :: bool
  tg_session_cache_size :: u32
  tg_alpn :: "string option"

definition ioh_tls_config_init :: ioh_tls_config where
  "ioh_tls_config_init =
     \<lparr>tg_cert_file = None, tg_key_file = None, tg_ca_file = None, tg_require_client_cert = False,
      tg_enable_session_tickets = False, tg_session_cache_size = 256, tg_alpn = None\<rparr>"

definition ioh_tls_config_validate :: "ioh_tls_config \<Rightarrow> errno + unit" where
  "ioh_tls_config_validate cfg =
     (if tg_cert_file cfg = None then Inl EINVAL else if tg_key_file cfg = None then Inl EINVAL else Inr ())"

text \<open>
  The calls that configure the engine's context, in the order the code makes them.  The parameter \<open>ok\<close> of
  the creation tells which of them succeed; the result of the last five is not checked.
\<close>

datatype wolf_call =
    CTX_new | CTX_SetMinVersion_TLSV1_2 | CTX_use_certificate_file string | CTX_use_PrivateKey_file string
  | CTX_load_verify_locations string | CTX_set_verify_peer | CTX_session_cache_off | CTX_no_ticket
  | CTX_SetIO_callbacks | CTX_accept_moving_write_buffer

record ioh_tls_ctx =
  tx_calls :: "wolf_call list"
  tx_config :: ioh_tls_config
  tx_alpn_copy :: "string option"

definition ioh_tls_ctx_create :: "(wolf_call \<Rightarrow> bool) \<Rightarrow> ioh_tls_config \<Rightarrow> ioh_tls_ctx option" where
  "ioh_tls_ctx_create ok cfg =
     (case (tg_cert_file cfg, tg_key_file cfg) of
        (Some cert, Some key) \<Rightarrow>
          (let checked = [CTX_new, CTX_SetMinVersion_TLSV1_2, CTX_use_certificate_file cert, CTX_use_PrivateKey_file key] @
                 (case tg_ca_file cfg of None \<Rightarrow> [] | Some ca \<Rightarrow> [CTX_load_verify_locations ca]);
               unchecked = (if tg_require_client_cert cfg then [CTX_set_verify_peer] else []) @
                 (if tg_session_cache_size cfg = 0 then [CTX_session_cache_off] else []) @
                 (if tg_enable_session_tickets cfg then [] else [CTX_no_ticket]) @
                 [CTX_SetIO_callbacks, CTX_accept_moving_write_buffer]
           in if list_all ok checked
              then Some \<lparr>tx_calls = checked @ unchecked, tx_config = cfg, tx_alpn_copy = map_option cstr (tg_alpn cfg)\<rparr>
              else None)
      | _ \<Rightarrow> None)"

subsection \<open>Connections\<close>

text \<open>The flag says whether the three allocations succeed.\<close>

definition ioh_tls_conn_create :: "bool \<Rightarrow> 's wolfssl \<Rightarrow> ioh_tls_ctx \<Rightarrow> 's ioh_tls_conn option" where
  "ioh_tls_conn_create malloc_ok wolf ctx =
     (if \<not> malloc_ok then None
      else case wolfSSL_new wolf of
             None \<Rightarrow> None
           | Some ssl \<Rightarrow>
               map_option
                 (\<lambda>ssl. \<lparr>tc_ssl = ssl, tc_in = [], tc_in_pos = 0, tc_in_cap = IOH_TLS_CIPHER_BUF_SIZE, tc_out = [],
                        tc_out_cap = IOH_TLS_CIPHER_BUF_SIZE, tc_handshake_done = False\<rparr>)
                 (case tx_alpn_copy ctx of
                    None \<Rightarrow> Some ssl
                  | Some alpn \<Rightarrow> if alpn = [] then Some ssl else wolfSSL_UseALPN wolf alpn ssl))"

definition compact_input :: "'s ioh_tls_conn \<Rightarrow> 's ioh_tls_conn" where
  "compact_input conn =
     (if tc_in_pos conn > 0 \<and> length (tc_in conn) > tc_in_pos conn
      then conn\<lparr>tc_in := drop (tc_in_pos conn) (tc_in conn), tc_in_pos := 0\<rparr>
      else if tc_in_pos conn > 0 then conn\<lparr>tc_in := [], tc_in_pos := 0\<rparr>
      else conn)"

definition ioh_tls_feed_input :: "'s ioh_tls_conn \<Rightarrow> string \<Rightarrow> (unit, 's ioh_tls_conn) outcome" where
  "ioh_tls_feed_input conn data =
     (if data = [] then (Inr (), conn)
      else
        (let conn = compact_input conn
         in if length data > tc_in_cap conn - length (tc_in conn) then (Inl ENOMEM, conn)
            else (Inr (), conn\<lparr>tc_in := tc_in conn @ data\<rparr>)))"

definition ssl_errno :: "ssl_error \<Rightarrow> errno" where
  "ssl_errno err = (case err of SSL_WANT_READ \<Rightarrow> EAGAIN | SSL_WANT_WRITE \<Rightarrow> EAGAIN | SSL_FATAL \<Rightarrow> EIO)"

definition WOLFSSL_SUCCESS :: int where "WOLFSSL_SUCCESS = 1"

definition ioh_tls_handshake :: "'s wolfssl \<Rightarrow> 's ioh_tls_conn \<Rightarrow> (unit, 's ioh_tls_conn) outcome" where
  "ioh_tls_handshake wolf conn =
     (if tc_handshake_done conn then (Inr (), conn)
      else case run_ssl (wolfSSL_accept wolf (tc_ssl conn)) conn of
             ((ret, err, _), conn) \<Rightarrow>
               if ret = WOLFSSL_SUCCESS then (Inr (), conn\<lparr>tc_handshake_done := True\<rparr>)
               else (Inl (ssl_errno err), conn))"

text \<open>The plaintext of a read; its length is the value the engine returns.\<close>

definition ioh_tls_read :: "'s wolfssl \<Rightarrow> 's ioh_tls_conn \<Rightarrow> nat \<Rightarrow> (string, 's ioh_tls_conn) outcome" where
  "ioh_tls_read wolf conn len =
     (case run_ssl (wolfSSL_read wolf len (tc_ssl conn)) conn of
        ((ret, err, data), conn) \<Rightarrow>
          if ret > 0 then (Inr (take (nat ret) data), conn) else (Inl (ssl_errno err), conn))"

definition ioh_tls_write :: "'s wolfssl \<Rightarrow> 's ioh_tls_conn \<Rightarrow> string \<Rightarrow> (int, 's ioh_tls_conn) outcome" where
  "ioh_tls_write wolf conn buf =
     (case run_ssl (wolfSSL_write wolf buf (tc_ssl conn)) conn of
        ((ret, err, _), conn) \<Rightarrow> if ret > 0 then (Inr ret, conn) else (Inl (ssl_errno err), conn))"

definition ioh_tls_get_output :: "'s ioh_tls_conn \<Rightarrow> string" where
  "ioh_tls_get_output conn = tc_out conn"

definition ioh_tls_consume_output :: "'s ioh_tls_conn \<Rightarrow> nat \<Rightarrow> 's ioh_tls_conn" where
  "ioh_tls_consume_output conn len =
     (if len = 0 then conn
      else if len \<ge> length (tc_out conn) then conn\<lparr>tc_out := []\<rparr>
      else conn\<lparr>tc_out := drop len (tc_out conn)\<rparr>)"

definition ioh_tls_shutdown :: "'s wolfssl \<Rightarrow> 's ioh_tls_conn \<Rightarrow> (unit, 's ioh_tls_conn) outcome" where
  "ioh_tls_shutdown wolf conn =
     (case run_ssl (wolfSSL_shutdown wolf (tc_ssl conn)) conn of
        ((ret, err, _), conn) \<Rightarrow>
          if ret = WOLFSSL_SUCCESS then (Inr (), conn)
          else if err \<noteq> SSL_FATAL then (Inl EAGAIN, conn)
          else if ret = 0 then (Inl EAGAIN, conn)
          else (Inl EIO, conn))"

subsection \<open>Streams\<close>

text \<open>
  What passes through the buffers: the ciphertext the network side feeds and takes, and the ciphertext
  the engine's callbacks read and write.
\<close>

definition unread :: "'s ioh_tls_conn \<Rightarrow> string" where
  "unread conn = drop (tc_in_pos conn) (tc_in conn)"

definition tls_inv :: "'s ioh_tls_conn \<Rightarrow> bool" where
  "tls_inv conn \<longleftrightarrow>
     tc_in_pos conn \<le> length (tc_in conn) \<and> length (tc_in conn) \<le> tc_in_cap conn \<and> length (tc_out conn) \<le> tc_out_cap conn"

datatype tls_event =
    Feed string
  | Handshake
  | Read nat
  | Write string
  | Take nat
  | Shutdown

text \<open>The bytes the callbacks of a call read and write.\<close>

primrec ssl_reads :: "'s ssl_act \<Rightarrow> 's ioh_tls_conn \<Rightarrow> string" where
  "ssl_reads (Ssl_Return ret err data s) conn = []"
| "ssl_reads (Ssl_Recv sz k) conn =
     (case tls_ioh_recv_cb sz conn of (r, conn') \<Rightarrow> (case r of None \<Rightarrow> [] | Some d \<Rightarrow> d) @ ssl_reads (k r) conn')"
| "ssl_reads (Ssl_Send buf k) conn = (case tls_ioh_send_cb buf conn of (r, conn') \<Rightarrow> ssl_reads (k r) conn')"

primrec ssl_writes :: "'s ssl_act \<Rightarrow> 's ioh_tls_conn \<Rightarrow> string" where
  "ssl_writes (Ssl_Return ret err data s) conn = []"
| "ssl_writes (Ssl_Recv sz k) conn = (case tls_ioh_recv_cb sz conn of (r, conn') \<Rightarrow> ssl_writes (k r) conn')"
| "ssl_writes (Ssl_Send buf k) conn =
     (case tls_ioh_send_cb buf conn of
        (r, conn') \<Rightarrow> (case r of None \<Rightarrow> [] | Some n \<Rightarrow> take n buf) @ ssl_writes (k r) conn')"

record tls_trace =
  tt_fed :: string
  tt_read :: string
  tt_written :: string
  tt_taken :: string

definition empty_trace :: tls_trace where
  "empty_trace = \<lparr>tt_fed = [], tt_read = [], tt_written = [], tt_taken = []\<rparr>"

definition traced_call :: "'s ssl_act \<Rightarrow> 's ioh_tls_conn \<Rightarrow> tls_trace \<Rightarrow> tls_trace" where
  "traced_call act conn t = t\<lparr>tt_read := tt_read t @ ssl_reads act conn, tt_written := tt_written t @ ssl_writes act conn\<rparr>"

fun tls_step :: "'s wolfssl \<Rightarrow> 's ioh_tls_conn \<times> tls_trace \<Rightarrow> tls_event \<Rightarrow> 's ioh_tls_conn \<times> tls_trace" where
  "tls_step wolf (conn, t) (Feed data) =
     (case ioh_tls_feed_input conn data of
        (Inr _, conn') \<Rightarrow> (conn', t\<lparr>tt_fed := tt_fed t @ data\<rparr>)
      | (Inl _, conn') \<Rightarrow> (conn', t))"
| "tls_step wolf (conn, t) Handshake =
     (snd (ioh_tls_handshake wolf conn),
      if tc_handshake_done conn then t else traced_call (wolfSSL_accept wolf (tc_ssl conn)) conn t)"
| "tls_step wolf (conn, t) (Read len) =
     (snd (ioh_tls_read wolf conn len), traced_call (wolfSSL_read wolf len (tc_ssl conn)) conn t)"
| "tls_step wolf (conn, t) (Write buf) =
     (snd (ioh_tls_write wolf conn buf), traced_call (wolfSSL_write wolf buf (tc_ssl conn)) conn t)"
| "tls_step wolf (conn, t) (Take len) =
     (ioh_tls_consume_output conn len, t\<lparr>tt_taken := tt_taken t @ take len (ioh_tls_get_output conn)\<rparr>)"
| "tls_step wolf (conn, t) Shutdown =
     (snd (ioh_tls_shutdown wolf conn), traced_call (wolfSSL_shutdown wolf (tc_ssl conn)) conn t)"

definition tls_flow :: "'s ioh_tls_conn \<times> tls_trace \<Rightarrow> bool" where
  "tls_flow ct \<longleftrightarrow>
     (case ct of (conn, t) \<Rightarrow>
        tls_inv conn \<and> tt_fed t = tt_read t @ unread conn \<and> tt_written t = tt_taken t @ tc_out conn)"

subsection \<open>Lemmas\<close>

lemma recv_cb_flow:
  assumes "tls_inv conn" and "tls_ioh_recv_cb sz conn = (r, conn')"
  shows "tls_inv conn'" and "unread conn = (case r of None \<Rightarrow> [] | Some d \<Rightarrow> d) @ unread conn'" and "tc_out conn' = tc_out conn"
    and "tc_out_cap conn' = tc_out_cap conn"
  using assms
  by (auto simp: tls_ioh_recv_cb_def tls_inv_def unread_def Let_def min_def add.commute
      simp flip: drop_drop split: if_splits)

lemma send_cb_flow:
  assumes "tls_inv conn" and "tls_ioh_send_cb buf conn = (r, conn')"
  shows "tls_inv conn'" and "tc_out conn' = tc_out conn @ (case r of None \<Rightarrow> [] | Some n \<Rightarrow> take n buf)" and "unread conn' = unread conn"
  using assms by (auto simp: tls_ioh_send_cb_def tls_inv_def unread_def Let_def split: if_splits)

lemma run_ssl_flow:
  assumes "tls_inv conn"
  shows "tls_inv (snd (run_ssl act conn)) \<and> unread conn = ssl_reads act conn @ unread (snd (run_ssl act conn)) \<and>
    tc_out (snd (run_ssl act conn)) = tc_out conn @ ssl_writes act conn"
  using assms
proof (induction act arbitrary: conn)
  case (Ssl_Return ret err data s)
  then show ?case by (simp add: tls_inv_def unread_def)
next
  case (Ssl_Recv sz k)
  obtain r c' where r: "tls_ioh_recv_cb sz conn = (r, c')" by (rule prod.exhaust)
  note flow = recv_cb_flow [OF Ssl_Recv.prems r]
  from Ssl_Recv.IH [OF rangeI, of c' r] flow show ?case by (simp add: r)
next
  case (Ssl_Send buf k)
  obtain r c' where r: "tls_ioh_send_cb buf conn = (r, c')" by (rule prod.exhaust)
  note flow = send_cb_flow [OF Ssl_Send.prems r]
  from Ssl_Send.IH [OF rangeI, of c' r] flow show ?case by (simp add: r)
qed

lemma traced_call_flow:
  assumes "tls_flow (conn, t)"
  shows "tls_flow (snd (run_ssl act conn), traced_call act conn t)"
  using assms run_ssl_flow [of conn act] by (auto simp: tls_flow_def traced_call_def)

lemma tls_flow_done: "tls_flow (conn\<lparr>tc_handshake_done := b\<rparr>, t) = tls_flow (conn, t)"
  by (simp add: tls_flow_def tls_inv_def unread_def)

lemma compact_input_flow:
  "tls_inv conn \<Longrightarrow> tls_inv (compact_input conn) \<and> unread (compact_input conn) = unread conn \<and> tc_in_pos (compact_input conn) = 0 \<and>
     tc_out (compact_input conn) = tc_out conn"
  by (auto simp: compact_input_def tls_inv_def unread_def)

lemma feed_input_flow:
  assumes "tls_inv conn"
  shows "case ioh_tls_feed_input conn data of
      (Inr _, conn') \<Rightarrow> tls_inv conn' \<and> unread conn' = unread conn @ data \<and> tc_out conn' = tc_out conn
    | (Inl _, conn') \<Rightarrow> tls_inv conn' \<and> unread conn' = unread conn \<and> tc_out conn' = tc_out conn"
proof (cases "data = []")
  case False
  define c where "c = compact_input conn"
  have c: "tls_inv c" "unread c = unread conn" "tc_in_pos c = 0" "tc_out c = tc_out conn"
    using compact_input_flow [OF assms] by (simp_all add: c_def)
  show ?thesis unfolding ioh_tls_feed_input_def c_def [symmetric] Let_def
    using c False by (auto simp: tls_inv_def unread_def)
qed (use assms in \<open>simp add: ioh_tls_feed_input_def\<close>)

lemma consume_output_eq: "ioh_tls_consume_output conn len = conn\<lparr>tc_out := drop len (tc_out conn)\<rparr>"
  by (simp add: ioh_tls_consume_output_def)

lemma snd_run_ssl_case: "snd (case x of ((ret, err, d), conn) \<Rightarrow> if P ret then (a ret d, conn) else (b ret err, conn)) = snd x"
  by (cases x) (auto split: if_splits)

lemma tls_step_flow:
  assumes "tls_flow (conn, t)"
  shows "tls_flow (tls_step wolf (conn, t) ev)"
proof (cases ev)
  case (Feed data)
  then show ?thesis using assms feed_input_flow [of conn data]
    by (auto simp: tls_flow_def split: prod.splits sum.splits)
next
  case Handshake
  obtain ret err d conn' where r: "run_ssl (wolfSSL_accept wolf (tc_ssl conn)) conn = ((ret, err, d), conn')"
    by (metis surj_pair)
  show ?thesis using assms traced_call_flow [OF assms, of "wolfSSL_accept wolf (tc_ssl conn)"]
    by (auto simp: Handshake ioh_tls_handshake_def r tls_flow_done)
next
  case (Read len)
  then show ?thesis using traced_call_flow [OF assms, of "wolfSSL_read wolf len (tc_ssl conn)"]
    by (simp add: ioh_tls_read_def snd_run_ssl_case)
next
  case (Write buf)
  then show ?thesis using traced_call_flow [OF assms, of "wolfSSL_write wolf buf (tc_ssl conn)"]
    by (simp add: ioh_tls_write_def snd_run_ssl_case)
next
  case (Take len)
  have "tc_out conn = take len (tc_out conn) @ drop len (tc_out conn)" by simp
  then show ?thesis using assms
    by (auto simp: Take tls_flow_def consume_output_eq ioh_tls_get_output_def tls_inv_def unread_def)
next
  case Shutdown
  have "snd (ioh_tls_shutdown wolf conn) = snd (run_ssl (wolfSSL_shutdown wolf (tc_ssl conn)) conn)"
    by (auto simp: ioh_tls_shutdown_def split: prod.splits)
  then show ?thesis using traced_call_flow [OF assms, of "wolfSSL_shutdown wolf (tc_ssl conn)"] by (simp add: Shutdown)
qed

lemma tls_steps_flow: "tls_flow ct \<Longrightarrow> tls_flow (foldl (tls_step wolf) ct evs)"
proof (induction evs arbitrary: ct)
  case (Cons ev evs)
  then show ?case by (cases ct) (simp add: tls_step_flow)
qed simp

lemma create_flow:
  assumes "ioh_tls_conn_create ok wolf ctx = Some conn"
  shows "tls_flow (conn, empty_trace)" and "tc_in_cap conn = IOH_TLS_CIPHER_BUF_SIZE" and "tc_out_cap conn = IOH_TLS_CIPHER_BUF_SIZE"
  using assms by (auto simp: ioh_tls_conn_create_def tls_flow_def empty_trace_def tls_inv_def unread_def split: if_splits option.splits)

text \<open>A context is only made with TLS 1.2 as the least version, and a required client certificate is required of the engine.\<close>

lemma tls_ctx_create_calls:
  assumes "ioh_tls_ctx_create ok cfg = Some ctx"
  shows "CTX_SetMinVersion_TLSV1_2 \<in> set (tx_calls ctx) \<and> ok CTX_SetMinVersion_TLSV1_2 \<and>
    (tg_require_client_cert cfg \<longleftrightarrow> CTX_set_verify_peer \<in> set (tx_calls ctx)) \<and>
    (\<forall>ca. tg_ca_file cfg = Some ca \<longrightarrow> CTX_load_verify_locations ca \<in> set (tx_calls ctx) \<and> ok (CTX_load_verify_locations ca))"
  using assms by (auto simp: ioh_tls_ctx_create_def Let_def split: option.splits if_splits)

subsection \<open>Properties\<close>

text \<open>C23: The memory buffers between the network and the TLS engine are exact streams: for every engine and every
  sequence of feeds, handshake steps, reads, writes, takes and shutdowns, what the engine's callbacks have read is exactly
  the ciphertext successfully fed, in order, except for what is still unread, and what the network side has
  taken is exactly what the callbacks have accepted from the engine, except for what is still buffered.
\<close>

theorem tls_buffers_are_streams:
  assumes "ioh_tls_conn_create ok wolf ctx = Some conn"
    and "foldl (tls_step wolf) (conn, empty_trace) evs = (conn', t)"
  shows "tt_fed t = tt_read t @ unread conn' \<and> tt_written t = tt_taken t @ tc_out conn' \<and> tls_inv conn'"
  using tls_steps_flow [OF create_flow(1) [OF assms(1)], of wolf evs] assms(2) by (simp add: tls_flow_def)

text \<open>An engine that reads two bytes and answers the first of them.\<close>

definition example_engine :: "nat wolfssl" where
  "example_engine =
     \<lparr>wolfSSL_new = Some 0, wolfSSL_UseALPN = (\<lambda>alpn s. Some s),
      wolfSSL_accept = (\<lambda>s. Ssl_Recv 2 (\<lambda>r. case r of
         None \<Rightarrow> Ssl_Return (-1) SSL_WANT_READ [] s
       | Some d \<Rightarrow> Ssl_Send (take 1 d) (\<lambda>_. Ssl_Return 1 SSL_FATAL [] (s + 1)))),
      wolfSSL_read = (\<lambda>len s. Ssl_Return (-1) SSL_WANT_READ [] s), wolfSSL_write = (\<lambda>buf s. Ssl_Return (-1) SSL_WANT_WRITE [] s),
      wolfSSL_shutdown = (\<lambda>s. Ssl_Return 0 SSL_FATAL [] s)\<rparr>"

definition example_tls_ctx :: ioh_tls_ctx where
  "example_tls_ctx = \<lparr>tx_calls = [], tx_config = ioh_tls_config_init, tx_alpn_copy = None\<rparr>"

theorem tls_buffers_are_streams_witness:
  "\<exists>conn conn' t. ioh_tls_conn_create True example_engine example_tls_ctx = Some conn \<and>
     foldl (tls_step example_engine) (conn, empty_trace) [Handshake, Feed ''abc'', Handshake, Take 1] = (conn', t) \<and>
     tt_fed t = ''ab'' @ unread conn' \<and> tt_taken t = ''a''"
proof -
  obtain conn where c: "ioh_tls_conn_create True example_engine example_tls_ctx = Some conn"
    by (simp add: ioh_tls_conn_create_def example_engine_def example_tls_ctx_def)
  obtain conn' t where r:
    "foldl (tls_step example_engine) (conn, empty_trace) [Handshake, Feed ''abc'', Handshake, Take 1] = (conn', t)"
    by (rule prod.exhaust)
  have "tt_read t = ''ab''" "tt_taken t = ''a''"
    using r c by (auto simp: ioh_tls_conn_create_def example_engine_def example_tls_ctx_def ioh_tls_handshake_def
        tls_ioh_recv_cb_def tls_ioh_send_cb_def ioh_tls_feed_input_def compact_input_def traced_call_def empty_trace_def
        IOH_TLS_CIPHER_BUF_SIZE_def ioh_tls_get_output_def WOLFSSL_SUCCESS_def ssl_errno_def)
  with tls_buffers_are_streams [OF c r] c r show ?thesis by auto
qed

end
