(* ===== verification/Server.thy ===== *)
theory Server
  imports Middleware Ring_Loop Conn Http1 Proxy_Proto Tls
begin

unbundle bit_operations_syntax

text \<open>
  The server of \<^verbatim>\<open>src/core/ioh_server.c\<close>: configuration, the handlers of the completions (accept, receive, send, close,
  timeout, signal), request dispatch, a round of the loop and shutdown.

  What is not the repository's code is gathered in a record of parameters, the \<open>world\<close>: whether a submission
  entry is available, the results of submitting and waiting with the completions that arrive, allocation,
  random numbers, the TLS engine, address conversion and the application's handlers and middlewares, which act on the
  context of the request.  They act on an opaque state \<open>'e\<close> of the environment that is part of the server's state.

  A pointer to a connection is its slot.  The entries the code submits are collected in \<open>sv_sq\<close>, the descriptors
  passed to \<^verbatim>\<open>close\<close> in \<open>sv_closed\<close>.  A receive completion carries the bytes the kernel wrote behind those already
  received (as many as its result says) and the memory that follows them.  The completion queue keeps every completion;
  \<open>sv_cq_head\<close> is the consumer's position.  \<open>sv_fault\<close> records that the code would have accessed memory out
  of bounds, or read bytes nobody wrote.  Logging has no effect on the state and is left out.
\<close>

subsection \<open>Configuration and state\<close>

record ioh_server_config =
  sg_listen_addr :: "string option"
  sg_listen_port :: u16
  sg_max_connections :: u32
  sg_queue_depth :: u32
  sg_keepalive_timeout_ms :: u32
  sg_header_timeout_ms :: u32
  sg_body_timeout_ms :: u32
  sg_max_header_size :: u32
  sg_max_body_size :: u32
  sg_proxy_protocol :: bool

datatype ioh_shutdown_mode = IOH_SHUTDOWN_IMMEDIATE | IOH_SHUTDOWN_DRAIN

datatype srv_sqe =
    Sqe_Accept int
  | Sqe_Recv int nat nat
  | Sqe_Link_Timeout nat nat
  | Sqe_Send int string
  | Sqe_Close int
  | Sqe_Cancel_Accept u64
  | Sqe_Read_Signal int

record srv_cqe =
  ce_ud :: u64
  ce_res :: int
  ce_more :: bool
  ce_data :: string
  ce_after :: string
  ce_signo :: nat

type_synonym srv_ctx = "(string, unit) ioh_ctx"

record ('e, 's, 'h) world =
  w_get_sqe :: "'e \<Rightarrow> bool \<times> 'e"
  w_submit :: "'e \<Rightarrow> int \<times> srv_cqe list \<times> 'e"
  w_wait :: "u32 \<Rightarrow> 'e \<Rightarrow> int \<times> srv_cqe list \<times> 'e"
  w_malloc :: "'e \<Rightarrow> u64 option \<times> 'e"
  w_random :: "'e \<Rightarrow> u32 \<times> 'e"
  w_wolf :: "'s wolfssl"
  w_pton :: inet_pton
  w_sse :: bool
  w_middleware :: "'h \<Rightarrow> srv_ctx middleware"
  w_handler :: "'h \<Rightarrow> srv_ctx handler"

type_synonym 's srv_conn = "'s ioh_tls_conn ioh_conn"

record ('e, 's, 'h, 'm) ioh_server =
  sv_config :: ioh_server_config
  sv_loop_stopped :: bool
  sv_pool :: "'s ioh_tls_conn ioh_conn_pool"
  sv_router :: "('h, 'm, 'h, 'h) ioh_router option"
  sv_tls_ctx :: "ioh_tls_ctx option"
  sv_on_request :: "'h option"
  sv_listen_fd :: int
  sv_signal_fd :: int
  sv_signo :: nat
  sv_listening :: bool
  sv_accepting :: bool
  sv_stopped :: bool
  sv_sq :: "(srv_sqe \<times> u64) list"
  sv_cq :: "srv_cqe list"
  sv_cq_head :: nat
  sv_cq_seen :: nat
  sv_closed :: "int list"
  sv_fault :: bool
  sv_env :: 'e

definition ioh_server_is_draining :: "('e, 's, 'h, 'm) ioh_server \<Rightarrow> bool" where
  "ioh_server_is_draining srv = sv_stopped srv"

definition ioh_server_config_init :: ioh_server_config where
  "ioh_server_config_init =
     \<lparr>sg_listen_addr = Some ''0.0.0.0'', sg_listen_port = 0, sg_max_connections = 1024, sg_queue_depth = 256,
      sg_keepalive_timeout_ms = 65000, sg_header_timeout_ms = 30000, sg_body_timeout_ms = 60000,
      sg_max_header_size = 8192, sg_max_body_size = 1048576, sg_proxy_protocol = False\<rparr>"

definition ioh_server_config_validate :: "ioh_server_config \<Rightarrow> errno + unit" where
  "ioh_server_config_validate cfg =
     (if sg_listen_port cfg = 0 then Inl EINVAL
      else if sg_max_connections cfg = 0 then Inl EINVAL
      else Inr ())"

text \<open>The integer is the result of creating the ring.\<close>

definition ioh_server_create :: "int \<Rightarrow> 'e \<Rightarrow> ioh_server_config \<Rightarrow> ('e, 's, 'h, 'm) ioh_server option" where
  "ioh_server_create ring_ret env cfg =
     (case ioh_server_config_validate cfg of
        Inl _ \<Rightarrow> None
      | Inr _ \<Rightarrow>
          (case (ioh_loop_create ring_ret (ioh_loop_config_init\<lparr>lc_queue_depth := sg_queue_depth cfg\<rparr>)
                   :: (unit, unit) ioh_loop option) of
             None \<Rightarrow> None
           | Some loop \<Rightarrow>
               (case ioh_conn_pool_create (sg_max_connections cfg) of
                  None \<Rightarrow> None
                | Some pool \<Rightarrow>
                    Some \<lparr>sv_config = cfg, sv_loop_stopped = lp_stopped loop, sv_pool = pool, sv_router = None,
                          sv_tls_ctx = None, sv_on_request = None, sv_listen_fd = -1, sv_signal_fd = -1, sv_signo = 0,
                          sv_listening = False, sv_accepting = False, sv_stopped = False, sv_sq = [], sv_cq = [],
                          sv_cq_head = 0, sv_cq_seen = 0, sv_closed = [], sv_fault = False, sv_env = env\<rparr>)))"

definition ioh_server_set_router where "ioh_server_set_router srv router = srv\<lparr>sv_router := router\<rparr>"
definition ioh_server_set_on_request where "ioh_server_set_on_request srv fn = srv\<lparr>sv_on_request := fn\<rparr>"
definition ioh_server_set_tls where "ioh_server_set_tls srv tls = srv\<lparr>sv_tls_ctx := tls\<rparr>"

subsection \<open>Helpers\<close>

definition get_sqe :: "('e, 's, 'h) world \<Rightarrow> ('e, 's, 'h, 'm) ioh_server \<Rightarrow> bool \<times> ('e, 's, 'h, 'm) ioh_server" where
  "get_sqe w srv = (case w_get_sqe w (sv_env srv) of (ok, e) \<Rightarrow> (ok, srv\<lparr>sv_env := e\<rparr>))"

definition get_mem :: "('e, 's, 'h) world \<Rightarrow> ('e, 's, 'h, 'm) ioh_server \<Rightarrow> u64 option \<times> ('e, 's, 'h, 'm) ioh_server" where
  "get_mem w srv = (case w_malloc w (sv_env srv) of (p, e) \<Rightarrow> (p, srv\<lparr>sv_env := e\<rparr>))"

definition push_sqe :: "('e, 's, 'h, 'm) ioh_server \<Rightarrow> srv_sqe \<Rightarrow> u64 \<Rightarrow> ('e, 's, 'h, 'm) ioh_server" where
  "push_sqe srv sqe ud = srv\<lparr>sv_sq := sv_sq srv @ [(sqe, ud)]\<rparr>"

definition close_fd :: "('e, 's, 'h, 'm) ioh_server \<Rightarrow> int \<Rightarrow> ('e, 's, 'h, 'm) ioh_server" where
  "close_fd srv fd = srv\<lparr>sv_closed := sv_closed srv @ [fd]\<rparr>"

abbreviation conn_at :: "('e, 's, 'h, 'm) ioh_server \<Rightarrow> nat \<Rightarrow> 's srv_conn" where
  "conn_at srv i \<equiv> cp_conns (sv_pool srv) ! i"

definition upd_conn :: "('e, 's, 'h, 'm) ioh_server \<Rightarrow> nat \<Rightarrow> ('s srv_conn \<Rightarrow> 's srv_conn) \<Rightarrow> ('e, 's, 'h, 'm) ioh_server" where
  "upd_conn srv i f = srv\<lparr>sv_pool := put_conn (sv_pool srv) i (f (conn_at srv i))\<rparr>"

definition free_slot :: "('e, 's, 'h, 'm) ioh_server \<Rightarrow> nat \<Rightarrow> ('e, 's, 'h, 'm) ioh_server" where
  "free_slot srv i = srv\<lparr>sv_pool := ioh_conn_free (sv_pool srv) i\<rparr>"

definition conn_tag :: "'s srv_conn \<Rightarrow> ioh_op_type \<Rightarrow> u64" where
  "conn_tag c op = IOH_ENCODE_USERDATA (ucast (c_id c)) op"

definition transition :: "ioh_conn_state \<Rightarrow> 's srv_conn \<Rightarrow> 's srv_conn" where
  "transition s c = snd (ioh_conn_transition c s)"

definition arm_multishot_accept ::
  "('e, 's, 'h) world \<Rightarrow> ('e, 's, 'h, 'm) ioh_server \<Rightarrow> (unit, ('e, 's, 'h, 'm) ioh_server) outcome" where
  "arm_multishot_accept w srv =
     (case get_sqe w srv of
        (False, srv) \<Rightarrow> (Inl ENOSPC, srv)
      | (True, srv) \<Rightarrow>
          (Inr (), (push_sqe srv (Sqe_Accept (sv_listen_fd srv)) (IOH_ENCODE_USERDATA 0 IOH_OP_ACCEPT))\<lparr>sv_accepting := True\<rparr>))"

definition timeout_ms_for_phase :: "ioh_server_config \<Rightarrow> 's srv_conn \<Rightarrow> ioh_timeout_phase \<Rightarrow> u32" where
  "timeout_ms_for_phase cfg c phase =
     (case phase of
        IOH_TIMEOUT_HEADER \<Rightarrow> sg_header_timeout_ms cfg
      | IOH_TIMEOUT_BODY \<Rightarrow> if c_route_body_timeout_ms c > 0 then c_route_body_timeout_ms c else sg_body_timeout_ms cfg
      | IOH_TIMEOUT_KEEPALIVE \<Rightarrow>
          if c_route_keepalive_timeout_ms c > 0 then c_route_keepalive_timeout_ms c else sg_keepalive_timeout_ms cfg
      | IOH_TIMEOUT_NONE \<Rightarrow> 0)"

definition arm_recv ::
  "('e, 's, 'h) world \<Rightarrow> ('e, 's, 'h, 'm) ioh_server \<Rightarrow> nat \<Rightarrow> (unit, ('e, 's, 'h, 'm) ioh_server) outcome" where
  "arm_recv w srv i =
     (case get_sqe w srv of
        (False, srv) \<Rightarrow> (Inl ENOSPC, srv)
      | (True, srv) \<Rightarrow>
          (let c = conn_at srv i;
               srv = push_sqe srv (Sqe_Recv (c_fd c) (length (c_recv c)) (c_recv_buf_size c - length (c_recv c)))
                       (conn_tag c IOH_OP_RECV);
               tmo_ms = timeout_ms_for_phase (sv_config srv) c (c_timeout_phase c)
           in if tmo_ms > 0 then
                (case get_sqe w srv of
                   (False, srv) \<Rightarrow> (Inr (), srv)
                 | (True, srv) \<Rightarrow>
                     (Inr (), push_sqe srv (Sqe_Link_Timeout (ms_sec tmo_ms) (ms_nsec tmo_ms)) (conn_tag c IOH_OP_TIMEOUT)))
              else (Inr (), srv)))"

definition find_conn_by_id :: "('e, 's, 'h, 'm) ioh_server \<Rightarrow> u32 \<Rightarrow> nat option" where
  "find_conn_by_id srv cid = find_index (\<lambda>c. c_state c \<noteq> IOH_CONN_FREE \<and> c_id c = cid) (cp_conns (sv_pool srv))"

text \<open>The part of \<^verbatim>\<open>arm_send\<close> after the encryption: the buffer is replaced and a send entry filled in.\<close>

definition queue_send ::
  "('e, 's, 'h) world \<Rightarrow> ('e, 's, 'h, 'm) ioh_server \<Rightarrow> nat \<Rightarrow> string \<Rightarrow> (unit, ('e, 's, 'h, 'm) ioh_server) outcome" where
  "queue_send w srv i data =
     (let srv = upd_conn srv i (\<lambda>c. c\<lparr>c_send_buf := Some data, c_send_len := length data, c_send_offset := 0, c_send_active := True\<rparr>)
      in case get_sqe w srv of
           (False, srv) \<Rightarrow> (Inl ENOSPC, upd_conn srv i (\<lambda>c. c\<lparr>c_send_active := False\<rparr>))
         | (True, srv) \<Rightarrow> (Inr (), push_sqe srv (Sqe_Send (c_fd (conn_at srv i)) data) (conn_tag (conn_at srv i) IOH_OP_SEND)))"

definition arm_send ::
  "('e, 's, 'h) world \<Rightarrow> ('e, 's, 'h, 'm) ioh_server \<Rightarrow> nat \<Rightarrow> string \<Rightarrow> (unit, ('e, 's, 'h, 'm) ioh_server) outcome" where
  "arm_send w srv i data =
     (let c = conn_at srv i;
          plain = (\<lambda>srv. case get_mem w srv of
                     (None, srv) \<Rightarrow> (Inl ENOMEM, upd_conn srv i (\<lambda>c. c\<lparr>c_send_buf := None\<rparr>))
                   | (Some _, srv) \<Rightarrow> queue_send w srv i data)
      in if c_send_active c then (Inl EBUSY, srv)
         else
           (case (if c_tls_done c then c_tls_ctx c else None) of
              None \<Rightarrow> plain srv
            | Some tls \<Rightarrow>
                (case ioh_tls_write (w_wolf w) tls data of
                   (Inl e, tls) \<Rightarrow> (Inl e, upd_conn srv i (\<lambda>c. c\<lparr>c_tls_ctx := Some tls\<rparr>))
                 | (Inr _, tls) \<Rightarrow>
                     (let srv = upd_conn srv i (\<lambda>c. c\<lparr>c_tls_ctx := Some tls\<rparr>);
                          out = ioh_tls_get_output tls
                      in if out = [] then plain srv
                         else
                           (case get_mem w srv of
                              (None, srv) \<Rightarrow> (Inl ENOMEM, srv)
                            | (Some _, srv) \<Rightarrow>
                                queue_send w
                                  (upd_conn srv i (\<lambda>c. c\<lparr>c_tls_ctx := Some (ioh_tls_consume_output tls (length out))\<rparr>)) i out)))))"

definition send_error_response ::
  "('e, 's, 'h) world \<Rightarrow> ('e, 's, 'h, 'm) ioh_server \<Rightarrow> nat \<Rightarrow> u16 \<Rightarrow> string \<Rightarrow> ('e, 's, 'h, 'm) ioh_server" where
  "send_error_response w srv i status msg =
     (let resp = snd (ioh_response_set_body (ioh_response_init\<lparr>rs_status := status\<rparr>) (Some msg) (length msg));
          srv = (case ioh_http1_serialize_response resp 512 of
                   Inl _ \<Rightarrow> srv
                 | Inr out \<Rightarrow> if out = [] then srv else snd (arm_send w srv i out))
      in upd_conn srv i (\<lambda>c. c\<lparr>c_keep_alive := False\<rparr>))"

definition arm_close :: "('e, 's, 'h) world \<Rightarrow> ('e, 's, 'h, 'm) ioh_server \<Rightarrow> nat \<Rightarrow> ('e, 's, 'h, 'm) ioh_server" where
  "arm_close w srv i =
     (let srv = upd_conn srv i (\<lambda>c. c\<lparr>c_tls_ctx := None\<rparr>)
      in case get_sqe w srv of
           (False, srv) \<Rightarrow> free_slot (close_fd srv (c_fd (conn_at srv i))) i
         | (True, srv) \<Rightarrow>
             upd_conn (push_sqe srv (Sqe_Close (c_fd (conn_at srv i))) (conn_tag (conn_at srv i) IOH_OP_CLOSE)) i
               (transition IOH_CONN_CLOSING))"


subsection \<open>Requests\<close>

text \<open>The eight hexadecimal digits of \<^verbatim>\<open>%08x\<close>.\<close>

definition hex8 :: "u32 \<Rightarrow> string" where
  "hex8 r = map (\<lambda>k. ''0123456789abcdef'' ! unat (drop_bit (4 * k) r AND 15)) [7, 6, 5, 4, 3, 2, 1, 0]"

definition draw :: "('e, 's, 'h) world \<Rightarrow> ('e, 's, 'h, 'm) ioh_server \<Rightarrow> u32 \<times> ('e, 's, 'h, 'm) ioh_server" where
  "draw w srv = (case w_random w (sv_env srv) of (r, e) \<Rightarrow> (r, srv\<lparr>sv_env := e\<rparr>))"

text \<open>The first block of \<^verbatim>\<open>dispatch_request\<close>.  The arena is empty, so that the formatted identifier fits it.\<close>

definition request_id ::
  "('e, 's, 'h) world \<Rightarrow> ('e, 's, 'h, 'm) ioh_server \<Rightarrow> srv_ctx \<Rightarrow> srv_ctx \<times> ('e, 's, 'h, 'm) ioh_server" where
  "request_id w srv ctx =
     (let tag = (\<lambda>ctx rid. snd (ioh_ctx_set_header (snd (ioh_ctx_set ctx ''request_id'' (Some rid))) ''X-Request-Id'' rid))
      in case ioh_request_header (cx_req ctx) ''X-Request-Id'' of
           Some incoming_id \<Rightarrow> (tag ctx incoming_id, srv)
         | None \<Rightarrow>
             (let (r1, srv) = draw w srv; (r2, srv) = draw w srv; (r3, srv) = draw w srv; (r4, srv) = draw w srv;
                  rid = hex8 r1 @ hex8 r2 @ hex8 r3 @ hex8 r4
              in case ioh_ctx_sprintf (\<lambda>_. None) (cx_arena ctx) rid of
                   Some (Some _, arena) \<Rightarrow> (tag (ctx\<lparr>cx_arena := arena\<rparr>) rid, srv)
                 | _ \<Rightarrow> (ctx, srv)))"

text \<open>The middle part: routing and running the handler.  The timeouts of the route are stored in the connection.\<close>

definition route_timeouts :: "('h, 'm) ioh_route_match \<Rightarrow> 's srv_conn \<Rightarrow> 's srv_conn" where
  "route_timeouts m c =
     (case m_opts m of
        Some opts \<Rightarrow>
          if m_status m = IOH_MATCH_FOUND
          then c\<lparr>c_route_body_timeout_ms := ro_body_timeout_ms opts, c_route_keepalive_timeout_ms := ro_keepalive_timeout_ms opts\<rparr>
          else c
      | None \<Rightarrow> c)"

definition error_status :: "srv_ctx \<Rightarrow> u16 \<Rightarrow> string \<Rightarrow> (errno + int) \<times> srv_ctx" where
  "error_status ctx status msg = (case ioh_ctx_error ctx status msg of (r, ctx) \<Rightarrow> (map_sum id (\<lambda>_. 0) r, ctx))"

definition run_handler :: "('e, 's, 'h) world \<Rightarrow> 'h \<Rightarrow> srv_ctx \<Rightarrow> (errno + int) \<times> srv_ctx" where
  "run_handler w h ctx = (case w_handler w h ctx of (rc, ctx) \<Rightarrow> (Inr rc, ctx))"

definition route_request ::
  "('e, 's, 'h) world \<Rightarrow> ('h, 'm, 'h, 'h) ioh_router \<Rightarrow> ('h, 'm) ioh_route_match \<Rightarrow> srv_ctx \<Rightarrow> (errno + int) \<times> srv_ctx" where
  "route_request w router m ctx =
     (case (if m_status m = IOH_MATCH_FOUND then m_handler m else None) of
        Some h \<Rightarrow>
          ioh_chain_execute (ctx\<lparr>cx_req := (cx_req ctx)\<lparr>req_params := m_params m\<rparr>\<rparr>)
            (map (w_middleware w) (rt_global_mw router)) [] (Some (w_handler w h))
      | None \<Rightarrow>
          if m_status m = IOH_MATCH_METHOD_NOT_ALLOWED then
            (case rt_method_not_allowed_handler router of
               Some h405 \<Rightarrow> run_handler w h405 ctx
             | None \<Rightarrow> error_status ctx 405 ''Method Not Allowed'')
          else
            (case rt_not_found_handler router of
               Some h404 \<Rightarrow> run_handler w h404 ctx
             | None \<Rightarrow> error_status ctx 404 ''Not Found''))"

definition serve_request ::
  "('e, 's, 'h) world \<Rightarrow> ('e, 's, 'h, 'm) ioh_server \<Rightarrow> nat \<Rightarrow> srv_ctx \<Rightarrow>
   ((errno + int) \<times> srv_ctx) \<times> ('e, 's, 'h, 'm) ioh_server" where
  "serve_request w srv i ctx =
     (case sv_router srv of
        Some router \<Rightarrow>
          (let m = ioh_router_dispatch router (req_method (cx_req ctx)) (req_path (cx_req ctx))
           in (route_request w router m ctx, upd_conn srv i (route_timeouts m)))
      | None \<Rightarrow>
          (case sv_on_request srv of
             Some h \<Rightarrow> (run_handler w h ctx, srv)
           | None \<Rightarrow> (error_status ctx 503 ''No handler configured'', srv)))"

text \<open>The last part: the response is serialized into 8192 bytes and sent.\<close>

definition send_response ::
  "('e, 's, 'h) world \<Rightarrow> ('e, 's, 'h, 'm) ioh_server \<Rightarrow> nat \<Rightarrow> ioh_request \<Rightarrow> ioh_response \<Rightarrow>
   (unit, ('e, 's, 'h, 'm) ioh_server) outcome" where
  "send_response w srv i req resp =
     (case (case ioh_http1_serialize_response resp 8192 of
              Inl _ \<Rightarrow> (Inr (), srv)
            | Inr out \<Rightarrow> if out = [] then (Inr (), srv) else arm_send w srv i out) of
        (Inl _, srv) \<Rightarrow> (Inl EIO, arm_close w srv i)
      | (Inr _, srv) \<Rightarrow> (Inr (), upd_conn srv i (\<lambda>c. c\<lparr>c_keep_alive := req_keep_alive req \<and> rs_status resp < 400\<rparr>)))"

definition dispatch_request ::
  "('e, 's, 'h) world \<Rightarrow> ('e, 's, 'h, 'm) ioh_server \<Rightarrow> nat \<Rightarrow> ioh_request \<Rightarrow> (int, ('e, 's, 'h, 'm) ioh_server) outcome" where
  "dispatch_request w srv i req =
     (case get_mem w srv of
        (mem, srv) \<Rightarrow>
          (case ioh_ctx_init mem req ioh_response_init of
             Inl e \<Rightarrow> (Inl e, srv)
           | Inr ctx \<Rightarrow>
               (case request_id w srv ctx of
                  (ctx, srv) \<Rightarrow>
                    (case serve_request w srv i ctx of
                       ((rc, ctx), srv) \<Rightarrow>
                         (case send_response w srv i (cx_req ctx) (cx_resp ctx) of
                            (Inl e, srv) \<Rightarrow> (Inl e, srv)
                          | (Inr _, srv) \<Rightarrow> (rc, srv))))))"

subsection \<open>Completions\<close>

definition enter_protocol ::
  "('e, 's, 'h) world \<Rightarrow> ('e, 's, 'h, 'm) ioh_server \<Rightarrow> nat \<Rightarrow> ('e, 's, 'h, 'm) ioh_server" where
  "enter_protocol w srv i =
     (case sv_tls_ctx srv of
        Some ctx \<Rightarrow>
          (case get_mem w srv of
             (mem, srv) \<Rightarrow>
               upd_conn srv i (\<lambda>c. transition IOH_CONN_TLS_HANDSHAKE
                 (c\<lparr>c_tls_ctx := ioh_tls_conn_create (mem \<noteq> None) (w_wolf w) ctx, c_tls_done := False\<rparr>)))
      | None \<Rightarrow> upd_conn srv i (transition IOH_CONN_HTTP_ACTIVE))"

definition accept_conn ::
  "('e, 's, 'h) world \<Rightarrow> ('e, 's, 'h, 'm) ioh_server \<Rightarrow> int \<Rightarrow> ('e, 's, 'h, 'm) ioh_server" where
  "accept_conn w srv client_fd =
     (case get_mem w srv of
        (mem, srv) \<Rightarrow>
          (case ioh_conn_alloc (mem \<noteq> None) (sv_pool srv) of
             (None, pool) \<Rightarrow> close_fd (srv\<lparr>sv_pool := pool\<rparr>) client_fd
           | (Some i, pool) \<Rightarrow>
               (let srv = upd_conn (srv\<lparr>sv_pool := pool\<rparr>) i (\<lambda>c. c\<lparr>c_fd := client_fd, c_timeout_phase := IOH_TIMEOUT_HEADER\<rparr>);
                    srv = (if sg_proxy_protocol (sv_config srv) then upd_conn srv i (transition IOH_CONN_PROXY_HEADER)
                           else enter_protocol w srv i)
                in case arm_recv w srv i of
                     (Inl _, srv) \<Rightarrow> free_slot (close_fd srv (c_fd (conn_at srv i))) i
                   | (Inr _, srv) \<Rightarrow> srv)))"

definition handle_accept ::
  "('e, 's, 'h) world \<Rightarrow> ('e, 's, 'h, 'm) ioh_server \<Rightarrow> srv_cqe \<Rightarrow> ('e, 's, 'h, 'm) ioh_server" where
  "handle_accept w srv cqe =
     (let srv = (if ce_res cqe \<ge> 0 then accept_conn w srv (ce_res cqe) else srv)
      in if ce_more cqe then srv
         else
           (let srv = srv\<lparr>sv_accepting := False\<rparr>
            in if sv_listening srv \<and> \<not> sv_stopped srv then snd (arm_multishot_accept w srv) else srv))"

text \<open>
  The stages of a receive: each either finishes the completion (\<open>Inl\<close>) or hands on the server and the memory
  behind the buffered bytes.
\<close>

definition recv_proxy ::
  "('e, 's, 'h) world \<Rightarrow> ('e, 's, 'h, 'm) ioh_server \<Rightarrow> nat \<Rightarrow> string \<Rightarrow>
   ('e, 's, 'h, 'm) ioh_server + (('e, 's, 'h, 'm) ioh_server \<times> string)" where
  "recv_proxy w srv i beyond =
     (let c = conn_at srv i; buf = c_recv c
      in if c_state c \<noteq> IOH_CONN_PROXY_HEADER then Inr (srv, beyond)
         else
           (case ioh_proxy_decode (w_pton w) buf of
              Inr (consumed, result) \<Rightarrow>
                (let remaining = drop consumed buf;
                     srv = upd_conn srv i (\<lambda>c. c\<lparr>c_proxy_addr := px_src result, c_proxy_used := True, c_recv := remaining\<rparr>);
                     srv = enter_protocol w srv i
                 in if remaining = [] then Inl (snd (arm_recv w srv i))
                    else Inr (srv, drop (length remaining) buf @ beyond))
            | Inl e \<Rightarrow> if e = EAGAIN then Inl (snd (arm_recv w srv i)) else Inl (arm_close w srv i)))"

definition tls_handshake_step ::
  "('e, 's, 'h) world \<Rightarrow> ('e, 's, 'h, 'm) ioh_server \<Rightarrow> nat \<Rightarrow> 's ioh_tls_conn \<Rightarrow> ('e, 's, 'h, 'm) ioh_server" where
  "tls_handshake_step w srv i tls =
     (case ioh_tls_handshake (w_wolf w) tls of
        (hs, tls) \<Rightarrow>
          (let out = ioh_tls_get_output tls;
               srv = upd_conn srv i (\<lambda>c. c\<lparr>c_tls_ctx := Some tls\<rparr>);
               srv = (if out = [] then srv
                      else upd_conn (snd (arm_send w srv i out)) i
                             (\<lambda>c. c\<lparr>c_tls_ctx := Some (ioh_tls_consume_output tls (length out))\<rparr>));
               rearm = (\<lambda>srv. if c_send_active (conn_at srv i) then srv else snd (arm_recv w srv i))
           in case hs of
                Inr _ \<Rightarrow>
                  rearm (upd_conn srv i (\<lambda>c. transition IOH_CONN_HTTP_ACTIVE (c\<lparr>c_tls_done := True, c_timeout_phase := IOH_TIMEOUT_HEADER\<rparr>)))
              | Inl e \<Rightarrow> if e = EAGAIN then rearm srv else arm_close w srv i))"

definition recv_tls ::
  "('e, 's, 'h) world \<Rightarrow> ('e, 's, 'h, 'm) ioh_server \<Rightarrow> nat \<Rightarrow> string \<Rightarrow>
   ('e, 's, 'h, 'm) ioh_server + (('e, 's, 'h, 'm) ioh_server \<times> string)" where
  "recv_tls w srv i beyond =
     (let c = conn_at srv i
      in case c_tls_ctx c of
           None \<Rightarrow> Inr (srv, beyond)
         | Some tls \<Rightarrow>
             (let tls = snd (ioh_tls_feed_input tls (c_recv c));
                  srv = upd_conn srv i (\<lambda>c. c\<lparr>c_tls_ctx := Some tls, c_recv := []\<rparr>)
              in if \<not> c_tls_done c then Inl (tls_handshake_step w srv i tls)
                 else
                   (case ioh_tls_read (w_wolf w) tls 8192 of
                      (r, tls) \<Rightarrow>
                        (let srv = upd_conn srv i (\<lambda>c. c\<lparr>c_tls_ctx := Some tls\<rparr>)
                         in case r of
                              Inr plain \<Rightarrow>
                                if length plain \<le> c_recv_buf_size c
                                then Inr (upd_conn srv i (\<lambda>c. c\<lparr>c_recv := plain\<rparr>), drop (length plain) (c_recv c @ beyond))
                                else Inr (srv, c_recv c @ beyond)
                            | Inl e \<Rightarrow> if e = EAGAIN then Inl (snd (arm_recv w srv i)) else Inl (arm_close w srv i)))))"

text \<open>The branch for a body that has not arrived completely.\<close>

definition await_body ::
  "('e, 's, 'h) world \<Rightarrow> ('e, 's, 'h, 'm) ioh_server \<Rightarrow> nat \<Rightarrow> ioh_request \<Rightarrow> ('e, 's, 'h, 'm) ioh_server" where
  "await_body w srv i req =
     (let override = (\<lambda>c. case sv_router srv of
            None \<Rightarrow> c
          | Some router \<Rightarrow>
              (let m = ioh_router_dispatch router (req_method req) (req_path req)
               in case m_opts m of
                    Some opts \<Rightarrow> if m_status m = IOH_MATCH_FOUND then c\<lparr>c_route_body_timeout_ms := ro_body_timeout_ms opts\<rparr> else c
                  | None \<Rightarrow> c))
      in snd (arm_recv w (upd_conn srv i (\<lambda>c. (override c)\<lparr>c_timeout_phase := IOH_TIMEOUT_BODY\<rparr>)) i))"

text \<open>
  After the dispatch the consumed bytes are removed.  The slot may have been freed by then, in which case the
  subtraction of the lengths wraps and the move goes out of bounds.
\<close>

definition drop_consumed :: "('e, 's, 'h, 'm) ioh_server \<Rightarrow> nat \<Rightarrow> nat \<Rightarrow> ('e, 's, 'h, 'm) ioh_server" where
  "drop_consumed srv i n =
     (if length (c_recv (conn_at srv i)) < n then srv\<lparr>sv_fault := True\<rparr>
      else upd_conn srv i (\<lambda>c. c\<lparr>c_recv := drop n (c_recv c)\<rparr>))"

definition recv_http ::
  "('e, 's, 'h) world \<Rightarrow> ('e, 's, 'h, 'm) ioh_server \<Rightarrow> nat \<Rightarrow> string \<Rightarrow> ('e, 's, 'h, 'm) ioh_server" where
  "recv_http w srv i beyond =
     (let buf = c_recv (conn_at srv i)
      in if length buf > unat (sg_max_header_size (sv_config srv))
         then send_error_response w srv i 431 ''Request Header Fields Too Large''
         else
           (case ioh_http1_parse_request (w_sse w) buf beyond of
              Inr (hdr_len, req) \<Rightarrow>
                (let content_length = unat (req_content_length req); body_avail = length buf - hdr_len
                 in if content_length > unat (sg_max_body_size (sv_config srv))
                    then send_error_response w srv i 413 ''Content Too Large''
                    else if content_length > 0 \<and> body_avail < content_length then await_body w srv i req
                    else
                      (let req = (if content_length > 0 then req\<lparr>req_body := Some (take content_length (drop hdr_len buf))\<rparr> else req)
                       in drop_consumed (snd (dispatch_request w srv i req)) i (hdr_len + content_length)))
            | Inl e \<Rightarrow>
                if e = EAGAIN then snd (arm_recv w srv i) else send_error_response w srv i 400 ''Bad Request''))"

definition handle_recv ::
  "('e, 's, 'h) world \<Rightarrow> ('e, 's, 'h, 'm) ioh_server \<Rightarrow> bool \<Rightarrow> srv_cqe \<Rightarrow> ('e, 's, 'h, 'm) ioh_server" where
  "handle_recv w srv fresh cqe =
     (case find_conn_by_id srv (ucast (IOH_DECODE_ID (ce_ud cqe))) of
        None \<Rightarrow> srv
      | Some i \<Rightarrow>
          if ce_res cqe \<le> 0 then arm_close w srv i
          else
            (let fault = (\<not> fresh \<or> length (c_recv (conn_at srv i)) + length (ce_data cqe) > c_recv_buf_size (conn_at srv i));
                 srv = upd_conn srv i (\<lambda>c. c\<lparr>c_recv := c_recv c @ ce_data cqe\<rparr>);
                 srv = srv\<lparr>sv_fault := (sv_fault srv \<or> fault)\<rparr>
             in case recv_proxy w srv i (ce_after cqe) of
                  Inl srv \<Rightarrow> srv
                | Inr (srv, beyond) \<Rightarrow>
                    (case recv_tls w srv i beyond of Inl srv \<Rightarrow> srv | Inr (srv, beyond) \<Rightarrow> recv_http w srv i beyond)))"

text \<open>The branch of a send that has transmitted everything.\<close>

definition send_done ::
  "('e, 's, 'h) world \<Rightarrow> ('e, 's, 'h, 'm) ioh_server \<Rightarrow> nat \<Rightarrow> ('e, 's, 'h, 'm) ioh_server" where
  "send_done w srv i =
     (let srv = upd_conn srv i (\<lambda>c. c\<lparr>c_send_buf := None, c_send_len := 0, c_send_offset := 0\<rparr>);
          c = conn_at srv i
      in if c_state c = IOH_CONN_TLS_HANDSHAKE then snd (arm_recv w srv i)
         else if c_keep_alive c \<and> c_state c = IOH_CONN_HTTP_ACTIVE then
           upd_conn (snd (arm_recv w (upd_conn srv i (\<lambda>c. c\<lparr>c_timeout_phase := IOH_TIMEOUT_KEEPALIVE, c_recv := []\<rparr>)) i)) i
             (\<lambda>c. c\<lparr>c_route_body_timeout_ms := 0, c_route_keepalive_timeout_ms := 0\<rparr>)
         else arm_close w srv i)"

text \<open>Sending from a buffer that is no longer there would read through a null pointer.\<close>

definition send_rest ::
  "('e, 's, 'h) world \<Rightarrow> ('e, 's, 'h, 'm) ioh_server \<Rightarrow> nat \<Rightarrow> ('e, 's, 'h, 'm) ioh_server" where
  "send_rest w srv i =
     (case get_sqe w srv of
        (False, srv) \<Rightarrow> arm_close w srv i
      | (True, srv) \<Rightarrow>
          (let srv = upd_conn srv i (\<lambda>c. c\<lparr>c_send_active := True\<rparr>); c = conn_at srv i
           in case c_send_buf c of
                None \<Rightarrow> srv\<lparr>sv_fault := True\<rparr>
              | Some buf \<Rightarrow> push_sqe srv (Sqe_Send (c_fd c) (drop (c_send_offset c) buf)) (conn_tag c IOH_OP_SEND)))"

definition handle_send ::
  "('e, 's, 'h) world \<Rightarrow> ('e, 's, 'h, 'm) ioh_server \<Rightarrow> srv_cqe \<Rightarrow> ('e, 's, 'h, 'm) ioh_server" where
  "handle_send w srv cqe =
     (case find_conn_by_id srv (ucast (IOH_DECODE_ID (ce_ud cqe))) of
        None \<Rightarrow> srv
      | Some i \<Rightarrow>
          (let srv = upd_conn srv i (\<lambda>c. c\<lparr>c_send_active := False\<rparr>)
           in if ce_res cqe < 0 then arm_close w srv i
              else
                (let srv = upd_conn srv i (\<lambda>c. c\<lparr>c_send_offset := c_send_offset c + nat (ce_res cqe)\<rparr>);
                     c = conn_at srv i
                 in if c_send_offset c < c_send_len c then send_rest w srv i else send_done w srv i)))"

definition handle_close :: "('e, 's, 'h, 'm) ioh_server \<Rightarrow> srv_cqe \<Rightarrow> ('e, 's, 'h, 'm) ioh_server" where
  "handle_close srv cqe =
     (case find_conn_by_id srv (ucast (IOH_DECODE_ID (ce_ud cqe))) of
        None \<Rightarrow> srv
      | Some i \<Rightarrow> free_slot srv i)"

definition handle_timeout ::
  "('e, 's, 'h) world \<Rightarrow> ('e, 's, 'h, 'm) ioh_server \<Rightarrow> srv_cqe \<Rightarrow> ('e, 's, 'h, 'm) ioh_server" where
  "handle_timeout w srv cqe =
     (if ce_res cqe = NEG_ECANCELED then srv
      else
        (case find_conn_by_id srv (ucast (IOH_DECODE_ID (ce_ud cqe))) of
           None \<Rightarrow> srv
         | Some i \<Rightarrow> arm_close w srv i))"

text \<open>The completions other than signals, in the order the code tests the operation.\<close>

definition handle_io ::
  "('e, 's, 'h) world \<Rightarrow> ('e, 's, 'h, 'm) ioh_server \<Rightarrow> bool \<Rightarrow> srv_cqe \<Rightarrow> ('e, 's, 'h, 'm) ioh_server" where
  "handle_io w srv fresh cqe =
     (let op = IOH_DECODE_OP (ce_ud cqe)
      in if op = op_val IOH_OP_ACCEPT then handle_accept w srv cqe
         else if op = op_val IOH_OP_RECV then handle_recv w srv fresh cqe
         else if op = op_val IOH_OP_SEND then handle_send w srv cqe
         else if op = op_val IOH_OP_CLOSE then handle_close srv cqe
         else if op = op_val IOH_OP_TIMEOUT then handle_timeout w srv cqe
         else srv)"

subsection \<open>The loop and shutdown\<close>

definition SIGQUIT :: nat where "SIGQUIT = 3"
definition SIGTERM :: nat where "SIGTERM = 15"
definition DRAIN_POLL_MS :: u32 where "DRAIN_POLL_MS = 50"

text \<open>Completions arrive: the kernel has also filled in the signal buffer of a signal completion.\<close>

definition deliver :: "('e, 's, 'h, 'm) ioh_server \<Rightarrow> srv_cqe list \<Rightarrow> ('e, 's, 'h, 'm) ioh_server" where
  "deliver srv cqes =
     foldl (\<lambda>srv cqe. if IOH_DECODE_OP (ce_ud cqe) = op_val IOH_OP_SIGNAL \<and> ce_res cqe > 0
                      then srv\<lparr>sv_signo := ce_signo cqe\<rparr> else srv)
       (srv\<lparr>sv_cq := sv_cq srv @ cqes\<rparr>) cqes"

definition ring_submit :: "('e, 's, 'h) world \<Rightarrow> ('e, 's, 'h, 'm) ioh_server \<Rightarrow> int \<times> ('e, 's, 'h, 'm) ioh_server" where
  "ring_submit w srv = (case w_submit w (sv_env srv) of (ret, cqes, e) \<Rightarrow> (ret, deliver (srv\<lparr>sv_env := e\<rparr>) cqes))"

text \<open>Waiting returns at once when a completion is there.\<close>

definition ring_wait :: "('e, 's, 'h) world \<Rightarrow> ('e, 's, 'h, 'm) ioh_server \<Rightarrow> u32 \<Rightarrow> int \<times> ('e, 's, 'h, 'm) ioh_server" where
  "ring_wait w srv timeout_ms =
     (if sv_cq_head srv < length (sv_cq srv) then (0, srv)
      else case w_wait w timeout_ms (sv_env srv) of (ret, cqes, e) \<Rightarrow> (ret, deliver (srv\<lparr>sv_env := e\<rparr>) cqes))"

definition rearm_signal :: "('e, 's, 'h) world \<Rightarrow> ('e, 's, 'h, 'm) ioh_server \<Rightarrow> ('e, 's, 'h, 'm) ioh_server" where
  "rearm_signal w srv =
     (if \<not> sv_stopped srv \<and> sv_signal_fd srv \<ge> 0 then
        (case get_sqe w srv of
           (False, srv) \<Rightarrow> srv
         | (True, srv) \<Rightarrow> push_sqe srv (Sqe_Read_Signal (sv_signal_fd srv)) (IOH_ENCODE_USERDATA 0 IOH_OP_SIGNAL))
      else srv)"

definition force_close :: "('e, 's, 'h, 'm) ioh_server \<Rightarrow> nat \<Rightarrow> ('e, 's, 'h, 'm) ioh_server" where
  "force_close srv i =
     (let c = conn_at srv i
      in if c_state c = IOH_CONN_FREE then srv
         else free_slot (if c_fd c \<ge> 0 then close_fd srv (c_fd c) else srv) i)"

definition force_close_all :: "('e, 's, 'h, 'm) ioh_server \<Rightarrow> ('e, 's, 'h, 'm) ioh_server" where
  "force_close_all srv = foldl force_close srv [0..<ioh_conn_pool_capacity (sv_pool srv)]"

definition mark_draining :: "('e, 's, 'h, 'm) ioh_server \<Rightarrow> ('e, 's, 'h, 'm) ioh_server" where
  "mark_draining srv =
     foldl (\<lambda>srv i. if c_state (conn_at srv i) = IOH_CONN_HTTP_ACTIVE
                    then upd_conn srv i (\<lambda>c. (transition IOH_CONN_DRAINING c)\<lparr>c_keep_alive := False\<rparr>) else srv)
       srv [0..<ioh_conn_pool_capacity (sv_pool srv)]"

definition stop_accepting :: "('e, 's, 'h) world \<Rightarrow> ('e, 's, 'h, 'm) ioh_server \<Rightarrow> ('e, 's, 'h, 'm) ioh_server" where
  "stop_accepting w srv =
     (let srv = srv\<lparr>sv_stopped := True\<rparr>;
          srv = (if sv_accepting srv then
                   (case get_sqe w srv of
                      (False, srv) \<Rightarrow> srv\<lparr>sv_accepting := False\<rparr>
                    | (True, srv) \<Rightarrow>
                        (push_sqe srv (Sqe_Cancel_Accept (IOH_ENCODE_USERDATA 0 IOH_OP_ACCEPT)) (IOH_ENCODE_USERDATA 0 IOH_OP_CANCEL))
                          \<lparr>sv_accepting := False\<rparr>)
                 else srv)
      in if sv_listen_fd srv \<ge> 0 then (close_fd srv (sv_listen_fd srv))\<lparr>sv_listen_fd := -1, sv_listening := False\<rparr> else srv)"

definition ioh_server_stop :: "('e, 's, 'h, 'm) ioh_server \<Rightarrow> ('e, 's, 'h, 'm) ioh_server" where
  "ioh_server_stop srv = srv\<lparr>sv_stopped := True, sv_loop_stopped := True\<rparr>"

text \<open>
  A round processes all completions from the consumer's position and only then advances it.  A termination signal runs the
  drain loop inside, whose rounds start from the same position.  The parts of a round take the nested round as an argument;
  loops and nesting are bounded by fuel, and \<open>None\<close> means it was used up.  A position behind the end of the queue, which
  a nested round can leave, would make the code read stale entries.
\<close>

type_synonym ('e, 's, 'h, 'm) round = "('e, 's, 'h, 'm) ioh_server \<Rightarrow> u32 \<Rightarrow> (int \<times> ('e, 's, 'h, 'm) ioh_server) option"

primrec drain_loop ::
  "nat \<Rightarrow> ('e, 's, 'h, 'm) round \<Rightarrow> ('e, 's, 'h, 'm) ioh_server \<Rightarrow> u32 \<Rightarrow> ('e, 's, 'h, 'm) ioh_server option" where
  "drain_loop 0 run_once srv elapsed = None"
| "drain_loop (Suc n) run_once srv elapsed =
     (if ioh_conn_pool_active (sv_pool srv) > 0 \<and> elapsed < sg_keepalive_timeout_ms (sv_config srv) then
        (case run_once (srv\<lparr>sv_stopped := False\<rparr>) DRAIN_POLL_MS of
           None \<Rightarrow> None
         | Some (_, srv) \<Rightarrow> drain_loop n run_once (srv\<lparr>sv_stopped := True\<rparr>) (elapsed + DRAIN_POLL_MS))
      else Some srv)"

definition shutdown_with ::
  "nat \<Rightarrow> ('e, 's, 'h, 'm) round \<Rightarrow> ('e, 's, 'h) world \<Rightarrow> ('e, 's, 'h, 'm) ioh_server \<Rightarrow> ioh_shutdown_mode \<Rightarrow>
   ('e, 's, 'h, 'm) ioh_server option" where
  "shutdown_with n run_once w srv shutdown_mode =
     map_option (\<lambda>srv. srv\<lparr>sv_loop_stopped := True\<rparr>)
       (case shutdown_mode of
          IOH_SHUTDOWN_IMMEDIATE \<Rightarrow> Some (force_close_all (stop_accepting w srv))
        | IOH_SHUTDOWN_DRAIN \<Rightarrow> map_option force_close_all (drain_loop n run_once (mark_draining (stop_accepting w srv)) 0))"

definition handle_signal ::
  "nat \<Rightarrow> ('e, 's, 'h, 'm) round \<Rightarrow> ('e, 's, 'h) world \<Rightarrow> ('e, 's, 'h, 'm) ioh_server \<Rightarrow> srv_cqe \<Rightarrow>
   ('e, 's, 'h, 'm) ioh_server option" where
  "handle_signal n run_once w srv cqe =
     map_option (rearm_signal w)
       (if ce_res cqe > 0 then
          (if sv_signo srv = SIGQUIT then shutdown_with n run_once w srv IOH_SHUTDOWN_IMMEDIATE
           else if sv_signo srv = SIGTERM then shutdown_with n run_once w srv IOH_SHUTDOWN_DRAIN
           else Some srv)
        else Some srv)"

primrec cqe_loop ::
  "nat \<Rightarrow> ('e, 's, 'h, 'm) round \<Rightarrow> ('e, 's, 'h) world \<Rightarrow> ('e, 's, 'h, 'm) ioh_server \<Rightarrow> nat \<Rightarrow> nat \<Rightarrow>
   (int \<times> ('e, 's, 'h, 'm) ioh_server) option" where
  "cqe_loop 0 run_once w srv head processed = None"
| "cqe_loop (Suc n) run_once w srv head processed =
     (if head < length (sv_cq srv) then
        (let cqe = sv_cq srv ! head; fresh = (sv_cq_seen srv \<le> head);
             srv = srv\<lparr>sv_cq_seen := max (sv_cq_seen srv) (Suc head)\<rparr>
         in case (if IOH_DECODE_OP (ce_ud cqe) = op_val IOH_OP_SIGNAL then handle_signal n run_once w srv cqe
                  else Some (handle_io w srv fresh cqe)) of
              None \<Rightarrow> None
            | Some srv \<Rightarrow> cqe_loop n run_once w srv (Suc head) (Suc processed))
      else Some (int processed, srv\<lparr>sv_cq_head := sv_cq_head srv + processed,
                   sv_fault := (sv_fault srv \<or> length (sv_cq srv) < head)\<rparr>))"

primrec ioh_server_run_once :: "nat \<Rightarrow> ('e, 's, 'h) world \<Rightarrow> ('e, 's, 'h, 'm) round" where
  "ioh_server_run_once 0 w = (\<lambda>srv timeout_ms. None)"
| "ioh_server_run_once (Suc n) w = (\<lambda>srv timeout_ms.
     if sv_stopped srv then Some (0, srv)
     else
       (case ring_submit w srv of
          (ret, srv) \<Rightarrow>
            if ret < 0 then Some (ret, srv)
            else
              (case ring_wait w srv timeout_ms of
                 (ret, srv) \<Rightarrow>
                   if ret < 0 then Some (ret, srv)
                   else cqe_loop n (ioh_server_run_once n w) w srv (sv_cq_head srv) 0)))"

definition ioh_server_shutdown ::
  "nat \<Rightarrow> ('e, 's, 'h) world \<Rightarrow> ('e, 's, 'h, 'm) ioh_server \<Rightarrow> ioh_shutdown_mode \<Rightarrow> ('e, 's, 'h, 'm) ioh_server option" where
  "ioh_server_shutdown n w srv shutdown_mode = shutdown_with n (ioh_server_run_once n w) w srv shutdown_mode"

text \<open>Starting to listen; the results of the system calls are arguments.\<close>

record listen_calls =
  ls_socket :: "errno + int"
  ls_reuseaddr :: "errno + unit"
  ls_reuseport :: "errno + unit"
  ls_bind :: "errno + unit"
  ls_listen :: "errno + unit"

definition ioh_server_listen ::
  "('e, 's, 'h) world \<Rightarrow> listen_calls \<Rightarrow> ('e, 's, 'h, 'm) ioh_server \<Rightarrow> (int, ('e, 's, 'h, 'm) ioh_server) outcome" where
  "ioh_server_listen w calls srv =
     (if sv_listening srv then (Inl EALREADY, srv)
      else
        (case ls_socket calls of
           Inl e \<Rightarrow> (Inl e, srv)
         | Inr fd \<Rightarrow>
             (case ls_reuseaddr calls of
                Inl e \<Rightarrow> (Inl e, close_fd srv fd)
              | Inr _ \<Rightarrow>
                  (case ls_reuseport calls of
                     Inl e \<Rightarrow> (Inl e, close_fd srv fd)
                   | Inr _ \<Rightarrow>
                       if (case sg_listen_addr (sv_config srv) of None \<Rightarrow> False | Some a \<Rightarrow> w_pton w AF_INET a = None)
                       then (Inl EINVAL, close_fd srv fd)
                       else
                         (case ls_bind calls of
                            Inl e \<Rightarrow> (Inl e, close_fd srv fd)
                          | Inr _ \<Rightarrow>
                              (case ls_listen calls of
                                 Inl e \<Rightarrow> (Inl e, close_fd srv fd)
                               | Inr _ \<Rightarrow>
                                   (case arm_multishot_accept w (srv\<lparr>sv_listen_fd := fd, sv_listening := True\<rparr>) of
                                      (Inl e, srv) \<Rightarrow> (Inl e, (close_fd srv fd)\<lparr>sv_listen_fd := -1, sv_listening := False\<rparr>)
                                    | (Inr _, srv) \<Rightarrow> (Inr fd, srv))))))))"

text \<open>
  The main loop.  The integer is the signal descriptor, negative when it could not be made.  The loop
  runs until the server is stopped, so it is bounded by fuel as well.
\<close>

definition close_signal_fd :: "('e, 's, 'h, 'm) ioh_server \<Rightarrow> ('e, 's, 'h, 'm) ioh_server" where
  "close_signal_fd srv =
     (if sv_signal_fd srv \<ge> 0 then (close_fd srv (sv_signal_fd srv))\<lparr>sv_signal_fd := -1\<rparr> else srv)"

primrec run_loop :: "nat \<Rightarrow> ('e, 's, 'h) world \<Rightarrow> ('e, 's, 'h, 'm) ioh_server \<Rightarrow> (int \<times> ('e, 's, 'h, 'm) ioh_server) option" where
  "run_loop 0 w srv = None"
| "run_loop (Suc n) w srv =
     (if sv_stopped srv then Some (0, close_signal_fd srv)
      else
        (case ioh_server_run_once n w srv 1000 of
           None \<Rightarrow> None
         | Some (ret, srv) \<Rightarrow>
             if ret < 0 \<and> ret \<noteq> NEG_ETIME \<and> ret \<noteq> NEG_EINTR then Some (ret, close_signal_fd srv) else run_loop n w srv))"

definition ioh_server_run ::
  "nat \<Rightarrow> ('e, 's, 'h) world \<Rightarrow> listen_calls \<Rightarrow> int \<Rightarrow> ('e, 's, 'h, 'm) ioh_server \<Rightarrow>
   ((errno + int) \<times> ('e, 's, 'h, 'm) ioh_server) option" where
  "ioh_server_run fuel w calls signal_fd srv =
     (case (if sv_listening srv then (Inr 0, srv) else ioh_server_listen w calls srv) of
        (Inl e, srv) \<Rightarrow> Some (Inl e, srv)
      | (Inr _, srv) \<Rightarrow>
          map_option (\<lambda>(ret, srv). (Inr ret, srv))
            (run_loop fuel w (let srv = srv\<lparr>sv_signal_fd := signal_fd\<rparr>
                              in if signal_fd \<ge> 0 then
                                   (case get_sqe w srv of
                                      (False, srv) \<Rightarrow> srv
                                    | (True, srv) \<Rightarrow> push_sqe srv (Sqe_Read_Signal signal_fd) (IOH_ENCODE_USERDATA 0 IOH_OP_SIGNAL))
                                 else srv)))"

definition ioh_server_destroy :: "('e, 's, 'h, 'm) ioh_server \<Rightarrow> ('e, 's, 'h, 'm) ioh_server" where
  "ioh_server_destroy srv =
     (let srv = close_signal_fd srv
      in if sv_listen_fd srv \<ge> 0 then (close_fd srv (sv_listen_fd srv))\<lparr>sv_listen_fd := -1\<rparr> else srv)"

end
