(* ===== verification/Server_Flight.thy ===== *)
theory Server_Flight
  imports Server
begin

text \<open>
  What the server has in flight.  The list of submitted entries doubles as the set of operations the kernel
  still owes a completion.

  The lemmas follow one connection through the parts of a handler: every one of them changes the server only in the connection,
  in the entries it adds and in the environment (\<open>eff\<close>), and the handler leaves the connection with the operations its
  state calls for (\<open>conn_flight\<close>).
\<close>

subsection \<open>Operations of a connection\<close>

definition n_ops :: "(srv_sqe \<times> u64) list \<Rightarrow> 's srv_conn \<Rightarrow> ioh_op_type \<Rightarrow> nat" where
  "n_ops sq c op = length (filter (\<lambda>e. snd e = conn_tag c op) sq)"

text \<open>
  At most one receive or send is in flight; a send is in flight exactly when the flag says so and carries the unsent rest of
  the buffer; a receive targets the free part of the buffer.  In strict mode there is always an operation in flight.
\<close>

definition entry_ok :: "'s srv_conn \<Rightarrow> srv_sqe \<times> u64 \<Rightarrow> bool" where
  "entry_ok c e \<longleftrightarrow>
     (snd e = conn_tag c IOH_OP_RECV \<longrightarrow>
        fst e = Sqe_Recv (c_fd c) (length (c_recv c)) (c_recv_buf_size c - length (c_recv c))) \<and>
     (snd e = conn_tag c IOH_OP_SEND \<longrightarrow>
        (\<exists>buf. c_send_buf c = Some buf \<and> c_send_len c = length buf \<and> c_send_offset c \<le> length buf \<and>
           fst e = Sqe_Send (c_fd c) (drop (c_send_offset c) buf)))"

definition conn_flight :: "bool \<Rightarrow> (srv_sqe \<times> u64) list \<Rightarrow> 's srv_conn \<Rightarrow> bool" where
  "conn_flight strict sq c \<longleftrightarrow>
     n_ops sq c IOH_OP_RECV + n_ops sq c IOH_OP_SEND \<le> 1 \<and>
     (c_send_active c \<longleftrightarrow> n_ops sq c IOH_OP_SEND = 1) \<and>
     (\<forall>e\<in>set sq. entry_ok c e) \<and>
     (strict \<longrightarrow> c_tls_ctx c = None \<and>
        1 \<le> n_ops sq c IOH_OP_RECV + n_ops sq c IOH_OP_SEND + n_ops sq c IOH_OP_CLOSE)"

text \<open>A change of the server that is confined to one connection, new entries and the environment.\<close>

definition eff ::
  "nat \<Rightarrow> ('e, 's, 'h, 'm) ioh_server \<Rightarrow> 's srv_conn \<Rightarrow> (srv_sqe \<times> u64) list \<Rightarrow> ('e, 's, 'h, 'm) ioh_server \<Rightarrow> bool" where
  "eff i srv c added srv' \<longleftrightarrow>
     (\<exists>e. srv' = srv\<lparr>sv_pool := put_conn (sv_pool srv) i c, sv_sq := sv_sq srv @ added, sv_env := e\<rparr>)"

definition slot_ok :: "('e, 's, 'h, 'm) ioh_server \<Rightarrow> nat \<Rightarrow> bool" where
  "slot_ok srv i \<longleftrightarrow> i < length (cp_conns (sv_pool srv))"

text \<open>The outcome of a handler that started with no receive and no send in flight.\<close>

definition handled :: "bool \<Rightarrow> nat \<Rightarrow> ('e, 's, 'h, 'm) ioh_server \<Rightarrow> 's srv_conn \<Rightarrow> ('e, 's, 'h, 'm) ioh_server \<Rightarrow> bool" where
  "handled strict i srv c srv' \<longleftrightarrow>
     (\<exists>c' added. eff i srv c' added srv' \<and> c_id c' = c_id c \<and> c_state c' \<noteq> IOH_CONN_FREE \<and> conn_ok c' \<and>
        (\<forall>e\<in>set added. \<exists>op\<in>{IOH_OP_RECV, IOH_OP_SEND, IOH_OP_CLOSE, IOH_OP_TIMEOUT}. snd e = conn_tag c' op) \<and>
        conn_flight strict added c')"

text \<open>A connection at the start of such a handler.\<close>

definition idle :: "bool \<Rightarrow> 's srv_conn \<Rightarrow> bool" where
  "idle strict c \<longleftrightarrow> c_state c \<noteq> IOH_CONN_FREE \<and> conn_ok c \<and> \<not> c_send_active c \<and> (strict \<longrightarrow> c_tls_ctx c = None)"

subsection \<open>Assumptions on the environment\<close>

text \<open>The submission queue has room; allocations succeed; every response fits the 8192 bytes it is serialized into.\<close>

definition room :: "('e, 's, 'h) world \<Rightarrow> bool" where
  "room w \<longleftrightarrow> (\<forall>e. fst (w_get_sqe w e))"

definition memory :: "('e, 's, 'h) world \<Rightarrow> bool" where
  "memory w \<longleftrightarrow> (\<forall>e. fst (w_malloc w e) \<noteq> None)"

definition responses_fit :: "('e, 's, 'h) world \<Rightarrow> ('e, 's, 'h, 'm) ioh_server \<Rightarrow> bool" where
  "responses_fit w srv \<longleftrightarrow>
     (\<forall>i ctx. isl (ioh_http1_serialize_response (cx_resp (snd (fst (serve_request w srv i ctx)))) 8192) = False)"

definition strict_world :: "('e, 's, 'h) world \<Rightarrow> ('e, 's, 'h, 'm) ioh_server \<Rightarrow> bool" where
  "strict_world w srv \<longleftrightarrow> memory w \<and> sv_tls_ctx srv = None \<and> responses_fit w srv"

subsection \<open>Tags\<close>

lemma decode_conn_tag: "ucast (IOH_DECODE_ID (conn_tag c op)) = c_id c" "IOH_DECODE_OP (conn_tag c op) = op_val op"
proof -
  have "unat (ucast (c_id c) :: u64) < 2 ^ 56" using unat_bound [of "c_id c"] by (simp add: unsigned_ucast_eq take_bit_nat_eq_self)
  then have "IOH_DECODE_ID (conn_tag c op) = ucast (c_id c)" by (simp add: conn_tag_def decode_id_encode)
  moreover have "(ucast (ucast (c_id c) :: u64) :: u32) = c_id c"
    by (rule bit_word_eqI) (auto simp: bit_simps dest: bit_imp_le_length)
  ultimately show "ucast (IOH_DECODE_ID (conn_tag c op)) = c_id c" by simp
  show "IOH_DECODE_OP (conn_tag c op) = op_val op" by (simp add: conn_tag_def)
qed

lemma conn_tag_eq [simp]: "conn_tag c op = conn_tag c' op' \<longleftrightarrow> c_id c = c_id c' \<and> op = op'"
proof
  assume eq: "conn_tag c op = conn_tag c' op'"
  show "c_id c = c_id c' \<and> op = op'"
    using decode_conn_tag [of c op] decode_conn_tag [of c' op'] unfolding eq by simp
qed (simp add: conn_tag_def)

lemma tag_facts:
  assumes "ud = IOH_ENCODE_USERDATA (ucast (cid :: u32)) op"
  shows "ud = conn_tag c op' \<longleftrightarrow> c_id c = cid \<and> op' = op" "ucast (IOH_DECODE_ID ud) = cid" "IOH_DECODE_OP ud = op_val op"
proof -
  have "ud = conn_tag (c\<lparr>c_id := cid\<rparr>) op" by (simp add: assms conn_tag_def)
  then show "ud = conn_tag c op' \<longleftrightarrow> c_id c = cid \<and> op' = op" "ucast (IOH_DECODE_ID ud) = cid" "IOH_DECODE_OP ud = op_val op"
    using conn_tag_eq [of "c\<lparr>c_id := cid\<rparr>" op c op'] decode_conn_tag [of "c\<lparr>c_id := cid\<rparr>" op] by auto
qed

lemma n_ops_append [simp]: "n_ops (xs @ ys) c op = n_ops xs c op + n_ops ys c op"
  by (simp add: n_ops_def)

lemma n_ops_Nil [simp]: "n_ops [] c op = 0"
  by (simp add: n_ops_def)

lemma n_ops_Cons [simp]: "n_ops (e # xs) c op = (if snd e = conn_tag c op then 1 else 0) + n_ops xs c op"
  by (simp add: n_ops_def)

lemma n_ops_0: "n_ops sq c op = 0 \<longleftrightarrow> (\<forall>e\<in>set sq. snd e \<noteq> conn_tag c op)"
  by (auto simp: n_ops_def filter_empty_conv)

subsection \<open>Effects\<close>

lemma eff_refl: "slot_ok srv i \<Longrightarrow> eff i srv (conn_at srv i) [] srv"
  by (auto simp: eff_def put_conn_def intro: exI [of _ "sv_env srv"])

lemma eff_conn: "slot_ok srv i \<Longrightarrow> eff i srv c added srv' \<Longrightarrow> conn_at srv' i = c"
  by (auto simp: eff_def put_conn_def slot_ok_def)

lemma eff_fields:
  assumes "eff i srv c added srv'"
  shows "sv_config srv' = sv_config srv" "sv_router srv' = sv_router srv" "sv_tls_ctx srv' = sv_tls_ctx srv"
    "sv_on_request srv' = sv_on_request srv" "sv_fault srv' = sv_fault srv" "slot_ok srv' j = slot_ok srv j"
    "cp_next_id (sv_pool srv') = cp_next_id (sv_pool srv)" "sv_sq srv' = sv_sq srv @ added"
    "sv_pool srv' = put_conn (sv_pool srv) i c"
  using assms by (auto simp: eff_def put_conn_def slot_ok_def)

lemma eff_env: "eff i srv c added srv' \<Longrightarrow> eff i srv c added (srv'\<lparr>sv_env := e\<rparr>)"
  by (auto simp: eff_def)

lemma eff_upd:
  assumes "slot_ok srv i" and "eff i srv c added srv'"
  shows "eff i srv (f c) added (upd_conn srv' i f)"
proof -
  obtain e where "srv' = srv\<lparr>sv_pool := put_conn (sv_pool srv) i c, sv_sq := sv_sq srv @ added, sv_env := e\<rparr>"
    using assms(2) by (auto simp: eff_def)
  then show ?thesis using eff_conn [OF assms] assms(1) unfolding eff_def
    by (intro exI [of _ e]) (simp add: upd_conn_def put_conn_def slot_ok_def)
qed

lemma eff_push: "eff i srv c added srv' \<Longrightarrow> eff i srv c (added @ [(sqe, ud)]) (push_sqe srv' sqe ud)"
proof -
  assume "eff i srv c added srv'"
  then obtain e where "srv' = srv\<lparr>sv_pool := put_conn (sv_pool srv) i c, sv_sq := sv_sq srv @ added, sv_env := e\<rparr>"
    by (auto simp: eff_def)
  then show ?thesis unfolding eff_def by (intro exI [of _ e]) (simp add: push_sqe_def)
qed

lemma get_sqe_eff:
  assumes "room w" and "eff i srv c added srv'"
  obtains srv'' where "get_sqe w srv' = (True, srv'')" "eff i srv c added srv''"
proof -
  obtain ok e where r: "w_get_sqe w (sv_env srv') = (ok, e)" by (rule prod.exhaust)
  with assms(1) have "ok" by (metis fst_conv room_def)
  with r eff_env [OF assms(2)] show ?thesis by (intro that [of "srv'\<lparr>sv_env := e\<rparr>"]) (simp_all add: get_sqe_def)
qed

lemma get_mem_eff:
  assumes "eff i srv c added srv'"
  obtains p srv'' where "get_mem w srv' = (p, srv'')" "eff i srv c added srv''" "memory w \<longrightarrow> p \<noteq> None"
proof -
  obtain p e where r: "w_malloc w (sv_env srv') = (p, e)" by (rule prod.exhaust)
  have "memory w \<longrightarrow> p \<noteq> None" by (metis fst_conv memory_def r)
  with r eff_env [OF assms] show ?thesis by (intro that [of p "srv'\<lparr>sv_env := e\<rparr>"]) (simp_all add: get_mem_def)
qed

text \<open>The entries of a receive, and what the operations do to a connection.\<close>

definition recv_entries :: "ioh_server_config \<Rightarrow> 's srv_conn \<Rightarrow> (srv_sqe \<times> u64) list" where
  "recv_entries cfg c =
     (let tmo_ms = timeout_ms_for_phase cfg c (c_timeout_phase c)
      in (Sqe_Recv (c_fd c) (length (c_recv c)) (c_recv_buf_size c - length (c_recv c)), conn_tag c IOH_OP_RECV) #
         (if tmo_ms > 0 then [(Sqe_Link_Timeout (ms_sec tmo_ms) (ms_nsec tmo_ms), conn_tag c IOH_OP_TIMEOUT)] else []))"

definition closing :: "'s srv_conn \<Rightarrow> 's srv_conn" where
  "closing c = transition IOH_CONN_CLOSING (c\<lparr>c_tls_ctx := None\<rparr>)"

definition sending :: "string \<Rightarrow> 's srv_conn \<Rightarrow> 's srv_conn" where
  "sending data c = c\<lparr>c_send_buf := Some data, c_send_len := length data, c_send_offset := 0, c_send_active := True\<rparr>"

lemma arm_recv_eff:
  assumes "room w" and "slot_ok srv i" and "eff i srv c added srv'"
  obtains srv'' where "arm_recv w srv' i = (Inr (), srv'')" "eff i srv c (added @ recv_entries (sv_config srv) c) srv''"
proof -
  obtain s1 where s1: "get_sqe w srv' = (True, s1)" "eff i srv c added s1" by (rule get_sqe_eff [OF assms(1,3)])
  note c = eff_conn [OF assms(2) s1(2)]
  define s2 where "s2 = push_sqe s1 (Sqe_Recv (c_fd c) (length (c_recv c)) (c_recv_buf_size c - length (c_recv c))) (conn_tag c IOH_OP_RECV)"
  have s2: "eff i srv c (added @ [(Sqe_Recv (c_fd c) (length (c_recv c)) (c_recv_buf_size c - length (c_recv c)), conn_tag c IOH_OP_RECV)]) s2"
    unfolding s2_def by (rule eff_push [OF s1(2)])
  define t where "t = timeout_ms_for_phase (sv_config srv) c (c_timeout_phase c)"
  have cfg: "sv_config s2 = sv_config srv" by (rule eff_fields(1) [OF s2])
  note arm = arm_recv_def s1(1) c Let_def s2_def [symmetric] cfg t_def [symmetric]
  show ?thesis
  proof (cases "t > 0")
    case True
    obtain s3 where s3: "get_sqe w s2 = (True, s3)" "eff i srv c (added @ [(Sqe_Recv (c_fd c) (length (c_recv c))
        (c_recv_buf_size c - length (c_recv c)), conn_tag c IOH_OP_RECV)]) s3" by (rule get_sqe_eff [OF assms(1) s2])
    from eff_push [OF s3(2)] True show ?thesis
      by (intro that) (simp_all add: arm s3(1) recv_entries_def)
  next
    case False
    with s2 show ?thesis by (intro that) (simp_all add: arm recv_entries_def)
  qed
qed

lemma arm_close_eff:
  assumes "room w" and "slot_ok srv i" and "eff i srv c added srv'"
  shows "eff i srv (closing c) (added @ [(Sqe_Close (c_fd c), conn_tag c IOH_OP_CLOSE)]) (arm_close w srv' i)"
proof -
  have s1: "eff i srv (c\<lparr>c_tls_ctx := None\<rparr>) added (upd_conn srv' i (\<lambda>c. c\<lparr>c_tls_ctx := None\<rparr>))"
    by (rule eff_upd [OF assms(2,3)])
  obtain s2 where s2: "get_sqe w (upd_conn srv' i (\<lambda>c. c\<lparr>c_tls_ctx := None\<rparr>)) = (True, s2)"
      "eff i srv (c\<lparr>c_tls_ctx := None\<rparr>) added s2" by (rule get_sqe_eff [OF assms(1) s1])
  from eff_upd [OF assms(2) eff_push [OF s2(2), of "Sqe_Close (c_fd c)" "conn_tag c IOH_OP_CLOSE"], of "transition IOH_CONN_CLOSING"]
  show ?thesis by (simp add: arm_close_def s2(1) eff_conn [OF assms(2) s2(2)] closing_def conn_tag_def)
qed

lemma queue_send_eff:
  assumes "room w" and "slot_ok srv i" and "eff i srv c added srv'"
  obtains srv'' where "queue_send w srv' i data = (Inr (), srv'')"
    "eff i srv (sending data c) (added @ [(Sqe_Send (c_fd c) data, conn_tag c IOH_OP_SEND)]) srv''"
proof -
  have s1: "eff i srv (sending data c) added (upd_conn srv' i (sending data))" by (rule eff_upd [OF assms(2,3)])
  obtain s2 where s2: "get_sqe w (upd_conn srv' i (sending data)) = (True, s2)" "eff i srv (sending data c) added s2"
    by (rule get_sqe_eff [OF assms(1) s1])
  have q: "queue_send w srv' i data = (Inr (), push_sqe s2 (Sqe_Send (c_fd c) data) (conn_tag (sending data c) IOH_OP_SEND))"
    using s2(1) by (simp add: queue_send_def sending_def [abs_def] Let_def eff_conn [OF assms(2) s2(2)])
  have "conn_tag (sending data c) IOH_OP_SEND = conn_tag c IOH_OP_SEND" by (simp add: sending_def)
  with that [OF q] eff_push [OF s2(2)] show ?thesis by simp
qed

text \<open>A connection that differs in the TLS state and the send buffer only.\<close>

definition same_core :: "'s srv_conn \<Rightarrow> 's srv_conn \<Rightarrow> bool" where
  "same_core c c1 \<longleftrightarrow> (\<exists>tls b. c1 = c\<lparr>c_tls_ctx := tls, c_send_buf := b\<rparr> \<and> (c_tls_ctx c = None \<longrightarrow> tls = None))"

lemma same_core_refl: "same_core c c"
  unfolding same_core_def by (rule exI [of _ "c_tls_ctx c"], rule exI [of _ "c_send_buf c"]) simp

lemma same_coreI: "(c_tls_ctx c = None \<Longrightarrow> tls = None) \<Longrightarrow> same_core c (c\<lparr>c_tls_ctx := tls\<rparr>)"
  unfolding same_core_def by (rule exI [of _ tls], rule exI [of _ "c_send_buf c"]) simp

lemma same_core_buf: "same_core c c1 \<Longrightarrow> same_core c (c1\<lparr>c_send_buf := b\<rparr>)"
proof -
  assume "same_core c c1"
  then obtain tls b' where "c1 = c\<lparr>c_tls_ctx := tls, c_send_buf := b'\<rparr>" "c_tls_ctx c = None \<longrightarrow> tls = None"
    by (auto simp: same_core_def)
  then show ?thesis unfolding same_core_def by (intro exI [of _ tls] exI [of _ b]) simp
qed

lemma same_core_fields:
  assumes "same_core c c1"
  shows "c_id c1 = c_id c" "c_fd c1 = c_fd c" "c_state c1 = c_state c" "c_recv c1 = c_recv c" "c_recv_buf_size c1 = c_recv_buf_size c"
    "c_send_active c1 = c_send_active c" "c_tls_ctx c = None \<Longrightarrow> c_tls_ctx c1 = None"
  using assms by (auto simp: same_core_def)

lemma arm_send_plain:
  assumes "room w" and "slot_ok srv i" and "eff i srv c1 added srv'" and "same_core c c1"
  obtains (sent) srv'' where "(case get_mem w srv' of
         (None, srv) \<Rightarrow> (Inl ENOMEM, upd_conn srv i (\<lambda>c. c\<lparr>c_send_buf := None\<rparr>))
       | (Some _, srv) \<Rightarrow> queue_send w srv i data) = (Inr (), srv'')"
      "eff i srv (sending data c1) (added @ [(Sqe_Send (c_fd c) data, conn_tag c IOH_OP_SEND)]) srv''"
    | (failed) e c2 srv'' where "(case get_mem w srv' of
         (None, srv) \<Rightarrow> (Inl ENOMEM, upd_conn srv i (\<lambda>c. c\<lparr>c_send_buf := None\<rparr>))
       | (Some _, srv) \<Rightarrow> queue_send w srv i data) = (Inl e, srv'')"
      "eff i srv c2 added srv''" "same_core c c2" "\<not> memory w"
proof -
  obtain p s1 where s1: "get_mem w srv' = (p, s1)" "eff i srv c1 added s1" "memory w \<longrightarrow> p \<noteq> None"
    by (rule get_mem_eff [OF assms(3), where w = w])
  note core = same_core_fields [OF assms(4)]
  show ?thesis
  proof (cases p)
    case None
    then show ?thesis
      using s1 eff_upd [OF assms(2) s1(2), of "\<lambda>c. c\<lparr>c_send_buf := None\<rparr>"] same_core_buf [OF assms(4), of None]
      by (intro failed [of ENOMEM "upd_conn s1 i (\<lambda>c. c\<lparr>c_send_buf := None\<rparr>)" "c1\<lparr>c_send_buf := None\<rparr>"]) simp_all
  next
    case (Some a)
    obtain s2 where "queue_send w s1 i data = (Inr (), s2)"
      "eff i srv (sending data c1) (added @ [(Sqe_Send (c_fd c1) data, conn_tag c1 IOH_OP_SEND)]) s2"
      by (rule queue_send_eff [OF assms(1,2) s1(2)])
    moreover have "conn_tag c1 IOH_OP_SEND = conn_tag c IOH_OP_SEND" by (simp add: core)
    ultimately show ?thesis using Some s1(1) by (intro sent [of s2]) (simp_all add: core)
  qed
qed

lemma arm_send_eff:
  assumes "room w" and "slot_ok srv i" and "eff i srv c added srv'" and "\<not> c_send_active c"
  obtains (sent) d c1 srv'' where "arm_send w srv' i data = (Inr (), srv'')" "same_core c c1"
      "eff i srv (sending d c1) (added @ [(Sqe_Send (c_fd c) d, conn_tag c IOH_OP_SEND)]) srv''"
      "c_tls_ctx c = None \<Longrightarrow> d = data"
    | (failed) e c1 srv'' where "arm_send w srv' i data = (Inl e, srv'')" "same_core c c1" "eff i srv c1 added srv''"
      "\<not> (memory w \<and> c_tls_ctx c = None)"
proof -
  note c = eff_conn [OF assms(2,3)]
  note arm = arm_send_def c assms(4) Let_def
  show ?thesis
  proof (cases "if c_tls_done c then c_tls_ctx c else None")
    case None
    then have a: "arm_send w srv' i data = (case get_mem w srv' of
         (None, srv) \<Rightarrow> (Inl ENOMEM, upd_conn srv i (\<lambda>c. c\<lparr>c_send_buf := None\<rparr>))
       | (Some _, srv) \<Rightarrow> queue_send w srv i data)" by (simp add: arm)
    show ?thesis using assms(1-3) same_core_refl
    proof (cases rule: arm_send_plain [where data = data])
      case (sent srv'')
      then show ?thesis using same_core_refl by (intro that(1) [of srv'' c data]) (simp_all add: a)
    next
      case (failed e c2 srv'')
      then show ?thesis by (intro that(2) [of e srv'' c2]) (simp_all add: a)
    qed
  next
    case (Some tls)
    then have tls: "c_tls_ctx c = Some tls" "c_tls_done c" by (auto split: if_splits)
    obtain r tls' where r: "ioh_tls_write (w_wolf w) tls data = (r, tls')" by (rule prod.exhaust)
    define s1 where "s1 = upd_conn srv' i (\<lambda>c. c\<lparr>c_tls_ctx := Some tls'\<rparr>)"
    have s1: "eff i srv (c\<lparr>c_tls_ctx := Some tls'\<rparr>) added s1" unfolding s1_def by (rule eff_upd [OF assms(2,3)])
    have core: "same_core c (c\<lparr>c_tls_ctx := x\<rparr>)" for x using tls by (auto intro: same_coreI)
    show ?thesis
    proof (cases r)
      case (Inl e)
      then show ?thesis using s1 core tls by (intro that(2) [of e s1 "c\<lparr>c_tls_ctx := Some tls'\<rparr>"]) (simp_all add: arm r s1_def)
    next
      case (Inr n)
      show ?thesis
      proof (cases "ioh_tls_get_output tls' = []")
        case True
        then have a: "arm_send w srv' i data = (case get_mem w s1 of
             (None, srv) \<Rightarrow> (Inl ENOMEM, upd_conn srv i (\<lambda>c. c\<lparr>c_send_buf := None\<rparr>))
           | (Some _, srv) \<Rightarrow> queue_send w srv i data)" using Inr tls by (simp add: arm r s1_def)
        show ?thesis using assms(1,2) s1 core
        proof (cases rule: arm_send_plain [where data = data])
          case (sent srv'')
          then show ?thesis using core tls by (intro that(1) [of srv'' "c\<lparr>c_tls_ctx := Some tls'\<rparr>" data]) (simp_all add: a)
        next
          case (failed e c2 srv'')
          then show ?thesis using tls by (intro that(2) [of e srv'' c2]) (simp_all add: a)
        qed
      next
        case False
        define out where "out = ioh_tls_get_output tls'"
        obtain p s2 where s2: "get_mem w s1 = (p, s2)" "eff i srv (c\<lparr>c_tls_ctx := Some tls'\<rparr>) added s2"
          by (rule get_mem_eff [OF s1, where w = w])
        show ?thesis
        proof (cases p)
          case None
          then show ?thesis using s2 core tls Inr False
            by (intro that(2) [of ENOMEM s2 "c\<lparr>c_tls_ctx := Some tls'\<rparr>"]) (simp_all add: arm r s1_def)
        next
          case (Some a)
          define t2 where "t2 = Some (ioh_tls_consume_output tls' (length out))"
          have s3: "eff i srv (c\<lparr>c_tls_ctx := t2\<rparr>) added (upd_conn s2 i (\<lambda>c. c\<lparr>c_tls_ctx := t2\<rparr>))"
            using eff_upd [OF assms(2) s2(2), of "\<lambda>c. c\<lparr>c_tls_ctx := t2\<rparr>"] by simp
          obtain s4 where s4: "queue_send w (upd_conn s2 i (\<lambda>c. c\<lparr>c_tls_ctx := t2\<rparr>)) i out = (Inr (), s4)"
            "eff i srv (sending out (c\<lparr>c_tls_ctx := t2\<rparr>)) (added @ [(Sqe_Send (c_fd c) out, conn_tag (c\<lparr>c_tls_ctx := t2\<rparr>) IOH_OP_SEND)]) s4"
            by (rule queue_send_eff [OF assms(1,2) s3]) simp
          then show ?thesis using Some s2(1) core tls Inr False
            by (intro that(1) [of s4 "c\<lparr>c_tls_ctx := t2\<rparr>" out])
              (simp_all add: arm r s1_def t2_def out_def conn_tag_def)
        qed
      qed
    qed
  qed
qed

subsection \<open>Outcomes\<close>

lemma transition_cases: "transition s c = c \<or> transition s c = c\<lparr>c_state := s\<rparr>"
  by (simp add: transition_def transition_allowed)

lemma transition_fields [simp]:
  "c_id (transition s c) = c_id c" "c_fd (transition s c) = c_fd c" "c_recv (transition s c) = c_recv c"
  "c_recv_buf_size (transition s c) = c_recv_buf_size c" "c_send_active (transition s c) = c_send_active c"
  "c_tls_ctx (transition s c) = c_tls_ctx c" "c_send_buf (transition s c) = c_send_buf c"
  "c_send_len (transition s c) = c_send_len c" "c_send_offset (transition s c) = c_send_offset c"
  using transition_cases [of s c] by auto

lemma transition_live: "s \<noteq> IOH_CONN_FREE \<Longrightarrow> c_state c \<noteq> IOH_CONN_FREE \<Longrightarrow> c_state (transition s c) \<noteq> IOH_CONN_FREE"
  using transition_cases [of s c] by auto

lemma conn_ok_live:
  "c_state c \<noteq> IOH_CONN_FREE \<Longrightarrow>
     conn_ok c \<longleftrightarrow> c_recv_buf_size c = IOH_CONN_RECV_BUF_SIZE \<and> length (c_recv c) \<le> IOH_CONN_RECV_BUF_SIZE"
  by (simp add: conn_ok_def)

lemma idle_iff:
  "idle strict c \<longleftrightarrow> c_state c \<noteq> IOH_CONN_FREE \<and> c_recv_buf_size c = IOH_CONN_RECV_BUF_SIZE \<and>
     length (c_recv c) \<le> IOH_CONN_RECV_BUF_SIZE \<and> \<not> c_send_active c \<and> (strict \<longrightarrow> c_tls_ctx c = None)"
  by (auto simp: idle_def conn_ok_live)

lemma handled_recv:
  assumes "eff i srv c' (recv_entries cfg c2) srv'" and "c_id c' = c_id c" and "idle strict c'"
    and "c_id c2 = c_id c'" and "c_fd c2 = c_fd c'" and "c_recv c2 = c_recv c'" and "c_recv_buf_size c2 = c_recv_buf_size c'"
  shows "handled strict i srv c srv'"
  unfolding handled_def using assms
  by (intro exI [of _ c'] exI [of _ "recv_entries cfg c2"])
    (auto simp: idle_def conn_flight_def entry_ok_def recv_entries_def Let_def)

lemma handled_close:
  assumes "eff i srv (closing c1) [(Sqe_Close fd, conn_tag c1 IOH_OP_CLOSE)] srv'" and "c_id c1 = c_id c" and "idle strict c1"
  shows "handled strict i srv c srv'"
proof -
  let ?c = "closing c1"
  have "c_state ?c \<noteq> IOH_CONN_FREE" using assms(3) by (simp add: closing_def idle_def transition_live)
  with assms show ?thesis unfolding handled_def
    by (intro exI [of _ ?c] exI [of _ "[(Sqe_Close fd, conn_tag c1 IOH_OP_CLOSE)]"])
      (simp add: idle_iff conn_flight_def entry_ok_def conn_ok_live closing_def)
qed

lemma handled_send:
  assumes "eff i srv c' [(Sqe_Send (c_fd c') (drop (c_send_offset c') buf), conn_tag c' IOH_OP_SEND)] srv'" and "c_id c' = c_id c"
    and "c_state c' \<noteq> IOH_CONN_FREE" and "conn_ok c'" and "strict \<longrightarrow> c_tls_ctx c' = None"
    and "c_send_active c'" and "c_send_buf c' = Some buf" and "c_send_len c' = length buf" and "c_send_offset c' \<le> length buf"
  shows "handled strict i srv c srv'"
  unfolding handled_def using assms
  by (intro exI [of _ c'] exI [of _ "[(Sqe_Send (c_fd c') (drop (c_send_offset c') buf), conn_tag c' IOH_OP_SEND)]"])
    (simp add: conn_flight_def entry_ok_def)

lemma handled_none:
  assumes "eff i srv c' [] srv'" and "c_id c' = c_id c" and "idle False c'"
  shows "handled False i srv c srv'"
  unfolding handled_def using assms by (intro exI [of _ c'] exI [of _ "[]"]) (simp add: conn_flight_def idle_def)

lemma handled_trans: "handled strict i srv c1 srv' \<Longrightarrow> c_id c1 = c_id c \<Longrightarrow> handled strict i srv c srv'"
  by (auto simp: handled_def)

lemma handled_eff:
  assumes "slot_ok srv0 i" and "eff i srv0 c0 [] srv" and "handled strict i srv c srv'"
  shows "handled strict i srv0 c srv'"
proof -
  obtain c' added where *: "eff i srv c' added srv'" "c_id c' = c_id c \<and> c_state c' \<noteq> IOH_CONN_FREE \<and> conn_ok c' \<and>
        (\<forall>e\<in>set added. \<exists>op\<in>{IOH_OP_RECV, IOH_OP_SEND, IOH_OP_CLOSE, IOH_OP_TIMEOUT}. snd e = conn_tag c' op) \<and>
        conn_flight strict added c'" using assms(3) unfolding handled_def by blast
  have "eff i srv0 c' added srv'" using assms(2) *(1) by (auto simp: eff_def put_conn_def)
  with *(2) show ?thesis unfolding handled_def by blast
qed

text \<open>The operations that end a handler.\<close>

lemma arm_recv_handled:
  assumes "room w" and "slot_ok srv i" and "eff i srv c' [] srv'" and "idle strict c'" and "c_id c' = c_id c"
  shows "handled strict i srv c (snd (arm_recv w srv' i))"
proof -
  obtain s where "arm_recv w srv' i = (Inr (), s)" "eff i srv c' ([] @ recv_entries (sv_config srv) c') s"
    by (rule arm_recv_eff [OF assms(1-3)])
  then show ?thesis by (auto intro: handled_recv [OF _ assms(5,4)])
qed

lemma arm_close_handled:
  assumes "room w" and "slot_ok srv i" and "eff i srv c' [] srv'" and "idle strict c'" and "c_id c' = c_id c"
  shows "handled strict i srv c (arm_close w srv' i)"
  using handled_close [OF _ assms(5,4)] arm_close_eff [OF assms(1-3)] by simp

lemma idle_core: "idle strict c \<Longrightarrow> same_core c c1 \<Longrightarrow> idle strict c1"
  using same_core_fields [of c c1] by (auto simp: idle_iff)

lemma idle_sending:
  assumes "idle strict c" and "same_core c c1"
  shows "c_state (sending d c1) \<noteq> IOH_CONN_FREE" "conn_ok (sending d c1)" "strict \<longrightarrow> c_tls_ctx (sending d c1) = None"
    "c_id (sending d c1) = c_id c" "c_fd (sending d c1) = c_fd c" "c_recv (sending d c1) = c_recv c" "c_send_active (sending d c1)"
    "c_send_buf (sending d c1) = Some d" "c_send_len (sending d c1) = length d" "c_send_offset (sending d c1) = 0"
  using idle_core [OF assms] same_core_fields [OF assms(2)] by (auto simp: sending_def idle_iff conn_ok_live)

subsection \<open>Requests\<close>

lemma draw_eff: "eff i srv c added srv' \<Longrightarrow> eff i srv c added (snd (draw w srv'))"
  by (auto simp: draw_def eff_env split: prod.splits)

lemma request_id_eff: "eff i srv c added srv' \<Longrightarrow> eff i srv c added (snd (request_id w srv' ctx))"
  by (auto simp: request_id_def Let_def split_beta draw_eff split: option.splits)

lemma route_timeouts_fields [simp]:
  "c_id (route_timeouts m c) = c_id c" "c_fd (route_timeouts m c) = c_fd c" "c_recv (route_timeouts m c) = c_recv c"
  "c_recv_buf_size (route_timeouts m c) = c_recv_buf_size c" "c_send_active (route_timeouts m c) = c_send_active c"
  "c_tls_ctx (route_timeouts m c) = c_tls_ctx c" "c_state (route_timeouts m c) = c_state c"
  by (simp_all add: route_timeouts_def split: option.splits)

lemma serve_request_eff:
  assumes "slot_ok srv i" and "eff i srv c added srv'" and "idle strict c"
  obtains c' where "eff i srv c' added (snd (serve_request w srv' i ctx))" "idle strict c'" "c_id c' = c_id c" "c_recv c' = c_recv c"
proof (cases "sv_router srv'")
  case None
  with assms show ?thesis by (intro that [of c]) (auto simp: serve_request_def split: option.splits)
next
  case (Some router)
  let ?m = "ioh_router_dispatch router (req_method (cx_req ctx)) (req_path (cx_req ctx))"
  from eff_upd [OF assms(1,2), of "route_timeouts ?m"] assms(3) Some show ?thesis
    by (intro that [of "route_timeouts ?m c"]) (simp_all add: serve_request_def Let_def idle_iff)
qed

lemma serve_request_cong:
  assumes "sv_router srv' = sv_router srv" and "sv_on_request srv' = sv_on_request srv"
  shows "fst (serve_request w srv' i ctx) = fst (serve_request w srv i ctx)"
  using assms by (simp add: serve_request_def Let_def split: option.splits)

lemma responses_fit_cong:
  "sv_router srv' = sv_router srv \<Longrightarrow> sv_on_request srv' = sv_on_request srv \<Longrightarrow> responses_fit w srv' = responses_fit w srv"
  by (simp add: responses_fit_def serve_request_cong [of srv' srv])

lemma strict_world_cong:
  "sv_router srv' = sv_router srv \<Longrightarrow> sv_on_request srv' = sv_on_request srv \<Longrightarrow> sv_tls_ctx srv' = sv_tls_ctx srv \<Longrightarrow>
     strict_world w srv' = strict_world w srv"
  by (simp add: strict_world_def responses_fit_cong [of srv' srv])

text \<open>A serialized response is never empty.\<close>

lemma put_headers_nonempty: "put_headers cap out hs = Inr out' \<Longrightarrow> out \<noteq> [] \<Longrightarrow> out' \<noteq> []"
  by (induction hs arbitrary: out) (auto simp: put_text_def split: if_splits)

lemma serialize_nonempty: "ioh_http1_serialize_response resp n \<noteq> Inr []"
proof
  assume "ioh_http1_serialize_response resp n = Inr []"
  then show False
    by (auto simp: ioh_http1_serialize_response_def put_text_def status_line_def Let_def split: if_splits sum.splits
        dest: put_headers_nonempty)
qed

text \<open>The outcome of a dispatch: the received bytes are untouched and nothing is being received.\<close>

definition dispatched :: "bool \<Rightarrow> nat \<Rightarrow> ('e, 's, 'h, 'm) ioh_server \<Rightarrow> 's srv_conn \<Rightarrow> ('e, 's, 'h, 'm) ioh_server \<Rightarrow> bool" where
  "dispatched strict i srv c srv' \<longleftrightarrow>
     (\<exists>c' added. eff i srv c' added srv' \<and> c_id c' = c_id c \<and> c_state c' \<noteq> IOH_CONN_FREE \<and> conn_ok c' \<and> c_recv c' = c_recv c \<and>
        (\<forall>e\<in>set added. \<exists>op\<in>{IOH_OP_SEND, IOH_OP_CLOSE}. snd e = conn_tag c' op) \<and> conn_flight strict added c')"

lemma drop_consumed_handled:
  assumes "slot_ok srv i" and "dispatched strict i srv c srv'" and "n \<le> length (c_recv c)"
  shows "handled strict i srv c (drop_consumed srv' i n)"
proof -
  obtain c' added where *: "eff i srv c' added srv'" "c_id c' = c_id c" "c_state c' \<noteq> IOH_CONN_FREE" "conn_ok c'"
      "c_recv c' = c_recv c" "\<forall>e\<in>set added. \<exists>op\<in>{IOH_OP_SEND, IOH_OP_CLOSE}. snd e = conn_tag c' op" "conn_flight strict added c'"
    using assms(2) unfolding dispatched_def by blast
  define c2 where "c2 = c'\<lparr>c_recv := drop n (c_recv c')\<rparr>"
  have d: "drop_consumed srv' i n = upd_conn srv' i (\<lambda>c. c\<lparr>c_recv := drop n (c_recv c)\<rparr>)"
    using assms(3) *(5) eff_conn [OF assms(1) *(1)] by (simp add: drop_consumed_def)
  have e: "eff i srv c2 added (drop_consumed srv' i n)" unfolding d c2_def by (rule eff_upd [OF assms(1) *(1)])
  have tag: "conn_tag c2 op = conn_tag c' op" for op by (simp add: c2_def)
  have n: "n_ops added c2 op = n_ops added c' op" for op by (simp add: n_ops_def c2_def conn_tag_def)
  have "entry_ok c2 e" if "e \<in> set added" for e
  proof -
    have "entry_ok c' e" using that *(7) by (simp add: conn_flight_def)
    moreover have "snd e \<noteq> conn_tag c2 IOH_OP_RECV" using that *(6) by (auto simp: c2_def)
    ultimately show ?thesis by (simp add: entry_ok_def c2_def conn_tag_def)
  qed
  then have "conn_flight strict added c2" using *(7) by (simp add: conn_flight_def n) (simp add: c2_def)
  moreover have "conn_ok c2" "c_state c2 \<noteq> IOH_CONN_FREE" using *(3,4) by (auto simp: c2_def conn_ok_live)
  moreover have "\<forall>e\<in>set added. \<exists>op\<in>{IOH_OP_RECV, IOH_OP_SEND, IOH_OP_CLOSE, IOH_OP_TIMEOUT}. snd e = conn_tag c2 op"
    using *(6) by (auto simp: c2_def)
  ultimately show ?thesis unfolding handled_def using e *(2) by (intro exI [of _ c2] exI [of _ added]) (simp add: c2_def)
qed

lemma dispatched_none:
  "eff i srv c' [] srv' \<Longrightarrow> c_id c' = c_id c \<Longrightarrow> c_recv c' = c_recv c \<Longrightarrow> idle False c' \<Longrightarrow> dispatched False i srv c srv'"
  unfolding dispatched_def by (intro exI [of _ c'] exI [of _ "[]"]) (simp add: conn_flight_def idle_def)

lemma send_response_dispatched:
  assumes "room w" and "slot_ok srv i" and "eff i srv c1 [] srv'" and "idle strict c1" and "c_id c1 = c_id c" and "c_recv c1 = c_recv c"
    and "strict \<longrightarrow> memory w \<and> \<not> isl (ioh_http1_serialize_response resp 8192)"
  shows "dispatched strict i srv c (snd (send_response w srv' i req resp))"
proof (cases "ioh_http1_serialize_response resp 8192")
  case (Inl e)
  let ?f = "\<lambda>c. c\<lparr>c_keep_alive := req_keep_alive req \<and> rs_status resp < 400\<rparr>"
  from Inl assms(7) have "strict = False" by simp
  with Inl eff_upd [OF assms(2,3), of ?f] assms(4-6) dispatched_none [of i srv "?f c1"] show ?thesis
    by (simp add: send_response_def idle_iff)
next
  case (Inr out)
  then have out: "out \<noteq> []" using serialize_nonempty by blast
  have active: "\<not> c_send_active c1" using assms(4) by (simp add: idle_def)
  show ?thesis using assms(1-3) active
  proof (cases rule: arm_send_eff [where data = out])
    case (sent d c2 srv'')
    let ?f = "\<lambda>c. c\<lparr>c_keep_alive := req_keep_alive req \<and> rs_status resp < 400\<rparr>"
    note s = idle_sending [OF assms(4) sent(2), of d]
    have e: "eff i srv (?f (sending d c2)) [(Sqe_Send (c_fd c1) d, conn_tag c1 IOH_OP_SEND)] (upd_conn srv'' i ?f)"
      using eff_upd [OF assms(2) sent(3), of ?f] by simp
    have "snd (send_response w srv' i req resp) = upd_conn srv'' i ?f" using Inr out sent(1) by (simp add: send_response_def)
    then show ?thesis unfolding dispatched_def using e s assms(5,6)
      by (intro exI [of _ "?f (sending d c2)"] exI [of _ "[(Sqe_Send (c_fd c1) d, conn_tag c1 IOH_OP_SEND)]"])
        (simp add: conn_flight_def entry_ok_def conn_ok_live)
  next
    case (failed e c2 srv'')
    note core = same_core_fields [OF failed(2)] and i = idle_core [OF assms(4) failed(2)]
    have "snd (send_response w srv' i req resp) = arm_close w srv'' i" using Inr out failed(1) by (simp add: send_response_def)
    moreover have "eff i srv (closing c2) [(Sqe_Close (c_fd c2), conn_tag c2 IOH_OP_CLOSE)] (arm_close w srv'' i)"
      using arm_close_eff [OF assms(1,2) failed(3)] by simp
    moreover have "c_state (closing c2) \<noteq> IOH_CONN_FREE" using i by (simp add: closing_def idle_def transition_live)
    ultimately show ?thesis unfolding dispatched_def using i assms(5,6) core
      by (intro exI [of _ "closing c2"] exI [of _ "[(Sqe_Close (c_fd c2), conn_tag c2 IOH_OP_CLOSE)]"])
        (simp add: idle_iff conn_flight_def entry_ok_def conn_ok_live closing_def)
  qed
qed

lemma dispatch_request_dispatched:
  assumes "room w" and "slot_ok srv i" and "eff i srv c [] srv'" and "idle strict c" and "strict \<longrightarrow> strict_world w srv"
  shows "dispatched strict i srv c (snd (dispatch_request w srv' i req))"
proof -
  obtain p s1 where s1: "get_mem w srv' = (p, s1)" "eff i srv c [] s1" "memory w \<longrightarrow> p \<noteq> None"
    by (rule get_mem_eff [OF assms(3), where w = w])
  show ?thesis
  proof (cases p)
    case None
    with s1(3) assms(5) have "strict = False" by (auto simp: strict_world_def)
    with None s1 assms(4) dispatched_none [OF s1(2)] show ?thesis by (simp add: dispatch_request_def ioh_ctx_init_def)
  next
    case (Some a)
    then obtain ctx :: srv_ctx where ctx: "ioh_ctx_init p req ioh_response_init = Inr ctx" by (auto simp: ioh_ctx_init_def)
    obtain ctx1 s2 where s2: "request_id w s1 ctx = (ctx1, s2)" by (rule prod.exhaust)
    have e2: "eff i srv c [] s2" using request_id_eff [OF s1(2), of w ctx] by (simp add: s2)
    obtain rc ctx2 s3 where s3: "serve_request w s2 i ctx1 = ((rc, ctx2), s3)" by (metis surj_pair)
    obtain c3 where c3: "eff i srv c3 [] s3" "idle strict c3" "c_id c3 = c_id c" "c_recv c3 = c_recv c"
      using serve_request_eff [OF assms(2) e2 assms(4), of w ctx1 thesis] by (simp add: s3)
    have "fst (serve_request w srv i ctx1) = (rc, ctx2)"
      using serve_request_cong [of s2 srv w i ctx1] eff_fields [OF e2] by (simp add: s3)
    then have "strict \<longrightarrow> memory w \<and> \<not> isl (ioh_http1_serialize_response (cx_resp ctx2) 8192)"
      using assms(5) unfolding strict_world_def responses_fit_def by (metis snd_conv)
    note send = send_response_dispatched [OF assms(1,2) c3 this, of "cx_req ctx2"]
    have "snd (dispatch_request w srv' i req) = snd (send_response w s3 i (cx_req ctx2) (cx_resp ctx2))"
      by (simp add: dispatch_request_def s1(1) ctx s2 s3 split: prod.splits sum.splits)
    with send show ?thesis by simp
  qed
qed

subsection \<open>Receives\<close>

lemma error_response_fits:
  assumes "(status, msg) \<in> {(431, ''Request Header Fields Too Large''), (413, ''Content Too Large''), (400, ''Bad Request'')}"
  shows "\<not> isl (ioh_http1_serialize_response
     (snd (ioh_response_set_body (ioh_response_init\<lparr>rs_status := status\<rparr>) (Some msg) (length msg))) 512)"
  using assms
  by (elim insertE emptyE; simp only: prod.inject; elim conjE; hypsubst; code_simp)

lemma send_error_handled:
  assumes "room w" and "slot_ok srv i" and "eff i srv c [] srv'" and "idle strict c" and "strict \<longrightarrow> memory w"
    and "(status, msg) \<in> {(431, ''Request Header Fields Too Large''), (413, ''Content Too Large''), (400, ''Bad Request'')}"
  shows "handled strict i srv c (send_error_response w srv' i status msg)"
proof -
  obtain out where out: "ioh_http1_serialize_response
     (snd (ioh_response_set_body (ioh_response_init\<lparr>rs_status := status\<rparr>) (Some msg) (length msg))) 512 = Inr out"
    using error_response_fits [OF assms(6)] by (metis isl_def sumE)
  then have "out \<noteq> []" using serialize_nonempty by blast
  with out have resp: "send_error_response w srv' i status msg =
      upd_conn (snd (arm_send w srv' i out)) i (\<lambda>c. c\<lparr>c_keep_alive := False\<rparr>)"
    by (simp add: send_error_response_def)
  have active: "\<not> c_send_active c" using assms(4) by (simp add: idle_def)
  let ?f = "\<lambda>c :: 'b srv_conn. c\<lparr>c_keep_alive := False\<rparr>"
  show ?thesis using assms(1-3) active
  proof (cases rule: arm_send_eff [where data = out])
    case (sent d c2 srv'')
    note s = idle_sending [OF assms(4) sent(2), of d]
    have "eff i srv (?f (sending d c2)) [(Sqe_Send (c_fd c) d, conn_tag c IOH_OP_SEND)] (upd_conn srv'' i ?f)"
      using eff_upd [OF assms(2) sent(3), of ?f] by simp
    then show ?thesis using s sent(1) resp
      by (intro handled_send [of i srv "?f (sending d c2)" d]) (simp_all add: conn_ok_live conn_tag_def)
  next
    case (failed e c2 srv'')
    have "strict = False" using failed(4) assms(4,5) by (auto simp: idle_def)
    moreover have "eff i srv (?f c2) [] (upd_conn srv'' i ?f)" by (rule eff_upd [OF assms(2) failed(3)])
    ultimately show ?thesis using idle_core [OF assms(4) failed(2)] same_core_fields [OF failed(2)] resp failed(1)
        handled_none [of i srv "?f c2"] by (simp add: idle_iff)
  qed
qed

lemma await_body_handled:
  assumes "room w" and "slot_ok srv i" and "eff i srv c [] srv'" and "idle strict c"
  shows "handled strict i srv c (await_body w srv' i req)"
proof -
  define f where "f = (\<lambda>c :: 'b srv_conn. (case sv_router srv' of
            None \<Rightarrow> c
          | Some router \<Rightarrow>
              (let m = ioh_router_dispatch router (req_method req) (req_path req)
               in case m_opts m of
                    Some opts \<Rightarrow> if m_status m = IOH_MATCH_FOUND then c\<lparr>c_route_body_timeout_ms := ro_body_timeout_ms opts\<rparr> else c
                  | None \<Rightarrow> c))\<lparr>c_timeout_phase := IOH_TIMEOUT_BODY\<rparr>)"
  have "idle strict (f c)" "c_id (f c) = c_id c"
    using assms(4) by (simp_all add: f_def idle_iff Let_def split: option.splits)
  from arm_recv_handled [OF assms(1,2) eff_upd [OF assms(2,3), of f] this] show ?thesis
    by (simp add: await_body_def f_def Let_def)
qed

lemma parse_request_len: "ioh_http1_parse_request sse buf beyond = Inr (n, req) \<Longrightarrow> n \<le> length buf"
  by (auto simp: ioh_http1_parse_request_def Let_def split_beta split: if_splits presult.splits sum.splits)

lemma recv_http_handled:
  assumes "room w" and "slot_ok srv i" and "eff i srv c [] srv'" and "idle strict c" and "strict \<longrightarrow> strict_world w srv"
  shows "handled strict i srv c (recv_http w srv' i beyond)"
proof -
  note c = eff_conn [OF assms(2,3)]
  have mem: "strict \<longrightarrow> memory w" using assms(5) by (simp add: strict_world_def)
  note err = send_error_handled [OF assms(1-4) mem]
  show ?thesis
  proof (cases "length (c_recv c) > unat (sg_max_header_size (sv_config srv'))")
    case True
    with err [of 431 "''Request Header Fields Too Large''"] show ?thesis by (simp add: recv_http_def c)
  next
    case False
    show ?thesis
    proof (cases "ioh_http1_parse_request (w_sse w) (c_recv c) beyond")
      case (Inl e)
      with False err [of 400 "''Bad Request''"] arm_recv_handled [OF assms(1-4), of c] show ?thesis by (simp add: recv_http_def c)
    next
      case (Inr r)
      obtain hdr_len req where r: "r = (hdr_len, req)" by (rule prod.exhaust)
      have len: "hdr_len \<le> length (c_recv c)" using Inr parse_request_len by (simp add: r)
      define n where "n = unat (req_content_length req)"
      define req' where "req' = (if n > 0 then req\<lparr>req_body := Some (take n (drop hdr_len (c_recv c)))\<rparr> else req)"
      consider (large) "n > unat (sg_max_body_size (sv_config srv'))"
        | (partial) "\<not> n > unat (sg_max_body_size (sv_config srv'))" "n > 0" "length (c_recv c) - hdr_len < n"
        | (full) "\<not> n > unat (sg_max_body_size (sv_config srv'))" "\<not> (n > 0 \<and> length (c_recv c) - hdr_len < n)" by blast
      then show ?thesis
      proof cases
        case large
        with False Inr err [of 413 "''Content Too Large''"] show ?thesis by (simp add: recv_http_def c r Let_def n_def)
      next
        case partial
        with False Inr await_body_handled [OF assms(1-4), of req] show ?thesis by (simp add: recv_http_def c r Let_def n_def)
      next
        case full
        with len have "hdr_len + n \<le> length (c_recv c)" by auto
        note drop_consumed_handled [OF assms(2) dispatch_request_dispatched [OF assms] this, of req']
        with False Inr full show ?thesis
          by (simp add: recv_http_def c r Let_def n_def [symmetric] req'_def split: if_splits)
      qed
    qed
  qed
qed

lemma enter_protocol_eff:
  assumes "slot_ok srv i" and "eff i srv c [] srv'" and "idle strict c" and "strict \<longrightarrow> strict_world w srv"
  obtains c' where "eff i srv c' [] (enter_protocol w srv' i)" "idle strict c'" "c_id c' = c_id c" "c_recv c' = c_recv c" "c_fd c' = c_fd c"
proof (cases "sv_tls_ctx srv'")
  case None
  from eff_upd [OF assms(1,2), of "transition IOH_CONN_HTTP_ACTIVE"] None assms(3) show ?thesis
    by (intro that [of "transition IOH_CONN_HTTP_ACTIVE c"]) (simp_all add: enter_protocol_def idle_iff transition_live)
next
  case (Some ctx)
  have strict: "\<not> strict" using Some assms(4) eff_fields(3) [OF assms(2)] by (auto simp: strict_world_def)
  obtain p s1 where s1: "get_mem w srv' = (p, s1)" "eff i srv c [] s1" "memory w \<longrightarrow> p \<noteq> None"
    by (rule get_mem_eff [OF assms(2), where w = w])
  let ?f = "\<lambda>c. transition IOH_CONN_TLS_HANDSHAKE (c\<lparr>c_tls_ctx := ioh_tls_conn_create (p \<noteq> None) (w_wolf w) ctx, c_tls_done := False\<rparr>)"
  from eff_upd [OF assms(1) s1(2), of ?f] Some s1(1) assms(3) strict show ?thesis
    by (intro that [of "?f c"]) (simp_all add: enter_protocol_def idle_iff transition_live)
qed

text \<open>The result of a stage: finished, or an idle connection with nothing added.\<close>

definition stage_ok where
  "stage_ok strict i srv c r \<longleftrightarrow>
     (case r of
        Inl srv' \<Rightarrow> handled strict i srv c srv'
      | Inr (srv', _) \<Rightarrow> \<exists>c'. eff i srv c' [] srv' \<and> idle strict c' \<and> c_id c' = c_id c)"

lemma recv_proxy_stage:
  assumes "room w" and "slot_ok srv i" and "eff i srv c [] srv'" and "idle strict c" and "strict \<longrightarrow> strict_world w srv"
  shows "stage_ok strict i srv c (recv_proxy w srv' i beyond)"
proof (cases "c_state c = IOH_CONN_PROXY_HEADER")
  case False
  with assms show ?thesis by (auto simp: recv_proxy_def stage_ok_def Let_def eff_conn [OF assms(2,3)])
next
  case True
  note c = eff_conn [OF assms(2,3)]
  show ?thesis
  proof (cases "ioh_proxy_decode (w_pton w) (c_recv c)")
    case (Inl e)
    then show ?thesis using True arm_recv_handled [OF assms(1-4), of c] arm_close_handled [OF assms(1-4), of c]
      by (auto simp: recv_proxy_def stage_ok_def Let_def c)
  next
    case (Inr r)
    obtain consumed result where r: "r = (consumed, result)" by (rule prod.exhaust)
    define f where "f = (\<lambda>c1 :: 'b srv_conn. c1\<lparr>c_proxy_addr := px_src result, c_proxy_used := True, c_recv := drop consumed (c_recv c)\<rparr>)"
    have e: "eff i srv (f c) [] (upd_conn srv' i f)" by (rule eff_upd [OF assms(2,3)])
    have "idle strict (f c)" using assms(4) by (auto simp: f_def idle_iff)
    from enter_protocol_eff [OF assms(2) e this assms(5)]
    obtain c' where c': "eff i srv c' [] (enter_protocol w (upd_conn srv' i f) i)" "idle strict c'" "c_id c' = c_id c"
      by (auto simp: f_def)
    show ?thesis using True Inr c' arm_recv_handled [OF assms(1,2) c']
      by (auto simp: recv_proxy_def stage_ok_def Let_def c r f_def)
  qed
qed

lemma tls_handshake_handled:
  assumes "room w" and "slot_ok srv i" and "eff i srv c [] srv'" and "idle False c"
  shows "handled False i srv c (tls_handshake_step w srv' i tls)"
proof -
  obtain hs tls1 where hs: "ioh_tls_handshake (w_wolf w) tls = (hs, tls1)" by (rule prod.exhaust)
  define out where "out = ioh_tls_get_output tls1"
  define s1 where "s1 = upd_conn srv' i (\<lambda>c. c\<lparr>c_tls_ctx := Some tls1\<rparr>)"
  have e1: "eff i srv (c\<lparr>c_tls_ctx := Some tls1\<rparr>) [] s1" unfolding s1_def by (rule eff_upd [OF assms(2,3)])
  have i1: "idle False (c\<lparr>c_tls_ctx := Some tls1\<rparr>)" using assms(4) by (simp add: idle_iff)
  let ?f = "\<lambda>c. c\<lparr>c_tls_ctx := Some (ioh_tls_consume_output tls1 (length out))\<rparr>"
  define s2 where "s2 = (if out = [] then s1 else upd_conn (snd (arm_send w s1 i out)) i ?f)"
  let ?g = "\<lambda>c. transition IOH_CONN_HTTP_ACTIVE (c\<lparr>c_tls_done := True, c_timeout_phase := IOH_TIMEOUT_HEADER\<rparr>)"
  have step: "tls_handshake_step w srv' i tls =
      (let rearm = (\<lambda>srv. if c_send_active (conn_at srv i) then srv else snd (arm_recv w srv i))
       in case hs of Inr _ \<Rightarrow> rearm (upd_conn s2 i ?g) | Inl e \<Rightarrow> if e = EAGAIN then rearm s2 else arm_close w s2 i)"
    unfolding tls_handshake_step_def hs prod.case Let_def s2_def s1_def out_def by (rule refl)
  have "(\<exists>c2. eff i srv c2 [] s2 \<and> idle False c2 \<and> c_id c2 = c_id c) \<or>
      (\<exists>c2 d. eff i srv c2 [(Sqe_Send (c_fd c2) d, conn_tag c2 IOH_OP_SEND)] s2 \<and> c_state c2 \<noteq> IOH_CONN_FREE \<and> conn_ok c2 \<and>
         c_id c2 = c_id c \<and> c_send_active c2 \<and> c_send_buf c2 = Some d \<and> c_send_len c2 = length d \<and> c_send_offset c2 = 0)"
  proof (cases "out = []")
    case True
    with e1 i1 show ?thesis by (auto simp: s2_def)
  next
    case False
    have active: "\<not> c_send_active (c\<lparr>c_tls_ctx := Some tls1\<rparr>)" using i1 by (simp add: idle_def)
    show ?thesis using assms(1,2) e1 active
    proof (cases rule: arm_send_eff [where data = out])
      case (sent d c2 s)
      note p = idle_sending [OF i1 sent(2), of d]
      have "eff i srv (?f (sending d c2)) [(Sqe_Send (c_fd c) d, conn_tag c IOH_OP_SEND)] s2"
        using eff_upd [OF assms(2) sent(3), of ?f] sent(1) False by (simp add: s2_def conn_tag_def)
      with p show ?thesis
        by (intro disjI2 exI [of _ "?f (sending d c2)"] exI [of _ d]) (simp add: conn_ok_live conn_tag_def)
    next
      case (failed e c2 s)
      have "eff i srv (?f c2) [] s2" using eff_upd [OF assms(2) failed(3), of ?f] failed(1) False by (simp add: s2_def)
      with idle_core [OF i1 failed(2)] same_core_fields [OF failed(2)] show ?thesis
        by (intro disjI1 exI [of _ "?f c2"]) (simp add: idle_iff)
    qed
  qed
  then consider (none) c2 where "eff i srv c2 [] s2" "idle False c2" "c_id c2 = c_id c"
    | (sent) c2 d where "eff i srv c2 [(Sqe_Send (c_fd c2) d, conn_tag c2 IOH_OP_SEND)] s2" "c_state c2 \<noteq> IOH_CONN_FREE" "conn_ok c2"
        "c_id c2 = c_id c" "c_send_active c2" "c_send_buf c2 = Some d" "c_send_len c2 = length d" "c_send_offset c2 = 0"
    by blast
  then show ?thesis
  proof cases
    case none
    have e3: "eff i srv (?g c2) [] (upd_conn s2 i ?g)" by (rule eff_upd [OF assms(2) none(1)])
    have i3: "idle False (?g c2)" "c_id (?g c2) = c_id c" using none by (simp_all add: idle_iff transition_live)
    have "\<not> c_send_active (conn_at s2 i)" "\<not> c_send_active (conn_at (upd_conn s2 i ?g) i)"
      using none(2) by (simp_all add: eff_conn [OF assms(2) none(1)] eff_conn [OF assms(2) e3] idle_def)
    with arm_recv_handled [OF assms(1,2) none] arm_recv_handled [OF assms(1,2) e3 i3] arm_close_handled [OF assms(1,2) none]
    show ?thesis unfolding step by (simp add: Let_def split: sum.splits)
  next
    case sent
    have e3: "eff i srv (?g c2) [(Sqe_Send (c_fd c2) d, conn_tag c2 IOH_OP_SEND)] (upd_conn s2 i ?g)"
      by (rule eff_upd [OF assms(2) sent(1)])
    have active: "c_send_active (conn_at s2 i)" "c_send_active (conn_at (upd_conn s2 i ?g) i)"
      using sent(5) by (simp_all add: eff_conn [OF assms(2) sent(1)] eff_conn [OF assms(2) e3])
    have h2: "handled False i srv c s2" using sent by (intro handled_send [of i srv c2 d]) simp_all
    have "c_state (?g c2) \<noteq> IOH_CONN_FREE" using sent(2) by (simp add: transition_live)
    then have h3: "handled False i srv c (upd_conn s2 i ?g)" using sent e3
      by (intro handled_send [of i srv "?g c2" d]) (simp_all add: conn_ok_live conn_tag_def)
    have "eff i srv (closing c2) [(Sqe_Send (c_fd c2) d, conn_tag c2 IOH_OP_SEND), (Sqe_Close (c_fd c2), conn_tag c2 IOH_OP_CLOSE)]
        (arm_close w s2 i)" using arm_close_eff [OF assms(1,2) sent(1)] by simp
    moreover have "c_state (closing c2) \<noteq> IOH_CONN_FREE" using sent(2) by (simp add: closing_def transition_live)
    ultimately have "handled False i srv c (arm_close w s2 i)" unfolding handled_def using sent
      by (intro exI [of _ "closing c2"] exI [of _ "[(Sqe_Send (c_fd c2) d, conn_tag c2 IOH_OP_SEND), (Sqe_Close (c_fd c2), conn_tag c2 IOH_OP_CLOSE)]"])
        (simp add: conn_flight_def entry_ok_def conn_ok_live closing_def)
    with h2 h3 active show ?thesis unfolding step by (simp add: Let_def split: sum.splits)
  qed
qed

lemma recv_tls_stage:
  assumes "room w" and "slot_ok srv i" and "eff i srv c [] srv'" and "idle strict c"
  shows "stage_ok strict i srv c (recv_tls w srv' i beyond)"
proof (cases "c_tls_ctx c")
  case None
  with assms show ?thesis by (auto simp: recv_tls_def stage_ok_def Let_def eff_conn [OF assms(2,3)])
next
  case (Some tls)
  note c = eff_conn [OF assms(2,3)]
  from Some assms(4) have strict: "strict = False" by (auto simp: idle_def)
  define tls1 where "tls1 = snd (ioh_tls_feed_input tls (c_recv c))"
  let ?f = "\<lambda>c. c\<lparr>c_tls_ctx := Some tls1, c_recv := []\<rparr>"
  define s1 where "s1 = upd_conn srv' i ?f"
  have e1: "eff i srv (?f c) [] s1" unfolding s1_def by (rule eff_upd [OF assms(2,3)])
  have i1: "idle False (?f c)" "c_id (?f c) = c_id c" using assms(4) by (simp_all add: idle_iff)
  show ?thesis
  proof (cases "c_tls_done c")
    case False
    have "recv_tls w srv' i beyond = Inl (tls_handshake_step w s1 i tls1)"
      using False Some by (simp add: recv_tls_def c Let_def s1_def tls1_def)
    with handled_trans [OF tls_handshake_handled [OF assms(1,2) e1 i1(1)] i1(2)] strict show ?thesis by (simp add: stage_ok_def)
  next
    case True
    obtain r tls2 where r: "ioh_tls_read (w_wolf w) tls1 8192 = (r, tls2)" by (rule prod.exhaust)
    let ?g = "\<lambda>c. c\<lparr>c_tls_ctx := Some tls2\<rparr>"
    define s2 where "s2 = upd_conn s1 i ?g"
    have e2: "eff i srv (?g (?f c)) [] s2" unfolding s2_def by (rule eff_upd [OF assms(2) e1])
    have i2: "idle False (?g (?f c))" "c_id (?g (?f c)) = c_id c" using i1 by (simp_all add: idle_iff)
    note tls = recv_tls_def c Let_def s1_def [symmetric] tls1_def [symmetric] r s2_def [symmetric] Some True
    show ?thesis
    proof (cases r)
      case (Inl e)
      with arm_recv_handled [OF assms(1,2) e2 i2] arm_close_handled [OF assms(1,2) e2 i2] strict
      show ?thesis by (simp add: tls stage_ok_def)
    next
      case (Inr plain)
      let ?h = "\<lambda>c. c\<lparr>c_recv := plain\<rparr>"
      have e3: "eff i srv (?h (?g (?f c))) [] (upd_conn s2 i ?h)" by (rule eff_upd [OF assms(2) e2])
      have "idle False (?h (?g (?f c)))" if "length plain \<le> c_recv_buf_size c" using i2(1) that by (simp add: idle_iff)
      with e2 e3 i2 Inr strict show ?thesis
        by (cases "length plain \<le> c_recv_buf_size c") (auto simp: tls stage_ok_def)
    qed
  qed
qed

end
