(* ===== verification/Server_Steps.thy ===== *)
theory Server_Steps
  imports Server_Flight
begin

text \<open>
  The server as a system of steps: the invariant over all connections, its preservation by every completion and by the
  beginning of a shutdown, and the properties of every reachable state.
\<close>

subsection \<open>The invariant\<close>

definition conn_ops :: "ioh_op_type set" where
  "conn_ops = {IOH_OP_RECV, IOH_OP_SEND, IOH_OP_CLOSE, IOH_OP_TIMEOUT}"

definition ids_below :: "(srv_sqe \<times> u64) list \<Rightarrow> u32 \<Rightarrow> bool" where
  "ids_below sq next_id \<longleftrightarrow>
     (\<forall>e\<in>set sq. \<exists>(cid :: u32) op. snd e = IOH_ENCODE_USERDATA (ucast cid) op \<and> (op \<in> conn_ops \<longrightarrow> cid < next_id))"

lemma ids_below_append: "ids_below (xs @ ys) n \<longleftrightarrow> ids_below xs n \<and> ids_below ys n"
  by (auto simp: ids_below_def)

lemma ids_below_conn:
  "\<forall>e\<in>set sq. \<exists>op\<in>conn_ops. snd e = conn_tag c op \<Longrightarrow> c_id c < n \<Longrightarrow> ids_below sq n"
  unfolding ids_below_def conn_tag_def by blast

text \<open>The invariant, except for the operations of the connections in a set.  The number bounds the identifiers given out so far.\<close>

definition others_inv :: "('e, 's, 'h) world \<Rightarrow> bool \<Rightarrow> nat \<Rightarrow> nat set \<Rightarrow> ('e, 's, 'h, 'm) ioh_server \<Rightarrow> bool" where
  "others_inv w strict N X srv \<longleftrightarrow>
     (strict \<longrightarrow> strict_world w srv) \<and> unat (cp_next_id (sv_pool srv)) \<le> N \<and> pool_inv (sv_pool srv) \<and> ids_inv (sv_pool srv) \<and> \<not> sv_fault srv \<and> ids_below (sv_sq srv) (cp_next_id (sv_pool srv)) \<and>
     (\<forall>j\<in>live_slots (sv_pool srv) - X. conn_flight strict (sv_sq srv) (conn_at srv j))"

definition flight_inv :: "('e, 's, 'h) world \<Rightarrow> bool \<Rightarrow> nat \<Rightarrow> ('e, 's, 'h, 'm) ioh_server \<Rightarrow> bool" where
  "flight_inv w strict N srv \<longleftrightarrow> others_inv w strict N {} srv"

lemma live_slot_ok: "i \<in> live_slots (sv_pool srv) \<Longrightarrow> slot_ok srv i \<and> c_state (conn_at srv i) \<noteq> IOH_CONN_FREE"
  by (simp add: live_slots_def slot_ok_def)

lemma ids_inv_put:
  "ids_inv pool \<Longrightarrow> i \<in> live_slots pool \<Longrightarrow> c_state c \<noteq> IOH_CONN_FREE \<Longrightarrow> c_id c = c_id (cp_conns pool ! i) \<Longrightarrow> ids_inv (put_conn pool i c)"
  by (auto simp: ids_inv_def live_slots_def put_conn_def nth_list_update)

text \<open>Entries of other connections do not matter.\<close>

lemma flight_foreign:
  assumes "\<forall>e\<in>set added. \<forall>op\<in>{IOH_OP_RECV, IOH_OP_SEND, IOH_OP_CLOSE}. snd e \<noteq> conn_tag c op" and "conn_flight strict sq c"
  shows "conn_flight strict (sq @ added) c"
proof -
  have "n_ops added c op = 0" if "op \<in> {IOH_OP_RECV, IOH_OP_SEND, IOH_OP_CLOSE}" for op
    using that assms(1) by (auto simp: n_ops_0)
  moreover have "\<forall>e\<in>set added. entry_ok c e" using assms(1) by (auto simp: entry_ok_def)
  ultimately show ?thesis using assms(2) by (auto simp: conn_flight_def)
qed

lemma flight_remove:
  assumes "\<forall>op\<in>{IOH_OP_RECV, IOH_OP_SEND, IOH_OP_CLOSE}. snd e \<noteq> conn_tag c op" and "conn_flight strict (pre @ e # post) c"
  shows "conn_flight strict (pre @ post) c"
  using assms by (auto simp: conn_flight_def)

lemma flight_prepend:
  assumes "n_ops sq c IOH_OP_RECV = 0" and "n_ops sq c IOH_OP_SEND = 0" and "conn_flight strict added c"
  shows "conn_flight strict (sq @ added) c"
proof -
  have "\<forall>e\<in>set sq. entry_ok c e" using assms(1,2) by (simp add: n_ops_0 entry_ok_def)
  with assms show ?thesis by (auto simp: conn_flight_def)
qed

lemma eff_inv:
  assumes inv: "others_inv w strict N {i} srv" and i: "i \<in> live_slots (sv_pool srv)" and eff: "eff i srv c' added srv'"
    and c': "c_id c' = c_id (conn_at srv i)" "c_state c' \<noteq> IOH_CONN_FREE" "conn_ok c'" "conn_flight strict (sv_sq srv @ added) c'"
    and added: "\<forall>e\<in>set added. \<exists>op\<in>conn_ops. snd e = conn_tag c' op"
  shows "flight_inv w strict N srv'"
proof -
  note f = eff_fields [OF eff]
  have ids: "ids_inv (sv_pool srv)" using inv by (simp add: others_inv_def)
  have live: "live_slots (sv_pool srv') = live_slots (sv_pool srv)" unfolding f(9) by (rule live_slots_put [OF i c'(2)])
  have other: "conn_at srv' j = conn_at srv j" if "j \<noteq> i" for j using that unfolding f(9) by (simp add: put_conn_def)
  have "conn_flight strict (sv_sq srv') (conn_at srv' j)" if j: "j \<in> live_slots (sv_pool srv)" for j
  proof (cases "j = i")
    case True
    with c'(4) eff_conn [OF _ eff] live_slot_ok [OF i] show ?thesis by (simp add: f(8))
  next
    case False
    have "c_id (conn_at srv j) \<noteq> c_id (conn_at srv i)" using ids i j False by (auto simp: ids_inv_def)
    then have "\<forall>e\<in>set added. \<forall>op\<in>{IOH_OP_RECV, IOH_OP_SEND, IOH_OP_CLOSE}. snd e \<noteq> conn_tag (conn_at srv j) op"
      using added c'(1) by force
    moreover have "conn_flight strict (sv_sq srv) (conn_at srv j)" using inv j False by (simp add: others_inv_def)
    ultimately show ?thesis unfolding f(8) other [OF False] by (rule flight_foreign)
  qed
  moreover have "c_id c' < cp_next_id (sv_pool srv)" using c'(1) ids i by (simp add: ids_inv_def)
  then have "ids_below (sv_sq srv @ added) (cp_next_id (sv_pool srv))"
    using inv ids_below_conn [OF added] by (simp add: others_inv_def ids_below_append)
  moreover have "pool_inv (sv_pool srv')" unfolding f(9) using inv i c' by (intro pool_inv_put) (simp_all add: others_inv_def)
  moreover have "ids_inv (sv_pool srv')" unfolding f(9) using ids i c'(1,2) by (intro ids_inv_put) simp_all
  moreover have "strict_world w srv' = strict_world w srv" using f by (intro strict_world_cong) simp_all
  ultimately show ?thesis using inv by (simp add: flight_inv_def others_inv_def live f(5,7,8))
qed

lemma handled_inv:
  assumes "others_inv w strict N {i} srv" and "i \<in> live_slots (sv_pool srv)"
    and "n_ops (sv_sq srv) (conn_at srv i) IOH_OP_RECV = 0" and "n_ops (sv_sq srv) (conn_at srv i) IOH_OP_SEND = 0"
    and "handled strict i srv (conn_at srv i) srv'"
  shows "flight_inv w strict N srv'"
proof -
  obtain c' added where h: "eff i srv c' added srv'" "c_id c' = c_id (conn_at srv i)" "c_state c' \<noteq> IOH_CONN_FREE" "conn_ok c'"
    "\<forall>e\<in>set added. \<exists>op\<in>{IOH_OP_RECV, IOH_OP_SEND, IOH_OP_CLOSE, IOH_OP_TIMEOUT}. snd e = conn_tag c' op" "conn_flight strict added c'"
    using assms(5) unfolding handled_def by blast
  have "n_ops (sv_sq srv) c' op = n_ops (sv_sq srv) (conn_at srv i) op" for op using h(2) by (simp add: n_ops_def conn_tag_def)
  with assms(3,4) have "conn_flight strict (sv_sq srv @ added) c'" by (intro flight_prepend [OF _ _ h(6)]) simp_all
  with h show ?thesis by (intro eff_inv [OF assms(1,2) h(1)]) (simp_all add: conn_ops_def)
qed

lemma closing_inv:
  assumes "room w" and inv: "flight_inv w strict N srv" and i: "i \<in> live_slots (sv_pool srv)"
  shows "flight_inv w strict N (arm_close w srv i)"
proof -
  let ?c = "conn_at srv i"
  have ok: "slot_ok srv i" "c_state ?c \<noteq> IOH_CONN_FREE" using live_slot_ok [OF i] by simp_all
  have conn: "conn_ok ?c" using inv i by (auto simp: flight_inv_def others_inv_def pool_inv_def live_slots_def)
  have fl: "conn_flight strict (sv_sq srv) ?c" using inv i by (simp add: flight_inv_def others_inv_def)
  have eff: "eff i srv (closing ?c) [(Sqe_Close (c_fd ?c), conn_tag ?c IOH_OP_CLOSE)] (arm_close w srv i)"
    using arm_close_eff [OF assms(1) ok(1) eff_refl [OF ok(1)]] by simp
  have live: "c_state (closing ?c) \<noteq> IOH_CONN_FREE" using ok(2) by (simp add: closing_def transition_live)
  have "n_ops sq (closing ?c) op = n_ops sq ?c op" "entry_ok (closing ?c) e = entry_ok ?c e" for sq op e
    by (simp_all add: n_ops_def entry_ok_def closing_def conn_tag_def)
  then have "conn_flight strict (sv_sq srv @ [(Sqe_Close (c_fd ?c), conn_tag ?c IOH_OP_CLOSE)]) (closing ?c)"
    using fl by (auto simp: conn_flight_def) (auto simp: closing_def entry_ok_def)
  with live conn ok(2) inv show ?thesis
    by (intro eff_inv [OF _ i eff])
      (auto simp: flight_inv_def others_inv_def conn_ops_def conn_ok_live closing_def)
qed

subsection \<open>Completions\<close>

text \<open>What the kernel may answer to an entry.\<close>

definition answers :: "srv_sqe \<times> u64 \<Rightarrow> srv_cqe \<Rightarrow> bool" where
  "answers e cqe \<longleftrightarrow>
     ce_ud cqe = snd e \<and>
     (case fst e of
        Sqe_Recv fd off n \<Rightarrow> ce_res cqe > 0 \<longrightarrow> length (ce_data cqe) = nat (ce_res cqe) \<and> nat (ce_res cqe) \<le> n
      | Sqe_Send fd data \<Rightarrow> nat (ce_res cqe) \<le> length data
      | _ \<Rightarrow> True)"

lemma find_conn_cases:
  obtains (found) i where "find_conn_by_id srv cid = Some i" "i \<in> live_slots (sv_pool srv)" "c_id (conn_at srv i) = cid"
  | (missing) "find_conn_by_id srv cid = None" "\<forall>i\<in>live_slots (sv_pool srv). c_id (conn_at srv i) \<noteq> cid"
proof (cases "find_conn_by_id srv cid")
  case None
  then show ?thesis by (intro missing) (auto simp: find_conn_by_id_def find_index_None live_slots_def)
next
  case (Some i)
  then have f: "find_index (\<lambda>c. c_state c \<noteq> IOH_CONN_FREE \<and> c_id c = cid) (cp_conns (sv_pool srv)) = Some i"
    by (simp add: find_conn_by_id_def)
  from find_index_SomeD [OF f] Some show ?thesis by (intro found) (auto simp: live_slots_def)
qed

text \<open>A completed entry is taken away; what is left satisfies the invariant except for the connection it belonged to.\<close>

lemma ids_below_subset: "set sq \<subseteq> set sq' \<Longrightarrow> ids_below sq' n \<Longrightarrow> ids_below sq n"
  unfolding ids_below_def by blast

lemma taken_inv:
  assumes inv: "flight_inv w strict N srv" and sq: "sv_sq srv = pre @ e # post"
    and X: "\<forall>j\<in>live_slots (sv_pool srv) - X. \<forall>op\<in>{IOH_OP_RECV, IOH_OP_SEND, IOH_OP_CLOSE}. snd e \<noteq> conn_tag (conn_at srv j) op"
  shows "others_inv w strict N X (srv\<lparr>sv_sq := pre @ post\<rparr>)"
proof -
  have "ids_below (pre @ post) n" if "ids_below (sv_sq srv) n" for n
    by (rule ids_below_subset [OF _ that]) (auto simp: sq)
  moreover have "conn_flight strict (pre @ post) (conn_at srv j)" if "j \<in> live_slots (sv_pool srv) - X" for j
  proof (rule flight_remove)
    show "\<forall>op\<in>{IOH_OP_RECV, IOH_OP_SEND, IOH_OP_CLOSE}. snd e \<noteq> conn_tag (conn_at srv j) op" using X that by blast
    show "conn_flight strict (pre @ e # post) (conn_at srv j)"
      using inv that by (simp add: flight_inv_def others_inv_def sq [symmetric])
  qed
  moreover have "strict_world w (srv\<lparr>sv_sq := pre @ post\<rparr>) = strict_world w srv" by (rule strict_world_cong) simp_all
  ultimately show ?thesis using inv by (simp add: flight_inv_def others_inv_def)
qed

lemma other_tag:
  assumes "ids_inv (sv_pool srv)" and "i \<in> live_slots (sv_pool srv)" and "ud = conn_tag (conn_at srv i) op"
  shows "\<forall>j\<in>live_slots (sv_pool srv) - {i}. \<forall>op'. ud \<noteq> conn_tag (conn_at srv j) op'"
  using assms by (auto simp: ids_inv_def)

lemma live_conn_facts:
  assumes "flight_inv w strict N srv" and "i \<in> live_slots (sv_pool srv)"
  shows "conn_flight strict (sv_sq srv) (conn_at srv i)" "conn_ok (conn_at srv i)" "c_state (conn_at srv i) \<noteq> IOH_CONN_FREE"
    "slot_ok srv i"
  using assms live_slot_ok [OF assms(2)]
  by (auto simp: flight_inv_def others_inv_def pool_inv_def live_slots_def)

text \<open>Taking the receive or the send of a connection leaves it without either.\<close>

lemma taken_idle:
  assumes inv: "flight_inv w strict N srv" and i: "i \<in> live_slots (sv_pool srv)" and sq: "sv_sq srv = pre @ e # post"
    and e: "snd e = conn_tag (conn_at srv i) op" and op: "op \<in> {IOH_OP_RECV, IOH_OP_SEND}"
  shows "others_inv w strict N {i} (srv\<lparr>sv_sq := pre @ post\<rparr>)"
    "n_ops (pre @ post) (conn_at srv i) IOH_OP_RECV = 0" "n_ops (pre @ post) (conn_at srv i) IOH_OP_SEND = 0"
    "entry_ok (conn_at srv i) e"
proof -
  note c = live_conn_facts [OF inv i]
  have "ids_inv (sv_pool srv)" using inv by (simp add: flight_inv_def others_inv_def)
  from other_tag [OF this i e] show "others_inv w strict N {i} (srv\<lparr>sv_sq := pre @ post\<rparr>)" by (intro taken_inv [OF inv sq]) auto
  show "n_ops (pre @ post) (conn_at srv i) IOH_OP_RECV = 0" "n_ops (pre @ post) (conn_at srv i) IOH_OP_SEND = 0"
    "entry_ok (conn_at srv i) e"
    using c(1) e op by (auto simp: conn_flight_def sq)
qed

lemma handle_recv_inv:
  assumes room: "room w" and inv: "flight_inv w strict N srv"
    and sq: "sv_sq srv = pre @ e # post" and cqe: "answers e cqe"
    and tag: "snd e = IOH_ENCODE_USERDATA (ucast (cid :: u32)) IOH_OP_RECV"
  shows "flight_inv w strict N (handle_recv w (srv\<lparr>sv_sq := pre @ post\<rparr>) True cqe)"
proof -
  let ?srv = "srv\<lparr>sv_sq := pre @ post\<rparr>"
  note tag = tag_facts [OF tag]
  have dec: "ucast (IOH_DECODE_ID (ce_ud cqe)) = cid" using cqe tag(2) by (simp add: answers_def)
  show ?thesis
  proof (cases rule: find_conn_cases [of srv cid])
    case missing
    then have "others_inv w strict N {} ?srv" by (intro taken_inv [OF inv sq]) (auto simp: tag(1))
    moreover have "handle_recv w ?srv True cqe = ?srv" using missing(1) by (simp add: handle_recv_def dec find_conn_by_id_def)
    ultimately show ?thesis by (simp add: flight_inv_def)
  next
    case (found i)
    let ?c = "conn_at srv i"
    note c = live_conn_facts [OF inv found(2)]
    have e: "snd e = conn_tag ?c IOH_OP_RECV" by (simp add: tag(1) found(3))
    note t = taken_idle [OF inv found(2) sq e, simplified]
    have idle: "idle strict ?c" using c(1-3) t(3) by (auto simp: idle_def conn_flight_def sq e)
    have find: "find_conn_by_id ?srv cid = Some i" using found(1) by (simp add: find_conn_by_id_def)
    have ok: "slot_ok ?srv i" using c(4) by (simp add: slot_ok_def)
    have e0: "eff i ?srv ?c [] ?srv" using eff_refl [OF ok] by simp
    have world: "strict \<longrightarrow> strict_world w ?srv" using inv strict_world_cong [of ?srv srv w] by (simp add: flight_inv_def others_inv_def)
    have "handled strict i ?srv ?c (handle_recv w ?srv True cqe)"
    proof (cases "ce_res cqe \<le> 0")
      case True
      with arm_close_handled [OF room ok e0 idle refl] show ?thesis by (simp add: handle_recv_def dec find)
    next
      case False
      define data where "data = ce_data cqe"
      let ?f = "\<lambda>c. c\<lparr>c_recv := c_recv c @ data\<rparr>"
      have "fst e = Sqe_Recv (c_fd ?c) (length (c_recv ?c)) (c_recv_buf_size ?c - length (c_recv ?c))"
        using t(4) e by (simp add: entry_ok_def)
      with cqe False have "length data \<le> c_recv_buf_size ?c - length (c_recv ?c)" by (simp add: answers_def data_def)
      with idle have fits: "length (c_recv ?c) + length data \<le> c_recv_buf_size ?c" by (auto simp: idle_iff)
      have i1: "idle strict (?f ?c)" using idle fits by (auto simp: idle_iff)
      define s1 where "s1 = upd_conn ?srv i ?f"
      have e1: "eff i ?srv (?f ?c) [] s1" unfolding s1_def by (rule eff_upd [OF ok e0])
      have "sv_fault s1 = False" using eff_fields(5) [OF e1] inv by (simp add: flight_inv_def others_inv_def)
      then have fault: "s1\<lparr>sv_fault := (sv_fault s1 \<or> (\<not> True \<or> length (c_recv ?c) + length data > c_recv_buf_size ?c))\<rparr> = s1"
        using fits by simp
      have h: "handle_recv w ?srv True cqe =
        (case recv_proxy w s1 i (ce_after cqe) of
           Inl srv \<Rightarrow> srv
         | Inr (srv, beyond) \<Rightarrow>
             (case recv_tls w srv i beyond of Inl srv \<Rightarrow> srv | Inr (srv, beyond) \<Rightarrow> recv_http w srv i beyond))"
        using False fault by (simp add: handle_recv_def dec find Let_def s1_def data_def)
      note proxy = recv_proxy_stage [OF room ok e1 i1 world, of "ce_after cqe"]
      show ?thesis
      proof (cases "recv_proxy w s1 i (ce_after cqe)")
        case (Inl s2)
        with proxy h show ?thesis by (auto simp: stage_ok_def intro: handled_trans)
      next
        case (Inr r)
        obtain s2 beyond where r: "r = (s2, beyond)" by (rule prod.exhaust)
        with proxy Inr obtain c2 where c2: "eff i ?srv c2 [] s2" "idle strict c2" "c_id c2 = c_id ?c" by (auto simp: stage_ok_def)
        note tls = recv_tls_stage [OF room ok c2(1,2), of beyond]
        show ?thesis
        proof (cases "recv_tls w s2 i beyond")
          case (Inl s3)
          with tls h Inr r c2(3) show ?thesis by (auto simp: stage_ok_def intro: handled_trans)
        next
          case (Inr r')
          obtain s3 beyond' where r': "r' = (s3, beyond')" by (rule prod.exhaust)
          with tls Inr obtain c3 where c3: "eff i ?srv c3 [] s3" "idle strict c3" "c_id c3 = c_id c2" by (auto simp: stage_ok_def)
          with recv_http_handled [OF room ok c3(1,2) world, of beyond'] h Inr r r' \<open>recv_proxy w s1 i (ce_after cqe) = Inr r\<close> c2(3)
          show ?thesis by (auto intro: handled_trans)
        qed
      qed
    qed
    with t found(2) show ?thesis by (intro handled_inv [of w strict N i ?srv]) simp_all
  qed
qed


lemma handle_send_inv:
  assumes room: "room w" and inv: "flight_inv w strict N srv"
    and sq: "sv_sq srv = pre @ e # post" and cqe: "answers e cqe"
    and tag: "snd e = IOH_ENCODE_USERDATA (ucast (cid :: u32)) IOH_OP_SEND"
  shows "flight_inv w strict N (handle_send w (srv\<lparr>sv_sq := pre @ post\<rparr>) cqe)"
proof -
  let ?srv = "srv\<lparr>sv_sq := pre @ post\<rparr>"
  note tag = tag_facts [OF tag]
  have dec: "ucast (IOH_DECODE_ID (ce_ud cqe)) = cid" using cqe tag(2) by (simp add: answers_def)
  show ?thesis
  proof (cases rule: find_conn_cases [of srv cid])
    case missing
    then have "others_inv w strict N {} ?srv" by (intro taken_inv [OF inv sq]) (auto simp: tag(1))
    moreover have "handle_send w ?srv cqe = ?srv" using missing(1) by (simp add: handle_send_def dec find_conn_by_id_def)
    ultimately show ?thesis by (simp add: flight_inv_def)
  next
    case (found i)
    let ?c = "conn_at srv i"
    note c = live_conn_facts [OF inv found(2)]
    have e: "snd e = conn_tag ?c IOH_OP_SEND" by (simp add: tag(1) found(3))
    note t = taken_idle [OF inv found(2) sq e, simplified]
    have find: "find_conn_by_id ?srv cid = Some i" using found(1) by (simp add: find_conn_by_id_def)
    have ok: "slot_ok ?srv i" using c(4) by (simp add: slot_ok_def)
    have e0: "eff i ?srv ?c [] ?srv" using eff_refl [OF ok] by simp
    let ?f = "\<lambda>c. c\<lparr>c_send_active := False\<rparr>"
    define s1 where "s1 = upd_conn ?srv i ?f"
    have e1: "eff i ?srv (?f ?c) [] s1" unfolding s1_def by (rule eff_upd [OF ok e0])
    have i1: "idle strict (?f ?c)" using c(1-3) by (auto simp: idle_iff conn_ok_live conn_flight_def)
    obtain buf where buf: "c_send_buf ?c = Some buf" "c_send_len ?c = length buf" "c_send_offset ?c \<le> length buf"
      "fst e = Sqe_Send (c_fd ?c) (drop (c_send_offset ?c) buf)"
      using t(4) e by (auto simp: entry_ok_def)
    have "handled strict i ?srv ?c (handle_send w ?srv cqe)"
    proof (cases "ce_res cqe < 0")
      case True
      with arm_close_handled [OF room ok e1 i1, of ?c] show ?thesis by (simp add: handle_send_def dec find s1_def [symmetric])
    next
      case False
      define n where "n = nat (ce_res cqe)"
      let ?g = "\<lambda>c. c\<lparr>c_send_offset := c_send_offset c + n\<rparr>"
      define s2 where "s2 = upd_conn s1 i ?g"
      define c2 where "c2 = ?g (?f ?c)"
      have e2: "eff i ?srv c2 [] s2" unfolding s2_def c2_def by (rule eff_upd [OF ok e1])
      have i2: "idle strict c2" "c_id c2 = c_id ?c" using i1 by (simp_all add: c2_def idle_iff)
      have off: "c_send_offset c2 \<le> length buf" "c_send_len c2 = length buf" "c_send_buf c2 = Some buf"
        using cqe buf by (auto simp: answers_def c2_def n_def)
      have h: "handle_send w ?srv cqe = (if c_send_offset c2 < c_send_len c2 then send_rest w s2 i else send_done w s2 i)"
        using False eff_conn [OF ok e2] by (simp add: handle_send_def dec find s1_def [symmetric] Let_def n_def [symmetric] s2_def [symmetric])
      show ?thesis
      proof (cases "c_send_offset c2 < c_send_len c2")
        case True
        obtain s3 where s3: "get_sqe w s2 = (True, s3)" "eff i ?srv c2 [] s3" by (rule get_sqe_eff [OF room e2])
        let ?a = "\<lambda>c. c\<lparr>c_send_active := True\<rparr>"
        have e4: "eff i ?srv (?a c2) [] (upd_conn s3 i ?a)" by (rule eff_upd [OF ok s3(2)])
        note e5 = eff_push [OF e4, of "Sqe_Send (c_fd c2) (drop (c_send_offset c2) buf)" "conn_tag (?a c2) IOH_OP_SEND"]
        have "send_rest w s2 i = push_sqe (upd_conn s3 i ?a) (Sqe_Send (c_fd c2) (drop (c_send_offset c2) buf)) (conn_tag (?a c2) IOH_OP_SEND)"
          using off by (simp add: send_rest_def s3(1) Let_def eff_conn [OF ok e4])
        with True h e5 off i2 show ?thesis
          by (intro handled_send [of i ?srv "?a c2" buf]) (simp_all add: idle_iff conn_ok_live)
      next
        case False
        let ?d = "\<lambda>c. c\<lparr>c_send_buf := None, c_send_len := 0, c_send_offset := 0\<rparr>"
        define s3 where "s3 = upd_conn s2 i ?d"
        have e3: "eff i ?srv (?d c2) [] s3" unfolding s3_def by (rule eff_upd [OF ok e2])
        have i3: "idle strict (?d c2)" "c_id (?d c2) = c_id ?c" using i2 by (simp_all add: idle_iff)
        let ?k = "\<lambda>c. c\<lparr>c_timeout_phase := IOH_TIMEOUT_KEEPALIVE, c_recv := []\<rparr>"
        let ?r = "\<lambda>c. c\<lparr>c_route_body_timeout_ms := 0, c_route_keepalive_timeout_ms := 0\<rparr>"
        have e4: "eff i ?srv (?k (?d c2)) [] (upd_conn s3 i ?k)" by (rule eff_upd [OF ok e3])
        obtain s5 where s5: "arm_recv w (upd_conn s3 i ?k) i = (Inr (), s5)"
          "eff i ?srv (?k (?d c2)) ([] @ recv_entries (sv_config ?srv) (?k (?d c2))) s5" by (rule arm_recv_eff [OF room ok e4])
        have e6: "eff i ?srv (?r (?k (?d c2))) (recv_entries (sv_config ?srv) (?k (?d c2))) (upd_conn s5 i ?r)"
          using eff_upd [OF ok s5(2), of ?r] by simp
        have "handled strict i ?srv ?c (upd_conn s5 i ?r)"
          by (rule handled_recv [OF e6]) (use i2 in \<open>simp_all add: idle_iff\<close>)
        moreover have "send_done w s2 i =
          (if c_state c2 = IOH_CONN_TLS_HANDSHAKE then snd (arm_recv w s3 i)
           else if c_keep_alive c2 \<and> c_state c2 = IOH_CONN_HTTP_ACTIVE then upd_conn s5 i ?r else arm_close w s3 i)"
          using eff_conn [OF ok e3] s5(1) by (simp add: send_done_def s3_def [symmetric] Let_def)
        ultimately show ?thesis using False h arm_recv_handled [OF room ok e3 i3] arm_close_handled [OF room ok e3 i3] by simp
      qed
    qed
    with t found(2) show ?thesis by (intro handled_inv [of w strict N i ?srv]) simp_all
  qed
qed

lemma free_slot_inv:
  assumes inv: "others_inv w strict N {i} srv" and i: "i \<in> live_slots (sv_pool srv)"
  shows "flight_inv w strict N (free_slot srv i)"
proof -
  have p: "pool_inv (sv_pool srv)" "ids_inv (sv_pool srv)" using inv by (simp_all add: others_inv_def)
  note f = ioh_conn_free_contract [OF p(1) i] ids_inv_free [OF p(2) i]
  have "cp_next_id (ioh_conn_free (sv_pool srv) i) = cp_next_id (sv_pool srv)" by (simp add: ioh_conn_free_def)
  moreover have "cp_conns (ioh_conn_free (sv_pool srv) i) ! j = conn_at srv j" if "j \<noteq> i" for j
    using that by (simp add: ioh_conn_free_def)
  moreover have "strict_world w (free_slot srv i) = strict_world w srv" by (rule strict_world_cong) (simp_all add: free_slot_def)
  ultimately show ?thesis using inv f by (simp add: flight_inv_def others_inv_def) (simp add: free_slot_def)
qed

lemma handle_close_inv:
  assumes inv: "flight_inv w strict N srv"
    and sq: "sv_sq srv = pre @ e # post" and cqe: "answers e cqe"
    and tag: "snd e = IOH_ENCODE_USERDATA (ucast (cid :: u32)) IOH_OP_CLOSE"
  shows "flight_inv w strict N (handle_close (srv\<lparr>sv_sq := pre @ post\<rparr>) cqe)"
proof -
  let ?srv = "srv\<lparr>sv_sq := pre @ post\<rparr>"
  note tag = tag_facts [OF tag]
  have dec: "ucast (IOH_DECODE_ID (ce_ud cqe)) = cid" using cqe tag(2) by (simp add: answers_def)
  have ids: "ids_inv (sv_pool srv)" using inv by (simp add: flight_inv_def others_inv_def)
  show ?thesis
  proof (cases rule: find_conn_cases [of srv cid])
    case missing
    then have "others_inv w strict N {} ?srv" by (intro taken_inv [OF inv sq]) (auto simp: tag(1))
    moreover have "handle_close ?srv cqe = ?srv" using missing(1) by (simp add: handle_close_def dec find_conn_by_id_def)
    ultimately show ?thesis by (simp add: flight_inv_def)
  next
    case (found i)
    have e: "snd e = conn_tag (conn_at srv i) IOH_OP_CLOSE" by (simp add: tag(1) found(3))
    have "others_inv w strict N {i} ?srv" using other_tag [OF ids found(2) e] by (intro taken_inv [OF inv sq]) auto
    moreover have "handle_close ?srv cqe = free_slot ?srv i" using found(1) by (simp add: handle_close_def dec find_conn_by_id_def)
    ultimately show ?thesis using found(2) by (simp add: free_slot_inv)
  qed
qed

lemma handle_timeout_inv:
  assumes room: "room w" and inv: "flight_inv w strict N srv"
    and sq: "sv_sq srv = pre @ e # post" and cqe: "answers e cqe"
    and tag: "snd e = IOH_ENCODE_USERDATA (ucast (cid :: u32)) IOH_OP_TIMEOUT"
  shows "flight_inv w strict N (handle_timeout w (srv\<lparr>sv_sq := pre @ post\<rparr>) cqe)"
proof -
  let ?srv = "srv\<lparr>sv_sq := pre @ post\<rparr>"
  note tag = tag_facts [OF tag]
  have inv': "flight_inv w strict N ?srv" unfolding flight_inv_def by (intro taken_inv [OF inv sq]) (auto simp: tag(1))
  show ?thesis
  proof (cases rule: find_conn_cases [of ?srv "ucast (IOH_DECODE_ID (ce_ud cqe))"])
    case missing
    with inv' show ?thesis by (simp add: handle_timeout_def)
  next
    case (found i)
    with inv' closing_inv [OF room inv' found(2)] show ?thesis by (simp add: handle_timeout_def)
  qed
qed

lemma flight_inv_Suc: "flight_inv w strict N srv \<Longrightarrow> flight_inv w strict (Suc N) srv"
  by (simp add: flight_inv_def others_inv_def)

subsection \<open>Accepting\<close>

lemma ids_below_mono: "ids_below sq m \<Longrightarrow> m \<le> n \<Longrightarrow> ids_below sq n"
  unfolding ids_below_def by (meson less_le_trans)

lemma next_id_le: "unat (x :: u32) + 1 < 2 ^ 32 \<Longrightarrow> x < x + 1 \<and> x \<le> x + 1 \<and> unat (x + 1) = Suc (unat x)"
  using unat_increment [of x] by (simp add: word_less_nat_alt word_le_nat_alt)

lemma alloc_cases:
  assumes "ioh_conn_alloc ok pool = (r, pool')"
  obtains (full) "r = None" "pool' = pool"
  | (no_memory) i c where "r = None" "i \<notin> live_slots pool" "i < length (cp_conns pool)" "c_state c = IOH_CONN_FREE"
      "cp_conns pool' = (cp_conns pool)[i := c]" "cp_next_id pool' = cp_next_id pool + 1"
  | (fresh) i where "r = Some i" "i \<notin> live_slots pool" "i < length (cp_conns pool)"
      "cp_conns pool' = (cp_conns pool)[i := free_conn\<lparr>c_state := IOH_CONN_ACCEPTING, c_id := cp_next_id pool,
         c_recv_buf_size := IOH_CONN_RECV_BUF_SIZE\<rparr>]" "cp_next_id pool' = cp_next_id pool + 1"
proof (cases "find_index (\<lambda>c. c_state c = IOH_CONN_FREE) (cp_conns pool)")
  case None
  with assms show ?thesis by (intro full) (auto simp: ioh_conn_alloc_def)
next
  case (Some i)
  note free = find_free_slot [OF Some]
  show ?thesis
  proof (cases ok)
    case True
    with assms Some free show ?thesis by (intro fresh [of i]) (auto simp: ioh_conn_alloc_def Let_def)
  next
    case False
    with assms Some free show ?thesis
      by (intro no_memory [of i "free_conn\<lparr>c_id := cp_next_id pool, c_state := IOH_CONN_FREE\<rparr>"])
        (auto simp: ioh_conn_alloc_def Let_def)
  qed
qed

lemma n_ops_unused:
  assumes "ids_below sq (c_id c)" and "op \<in> conn_ops"
  shows "n_ops sq c op = 0"
  unfolding n_ops_0
proof (intro ballI notI)
  fix e
  assume "e \<in> set sq" and e: "snd e = conn_tag c op"
  then obtain cid :: u32 and op' where t: "snd e = IOH_ENCODE_USERDATA (ucast cid) op'" "op' \<in> conn_ops \<longrightarrow> cid < c_id c"
    using assms(1) unfolding ids_below_def by meson
  from tag_facts(1) [OF t(1), of c op] e t(2) assms(2) show False by simp
qed

lemma push_other_inv:
  assumes inv: "flight_inv w strict N srv" and op: "op \<notin> conn_ops"
  shows "flight_inv w strict N (push_sqe srv sqe (IOH_ENCODE_USERDATA 0 op))"
proof -
  have tag: "IOH_ENCODE_USERDATA 0 op = IOH_ENCODE_USERDATA (ucast (0 :: u32)) op" by simp
  have "conn_flight strict (sv_sq srv @ [(sqe, IOH_ENCODE_USERDATA 0 op)]) c" if "conn_flight strict (sv_sq srv) c" for c :: "'b srv_conn"
    using op by (intro flight_foreign [OF _ that]) (auto simp: tag_facts(1) [OF tag] conn_ops_def)
  moreover have "ids_below [(sqe, IOH_ENCODE_USERDATA 0 op)] n" for n
    unfolding ids_below_def using op by (auto intro!: exI [of _ "0 :: u32"] exI [of _ op])
  moreover have "strict_world w (push_sqe srv sqe (IOH_ENCODE_USERDATA 0 op)) = strict_world w srv"
    by (rule strict_world_cong) (simp_all add: push_sqe_def)
  ultimately show ?thesis using inv by (simp add: flight_inv_def others_inv_def) (simp add: push_sqe_def ids_below_append)
qed

lemma flight_inv_cong:
  assumes "sv_router srv' = sv_router srv" "sv_on_request srv' = sv_on_request srv" "sv_tls_ctx srv' = sv_tls_ctx srv"
    "sv_pool srv' = sv_pool srv" "sv_sq srv' = sv_sq srv" "sv_fault srv' = sv_fault srv"
  shows "flight_inv w strict N srv' = flight_inv w strict N srv"
  using strict_world_cong [OF assms(1-3), of w] by (simp add: flight_inv_def others_inv_def assms(4-))

lemma arm_accept_inv: "room w \<Longrightarrow> flight_inv w strict N srv \<Longrightarrow> flight_inv w strict N (snd (arm_multishot_accept w srv))"
proof -
  assume room: "room w" and inv: "flight_inv w strict N srv"
  obtain ok e where r: "w_get_sqe w (sv_env srv) = (ok, e)" by (rule prod.exhaust)
  with room have "ok" by (metis fst_conv room_def)
  let ?s = "srv\<lparr>sv_env := e\<rparr>"
  have "flight_inv w strict N ?s" using inv by (subst flight_inv_cong [of _ srv]) simp_all
  from push_other_inv [OF this, of IOH_OP_ACCEPT "Sqe_Accept (sv_listen_fd ?s)"]
  have "flight_inv w strict N (push_sqe ?s (Sqe_Accept (sv_listen_fd ?s)) (IOH_ENCODE_USERDATA 0 IOH_OP_ACCEPT))"
    by (simp add: conn_ops_def)
  with \<open>ok\<close> r show ?thesis by (simp add: arm_multishot_accept_def get_sqe_def) (subst flight_inv_cong, simp_all)
qed

lemma alloc_refused_inv:
  assumes inv: "flight_inv w strict N srv" and r: "ioh_conn_alloc ok (sv_pool srv) = (None, pool')"
    and N: "N + 1 < 2 ^ 32"
  shows "flight_inv w strict (Suc N) (srv\<lparr>sv_pool := pool'\<rparr>)"
  using r
proof (cases rule: alloc_cases)
  case full
  with inv show ?thesis by (simp add: flight_inv_Suc)
next
  case (no_memory i c)
  have bound: "unat (cp_next_id (sv_pool srv)) + 1 < 2 ^ 32" using inv N by (simp add: flight_inv_def others_inv_def)
  have p: "pool_inv (sv_pool srv)" "ids_inv (sv_pool srv)" using inv by (simp_all add: flight_inv_def others_inv_def)
  have "pool_inv pool'" and live: "live_slots pool' = live_slots (sv_pool srv)"
    using ioh_conn_alloc_contract [OF p(1) r] by simp_all
  have nth: "cp_conns pool' ! j = conn_at srv j" if "j \<in> live_slots (sv_pool srv)" for j
    using that no_memory(2,5) by (cases "j = i") simp_all
  note le = next_id_le [OF bound]
  have "ids_inv pool'" using p(2) le by (auto simp: ids_inv_def live nth no_memory(6) intro: less_trans)
  moreover have "ids_below (sv_sq srv) (cp_next_id (sv_pool srv)) \<Longrightarrow> ids_below (sv_sq srv) (cp_next_id pool')"
    unfolding no_memory(6) using le by (blast intro: ids_below_mono)
  moreover have "strict_world w (srv\<lparr>sv_pool := pool'\<rparr>) = strict_world w srv" by (rule strict_world_cong) simp_all
  moreover have "unat (cp_next_id pool') \<le> Suc (unat (cp_next_id (sv_pool srv)))"
    using le by (simp add: no_memory(6))
  ultimately show ?thesis using inv \<open>pool_inv pool'\<close> by (simp add: flight_inv_def others_inv_def live nth)
qed simp

lemma alloc_granted_inv:
  assumes inv: "flight_inv w strict N srv" and r: "ioh_conn_alloc ok (sv_pool srv) = (Some i, pool')"
    and N: "N + 1 < 2 ^ 32"
  defines "srv' \<equiv> srv\<lparr>sv_pool := pool'\<rparr>"
  shows "others_inv w strict (Suc N) {i} srv'" "i \<in> live_slots (sv_pool srv')" "idle strict (conn_at srv' i)"
    "n_ops (sv_sq srv') (conn_at srv' i) IOH_OP_RECV = 0" "n_ops (sv_sq srv') (conn_at srv' i) IOH_OP_SEND = 0"
proof -
  have p: "pool_inv (sv_pool srv)" "ids_inv (sv_pool srv)" "ids_below (sv_sq srv) (cp_next_id (sv_pool srv))"
    using inv by (simp_all add: flight_inv_def others_inv_def)
  have bound: "unat (cp_next_id (sv_pool srv)) + 1 < 2 ^ 32" using inv N by (simp add: flight_inv_def others_inv_def)
  have contract: "pool_inv pool'" "ok" "live_slots pool' = insert i (live_slots (sv_pool srv))"
    using ioh_conn_alloc_contract [OF p(1) r] by simp_all
  have "ids_inv pool'" using ids_inv_alloc [OF p(2) bound] r contract(2) by simp
  let ?c = "free_conn\<lparr>c_state := IOH_CONN_ACCEPTING, c_id := cp_next_id (sv_pool srv), c_recv_buf_size := IOH_CONN_RECV_BUF_SIZE\<rparr>"
  have new: "cp_conns pool' ! i = ?c" "cp_next_id pool' = cp_next_id (sv_pool srv) + 1"
    and nth: "\<And>j. j \<noteq> i \<Longrightarrow> cp_conns pool' ! j = conn_at srv j"
    using r by (auto elim!: alloc_cases)
  note le = next_id_le [OF bound]
  have "ids_below (sv_sq srv) (cp_next_id pool')" unfolding new(2) using p(3) le by (blast intro: ids_below_mono)
  moreover have "strict_world w srv' = strict_world w srv" unfolding srv'_def by (rule strict_world_cong) simp_all
  moreover have "unat (cp_next_id pool') \<le> Suc (unat (cp_next_id (sv_pool srv)))" using le by (simp add: new(2))
  ultimately show "others_inv w strict (Suc N) {i} srv'" using inv contract \<open>ids_inv pool'\<close> nth
    by (simp add: flight_inv_def others_inv_def) (simp add: srv'_def)
  show "i \<in> live_slots (sv_pool srv')" by (simp add: srv'_def contract(3))
  show "idle strict (conn_at srv' i)" by (simp add: srv'_def new(1) idle_iff free_conn_def)
  show "n_ops (sv_sq srv') (conn_at srv' i) IOH_OP_RECV = 0" "n_ops (sv_sq srv') (conn_at srv' i) IOH_OP_SEND = 0"
    using p(3) by (auto simp: srv'_def new(1) conn_ops_def intro!: n_ops_unused)
qed

lemma accept_conn_inv:
  assumes room: "room w" and inv: "flight_inv w strict N srv" and N: "N + 1 < 2 ^ 32"
  shows "flight_inv w strict (Suc N) (accept_conn w srv fd)"
proof -
  obtain p e where mem: "w_malloc w (sv_env srv) = (p, e)" by (rule prod.exhaust)
  define s1 where "s1 = srv\<lparr>sv_env := e\<rparr>"
  have inv1: "flight_inv w strict N s1" using inv unfolding s1_def by (subst flight_inv_cong) simp_all
  have get: "get_mem w srv = (p, s1)" by (simp add: get_mem_def mem s1_def)
  obtain r pool' where r: "ioh_conn_alloc (p \<noteq> None) (sv_pool s1) = (r, pool')" by (rule prod.exhaust)
  show ?thesis
  proof (cases r)
    case None
    have "flight_inv w strict (Suc N) (s1\<lparr>sv_pool := pool'\<rparr>)" using alloc_refused_inv [OF inv1 _ N] r None by simp
    then show ?thesis using r None by (simp add: accept_conn_def get close_fd_def) (subst flight_inv_cong, simp_all)
  next
    case (Some i)
    define s2 where "s2 = s1\<lparr>sv_pool := pool'\<rparr>"
    note a = alloc_granted_inv [OF inv1 r [unfolded Some] N, folded s2_def]
    have ok: "slot_ok s2 i" using live_slot_ok [OF a(2)] by simp
    let ?f = "\<lambda>c. c\<lparr>c_fd := fd, c_timeout_phase := IOH_TIMEOUT_HEADER\<rparr>"
    define s3 where "s3 = upd_conn s2 i ?f"
    have e3: "eff i s2 (?f (conn_at s2 i)) [] s3" unfolding s3_def by (rule eff_upd [OF ok eff_refl [OF ok]])
    have i3: "idle strict (?f (conn_at s2 i))" using a(3) by (simp add: idle_iff)
    have world: "strict \<longrightarrow> strict_world w s2" using a(1) by (simp add: others_inv_def)
    define s4 where "s4 = (if sg_proxy_protocol (sv_config s3) then upd_conn s3 i (transition IOH_CONN_PROXY_HEADER) else enter_protocol w s3 i)"
    have "\<exists>c4. eff i s2 c4 [] s4 \<and> idle strict c4 \<and> c_id c4 = c_id (conn_at s2 i)"
    proof (cases "sg_proxy_protocol (sv_config s3)")
      case True
      with eff_upd [OF ok e3, of "transition IOH_CONN_PROXY_HEADER"] i3 show ?thesis
        by (intro exI [of _ "transition IOH_CONN_PROXY_HEADER (?f (conn_at s2 i))"]) (simp add: s4_def idle_iff transition_live)
    next
      case False
      obtain c4 where "eff i s2 c4 [] (enter_protocol w s3 i)" "idle strict c4" "c_id c4 = c_id (?f (conn_at s2 i))"
        by (rule enter_protocol_eff [OF ok e3 i3 world])
      with False show ?thesis by (auto simp: s4_def)
    qed
    then obtain c4 where c4: "eff i s2 c4 [] s4" "idle strict c4" "c_id c4 = c_id (conn_at s2 i)" by blast
    obtain s5 where s5: "arm_recv w s4 i = (Inr (), s5)" by (rule arm_recv_eff [OF room ok c4(1)])
    have "accept_conn w srv fd = s5"
      using r Some s5
      by (cases "sg_proxy_protocol (sv_config s3)")
        (simp_all add: accept_conn_def get Let_def s2_def [symmetric] s3_def [symmetric] s4_def)
    with handled_inv [OF a(1,2,4,5)] arm_recv_handled [OF room ok c4] s5 show ?thesis by simp
  qed
qed

lemma handle_accept_inv:
  assumes "room w" and "flight_inv w strict N srv" and "N + 1 < 2 ^ 32"
  shows "flight_inv w strict (Suc N) (handle_accept w srv cqe)"
proof -
  let ?s = "if ce_res cqe \<ge> 0 then accept_conn w srv (ce_res cqe) else srv"
  have s: "flight_inv w strict (Suc N) ?s" using accept_conn_inv [OF assms] flight_inv_Suc [OF assms(2)] by simp
  then have "flight_inv w strict (Suc N) (?s\<lparr>sv_accepting := False\<rparr>)" by (subst flight_inv_cong) simp_all
  with s arm_accept_inv [OF assms(1) this] show ?thesis unfolding handle_accept_def Let_def by simp
qed

subsection \<open>Steps of the system\<close>

text \<open>
  A step takes an operation in flight and handles its completion; a multishot accept stays in flight when its
  completion says so.  The other two steps are the beginning of a shutdown.
\<close>

inductive srv_step ::
  "('e, 's, 'h) world \<Rightarrow> ('e, 's, 'h, 'm) ioh_server \<Rightarrow> ('e, 's, 'h, 'm) ioh_server \<Rightarrow> bool" for w where
  complete: "sv_sq srv = pre @ e # post \<Longrightarrow> answers e cqe \<Longrightarrow> srv_step w srv (handle_io w (srv\<lparr>sv_sq := pre @ post\<rparr>) True cqe)"
| again: "e \<in> set (sv_sq srv) \<Longrightarrow> IOH_DECODE_OP (snd e) = op_val IOH_OP_ACCEPT \<Longrightarrow> answers e cqe \<Longrightarrow> ce_more cqe \<Longrightarrow>
     srv_step w srv (handle_io w srv True cqe)"
| immediate: "srv_step w srv (force_close_all (stop_accepting w srv))"
| draining: "srv_step w srv (mark_draining (stop_accepting w srv))"

inductive srv_steps ::
  "('e, 's, 'h) world \<Rightarrow> nat \<Rightarrow> ('e, 's, 'h, 'm) ioh_server \<Rightarrow> ('e, 's, 'h, 'm) ioh_server \<Rightarrow> bool" for w where
  start: "srv_steps w 0 srv srv"
| step: "srv_steps w n srv srv' \<Longrightarrow> srv_step w srv' srv'' \<Longrightarrow> srv_steps w (Suc n) srv srv''"

lemma handle_io_inv:
  assumes room: "room w" and inv: "flight_inv w strict N srv" and N: "N + 1 < 2 ^ 32"
    and sq: "sv_sq srv = pre @ e # post" and cqe: "answers e cqe"
  shows "flight_inv w strict (Suc N) (handle_io w (srv\<lparr>sv_sq := pre @ post\<rparr>) True cqe)"
proof -
  let ?srv = "srv\<lparr>sv_sq := pre @ post\<rparr>"
  have "ids_below (sv_sq srv) (cp_next_id (sv_pool srv))" using inv by (simp add: flight_inv_def others_inv_def)
  then obtain cid :: u32 and op where tag: "snd e = IOH_ENCODE_USERDATA (ucast cid) op" by (auto simp: ids_below_def sq)
  have ud: "IOH_DECODE_OP (ce_ud cqe) = op_val op" using cqe tag_facts(3) [OF tag] by (simp add: answers_def)
  have other: "flight_inv w strict N ?srv" if "op \<notin> {IOH_OP_RECV, IOH_OP_SEND, IOH_OP_CLOSE}"
    unfolding flight_inv_def using that by (intro taken_inv [OF inv sq]) (auto simp: tag_facts(1) [OF tag])
  consider "op = IOH_OP_RECV" | "op = IOH_OP_SEND" | "op = IOH_OP_CLOSE" | "op = IOH_OP_TIMEOUT" | "op = IOH_OP_ACCEPT"
    | "op \<notin> {IOH_OP_RECV, IOH_OP_SEND, IOH_OP_CLOSE, IOH_OP_TIMEOUT, IOH_OP_ACCEPT}" by blast
  then show ?thesis
  proof cases
    case 1
    with handle_recv_inv [OF room inv sq cqe tag [unfolded 1]] show ?thesis
      by (intro flight_inv_Suc) (simp only: handle_io_def Let_def ud op_val_inj, simp)
  next
    case 2
    with handle_send_inv [OF room inv sq cqe tag [unfolded 2]] show ?thesis
      by (intro flight_inv_Suc) (simp only: handle_io_def Let_def ud op_val_inj, simp)
  next
    case 3
    with handle_close_inv [OF inv sq cqe tag [unfolded 3]] show ?thesis
      by (intro flight_inv_Suc) (simp only: handle_io_def Let_def ud op_val_inj, simp)
  next
    case 4
    with handle_timeout_inv [OF room inv sq cqe tag [unfolded 4]] show ?thesis
      by (intro flight_inv_Suc) (simp only: handle_io_def Let_def ud op_val_inj, simp)
  next
    case 5
    with handle_accept_inv [OF room other N, of cqe] show ?thesis unfolding handle_io_def Let_def ud op_val_inj by simp
  next
    case 6
    with other show ?thesis by (intro flight_inv_Suc) (simp only: handle_io_def Let_def ud op_val_inj, simp)
  qed
qed

lemma stop_accepting_inv:
  assumes "room w" and inv: "flight_inv w strict N srv"
  shows "flight_inv w strict N (stop_accepting w srv)"
proof -
  obtain ok e where r: "w_get_sqe w (sv_env srv) = (ok, e)" by (rule prod.exhaust)
  with assms(1) have ok: "ok" by (metis fst_conv room_def)
  let ?s = "srv\<lparr>sv_stopped := True, sv_env := e\<rparr>"
  have "flight_inv w strict N ?s" using inv by (subst flight_inv_cong) simp_all
  from push_other_inv [OF this, of IOH_OP_CANCEL "Sqe_Cancel_Accept (IOH_ENCODE_USERDATA 0 IOH_OP_ACCEPT)"]
  have c: "flight_inv w strict N (push_sqe ?s (Sqe_Cancel_Accept (IOH_ENCODE_USERDATA 0 IOH_OP_ACCEPT)) (IOH_ENCODE_USERDATA 0 IOH_OP_CANCEL))"
    by (simp add: conn_ops_def)
  define s where "s = (if sv_accepting srv then
      (push_sqe ?s (Sqe_Cancel_Accept (IOH_ENCODE_USERDATA 0 IOH_OP_ACCEPT)) (IOH_ENCODE_USERDATA 0 IOH_OP_CANCEL))\<lparr>sv_accepting := False\<rparr>
    else srv\<lparr>sv_stopped := True\<rparr>)"
  have s: "flight_inv w strict N s"
  proof (cases "sv_accepting srv")
    case True
    with c show ?thesis unfolding s_def by simp (subst flight_inv_cong, simp_all)
  next
    case False
    with inv show ?thesis unfolding s_def by simp (subst flight_inv_cong, simp_all)
  qed
  have "stop_accepting w srv = (if sv_listen_fd s \<ge> 0
      then (close_fd s (sv_listen_fd s))\<lparr>sv_listen_fd := -1, sv_listening := False\<rparr> else s)"
    using ok r by (simp add: stop_accepting_def s_def get_sqe_def Let_def)
  moreover have "flight_inv w strict N ((close_fd s fd)\<lparr>sv_listen_fd := -1, sv_listening := False\<rparr>)" for fd
    using s by (subst flight_inv_cong [of _ s]) (simp_all add: close_fd_def)
  ultimately show ?thesis using s by simp
qed

lemma force_close_inv:
  assumes inv: "flight_inv w strict N srv" and i: "i < length (cp_conns (sv_pool srv))"
  shows "flight_inv w strict N (force_close srv i) \<and> length (cp_conns (sv_pool (force_close srv i))) = length (cp_conns (sv_pool srv)) \<and>
    cp_next_id (sv_pool (force_close srv i)) = cp_next_id (sv_pool srv)"
proof (cases "c_state (conn_at srv i) = IOH_CONN_FREE")
  case True
  with inv show ?thesis by (simp add: force_close_def)
next
  case False
  let ?s = "if c_fd (conn_at srv i) \<ge> 0 then close_fd srv (c_fd (conn_at srv i)) else srv"
  have eq: "force_close srv i = free_slot ?s i" "sv_pool ?s = sv_pool srv" using False by (simp_all add: force_close_def close_fd_def)
  have "flight_inv w strict N ?s" using inv by (subst flight_inv_cong [of _ srv]) (simp_all add: close_fd_def)
  then have "others_inv w strict N {i} ?s" by (simp add: flight_inv_def others_inv_def)
  moreover have "i \<in> live_slots (sv_pool ?s)" using False i eq(2) by (simp add: live_slots_def)
  ultimately have "flight_inv w strict N (free_slot ?s i)" by (rule free_slot_inv)
  moreover have "length (cp_conns (sv_pool (free_slot ?s i))) = length (cp_conns (sv_pool srv))"
    "cp_next_id (sv_pool (free_slot ?s i)) = cp_next_id (sv_pool srv)"
    unfolding free_slot_def ioh_conn_free_def using eq(2) by simp_all
  ultimately show ?thesis unfolding eq(1) by blast
qed

text \<open>Loops over all slots.\<close>

lemma slots_fold_inv:
  assumes "\<And>srv i. flight_inv w strict N srv \<Longrightarrow> i < length (cp_conns (sv_pool srv)) \<Longrightarrow>
      flight_inv w strict N (f srv i) \<and> length (cp_conns (sv_pool (f srv i))) = length (cp_conns (sv_pool srv)) \<and>
      cp_next_id (sv_pool (f srv i)) = cp_next_id (sv_pool srv)"
    and "flight_inv w strict N srv" and "\<forall>i\<in>set is. i < length (cp_conns (sv_pool srv))"
  shows "flight_inv w strict N (foldl f srv is) \<and> cp_next_id (sv_pool (foldl f srv is)) = cp_next_id (sv_pool srv)"
  using assms(2,3)
proof (induction "is" arbitrary: srv)
  case (Cons i "is")
  from assms(1) [OF Cons.prems(1), of i] Cons.prems(2) Cons.IH [of "f srv i"] show ?case by simp
qed simp

lemma mark_conn_inv:
  assumes inv: "flight_inv w strict N srv" and i: "i < length (cp_conns (sv_pool srv))"
  defines "mark \<equiv> (\<lambda>c :: 'b srv_conn. (transition IOH_CONN_DRAINING c)\<lparr>c_keep_alive := False\<rparr>)"
  shows "c_state (conn_at srv i) = IOH_CONN_HTTP_ACTIVE \<Longrightarrow> flight_inv w strict N (upd_conn srv i mark)"
proof -
  let ?c = "conn_at srv i"
  assume "c_state ?c = IOH_CONN_HTTP_ACTIVE"
  then have live: "i \<in> live_slots (sv_pool srv)" using i by (simp add: live_slots_def)
  note c = live_conn_facts [OF inv live]
  have eff: "eff i srv (mark ?c) [] (upd_conn srv i mark)" by (rule eff_upd [OF c(4) eff_refl [OF c(4)]])
  have mark: "c_id (mark ?c) = c_id ?c" "c_state (mark ?c) \<noteq> IOH_CONN_FREE" "conn_ok (mark ?c)"
    using c(2,3) by (simp_all add: mark_def transition_live conn_ok_live)
  have "conn_flight strict (sv_sq srv @ []) (mark ?c)"
    using c(1) by (simp add: conn_flight_def n_ops_def entry_ok_def conn_tag_def mark_def)
  with inv mark show ?thesis by (intro eff_inv [OF _ live eff]) (simp_all add: flight_inv_def others_inv_def)
qed

lemma step_inv:
  assumes room: "room w" and inv: "flight_inv w strict N srv" and N: "N + 1 < 2 ^ 32" and step: "srv_step w srv srv'"
  shows "flight_inv w strict (Suc N) srv'"
  using step
proof (cases rule: srv_step.cases)
  case (complete pre e post cqe)
  with handle_io_inv [OF room inv N] show ?thesis by simp
next
  case (again e cqe)
  then have "IOH_DECODE_OP (ce_ud cqe) = op_val IOH_OP_ACCEPT" by (simp add: answers_def)
  then have "handle_io w srv True cqe = handle_accept w srv cqe" by (simp only: handle_io_def Let_def op_val_inj simp_thms if_True)
  with again handle_accept_inv [OF room inv N] show ?thesis by simp
next
  case immediate
  note s = stop_accepting_inv [OF room inv]
  have "flight_inv w strict N (force_close_all (stop_accepting w srv))" unfolding force_close_all_def
    by (rule conjunct1 [OF slots_fold_inv [OF force_close_inv s]]) (auto simp: ioh_conn_pool_capacity_def)
  with immediate show ?thesis by (simp add: flight_inv_Suc)
next
  case draining
  note s = stop_accepting_inv [OF room inv]
  let ?f = "\<lambda>srv i. if c_state (conn_at srv i) = IOH_CONN_HTTP_ACTIVE
      then upd_conn srv i (\<lambda>c. (transition IOH_CONN_DRAINING c)\<lparr>c_keep_alive := False\<rparr>) else srv"
  have f: "flight_inv w strict N (?f srv i) \<and> length (cp_conns (sv_pool (?f srv i))) = length (cp_conns (sv_pool srv)) \<and>
      cp_next_id (sv_pool (?f srv i)) = cp_next_id (sv_pool srv)"
    if "flight_inv w strict N srv" "i < length (cp_conns (sv_pool srv))" for srv :: "('a, 'b, 'c, 'd) ioh_server" and i
    using mark_conn_inv [OF that] that(1) by (simp add: upd_conn_def put_conn_def)
  have "flight_inv w strict N (mark_draining (stop_accepting w srv))" unfolding mark_draining_def
    by (rule conjunct1 [OF slots_fold_inv [OF f s]]) (auto simp: ioh_conn_pool_capacity_def)
  with draining show ?thesis by (simp add: flight_inv_Suc)
qed

lemma steps_inv:
  assumes "srv_steps w n srv srv'" and "room w" and "flight_inv w strict N srv" and "N + n < 2 ^ 32"
  shows "flight_inv w strict (N + n) srv'"
  using assms
proof (induction rule: srv_steps.induct)
  case (step n srv srv' srv'')
  with step_inv [of w strict "N + n" srv' srv''] show ?case by simp
qed simp

lemma created_inv:
  assumes "ioh_server_create ret env cfg = Some srv0" and "strict \<longrightarrow> strict_world w (srv0\<lparr>sv_router := r, sv_on_request := q, sv_tls_ctx := t\<rparr>)"
  shows "flight_inv w strict 1 (srv0\<lparr>sv_router := r, sv_on_request := q, sv_tls_ctx := t\<rparr>)"
proof -
  obtain pool where "ioh_conn_pool_create (sg_max_connections cfg) = Some pool" "sv_pool srv0 = pool" "sv_sq srv0 = []" "\<not> sv_fault srv0"
    using assms(1) by (auto simp: ioh_server_create_def split: sum.splits option.splits)
  with pool_create_inv [OF this(1)] assms(2) show ?thesis by (simp add: flight_inv_def others_inv_def ids_below_def)
qed

lemma listen_inv:
  assumes "room w" and "flight_inv w strict N srv" and "ioh_server_listen w calls srv = (Inr fd, srv')"
  shows "flight_inv w strict N srv'"
proof -
  have "arm_multishot_accept w (srv\<lparr>sv_listen_fd := fd, sv_listening := True\<rparr>) = (Inr (), srv')"
    using assms(3) by (auto simp: ioh_server_listen_def split: if_splits sum.splits prod.splits)
  moreover have "flight_inv w strict N (srv\<lparr>sv_listen_fd := fd, sv_listening := True\<rparr>)"
    using assms(2) by (subst flight_inv_cong) simp_all
  ultimately show ?thesis using arm_accept_inv [OF assms(1)] by (metis snd_conv)
qed

subsection \<open>Properties\<close>



text \<open>A world without failures, with a handler that answers every request with two bytes.\<close>

definition example_response :: ioh_response where
  "example_response = snd (ioh_response_set_body ioh_response_init (Some ''ok'') 2)"

definition example_world :: "(unit, unit, unit) world" where
  "example_world =
     \<lparr>w_get_sqe = (\<lambda>e. (True, e)), w_submit = (\<lambda>e. (0, [], e)), w_wait = (\<lambda>t e. (0, [], e)), w_malloc = (\<lambda>e. (Some 4096, e)),
      w_random = (\<lambda>e. (0, e)),
      w_wolf = \<lparr>wolfSSL_new = None, wolfSSL_UseALPN = (\<lambda>alpn s. None), wolfSSL_accept = (\<lambda>s. Ssl_Return 0 SSL_FATAL [] s),
        wolfSSL_read = (\<lambda>n s. Ssl_Return 0 SSL_FATAL [] s), wolfSSL_write = (\<lambda>buf s. Ssl_Return 0 SSL_FATAL [] s),
        wolfSSL_shutdown = (\<lambda>s. Ssl_Return 0 SSL_FATAL [] s)\<rparr>,
      w_pton = (\<lambda>fam t. Some (replicate 4 nul)), w_sse = False, w_middleware = (\<lambda>_ c. Return 0 c),
      w_handler = (\<lambda>_ c. (0, c\<lparr>cx_resp := example_response\<rparr>))\<rparr>"

definition example_server_config :: ioh_server_config where
  "example_server_config = ioh_server_config_init\<lparr>sg_listen_port := 80, sg_max_connections := 1\<rparr>"

definition example_listen :: listen_calls where
  "example_listen = \<lparr>ls_socket = Inr 3, ls_reuseaddr = Inr (), ls_reuseport = Inr (), ls_bind = Inr (), ls_listen = Inr ()\<rparr>"

definition example_accept :: srv_cqe where
  "example_accept = \<lparr>ce_ud = IOH_ENCODE_USERDATA 0 IOH_OP_ACCEPT, ce_res = 5, ce_more = True, ce_data = [], ce_after = [], ce_signo = 0\<rparr>"

definition example_server :: "(unit, unit, unit, unit) ioh_server" where
  "example_server =
     \<lparr>sv_config = example_server_config, sv_loop_stopped = False,
      sv_pool = \<lparr>cp_conns = [free_conn], cp_active_count = 0, cp_next_id = 1\<rparr>, sv_router = None, sv_tls_ctx = None,
      sv_on_request = None, sv_listen_fd = -1, sv_signal_fd = -1, sv_signo = 0, sv_listening = False, sv_accepting = False,
      sv_stopped = False, sv_sq = [], sv_cq = [], sv_cq_head = 0, sv_cq_seen = 0, sv_closed = [], sv_fault = False, sv_env = ()\<rparr>"

definition example_listening :: "(unit, unit, unit, unit) ioh_server" where
  "example_listening = example_server\<lparr>sv_on_request := Some (), sv_listen_fd := 3, sv_listening := True, sv_accepting := True,
     sv_sq := [(Sqe_Accept 3, IOH_ENCODE_USERDATA 0 IOH_OP_ACCEPT)]\<rparr>"

lemma example_created: "ioh_server_create 0 () example_server_config = Some example_server"
  by (simp add: example_server_def ioh_server_create_def ioh_server_config_validate_def example_server_config_def
      ioh_server_config_init_def ioh_loop_create_def ioh_loop_config_validate_def ioh_loop_config_init_def
      ioh_conn_pool_create_def is_power_of_2_def)

lemma example_listens:
  "ioh_server_listen example_world example_listen (ioh_server_set_on_request (ioh_server_set_router example_server None) (Some ())) =
     (Inr 3, example_listening)"
  by (simp add: example_listening_def ioh_server_listen_def example_listen_def arm_multishot_accept_def get_sqe_def push_sqe_def
      example_world_def example_server_def example_server_config_def ioh_server_config_init_def ioh_server_set_on_request_def
      ioh_server_set_router_def)

lemma example_steps:
  "srv_steps example_world 1 example_listening (handle_io example_world example_listening True example_accept)"
proof -
  have "(Sqe_Accept 3, IOH_ENCODE_USERDATA 0 IOH_OP_ACCEPT) \<in> set (sv_sq example_listening)"
    by (simp add: example_listening_def)
  then have "srv_step example_world example_listening (handle_io example_world example_listening True example_accept)"
    by (rule srv_step.again) (simp_all add: answers_def example_accept_def)
  from srv_steps.step [OF srv_steps.start this] show ?thesis by simp
qed

lemma example_room: "room example_world" "memory example_world"
  by (simp_all add: room_def memory_def example_world_def)

lemma example_fits: "responses_fit example_world (ioh_server_set_on_request (ioh_server_set_router example_server None) (Some ()))"
proof -
  have "\<not> isl (ioh_http1_serialize_response example_response 8192)" by code_simp
  then show ?thesis
    by (simp add: responses_fit_def serve_request_def run_handler_def example_world_def example_server_def ioh_server_set_on_request_def
        ioh_server_set_router_def)
qed

lemma example_live: "0 \<in> live_slots (sv_pool (handle_io example_world example_listening True example_accept))"
  by (simp add: handle_io_def example_accept_def handle_accept_def accept_conn_def get_mem_def example_world_def
      ioh_conn_alloc_def example_listening_def example_server_def upd_conn_def put_conn_def free_conn_def enter_protocol_def
      example_server_config_def ioh_server_config_init_def transition_def transition_allowed arm_recv_def get_sqe_def push_sqe_def
      timeout_ms_for_phase_def live_slots_def Let_def)



end
