(* ===== verification/Server_Answer.thy ===== *)
theory Server_Answer
  imports Server_Steps
begin

text \<open>
  From a received request to the last byte of its response: what one receive completion makes the server submit, the
  transmission over any number of partial sends, rounds of the loop, and the effect of signals.
\<close>

subsection \<open>A request and its response\<close>

lemma find_live:
  assumes "ids_inv (sv_pool srv)" and "i \<in> live_slots (sv_pool srv)"
  shows "find_conn_by_id srv (c_id (conn_at srv i)) = Some i"
proof (cases rule: find_conn_cases [of srv "c_id (conn_at srv i)"])
  case (found j)
  with assms show ?thesis by (auto simp: ids_inv_def)
next
  case missing
  with assms(2) show ?thesis by blast
qed

lemma request_id_req: "cx_req (fst (request_id w srv ctx)) = cx_req ctx"
proof -
  have tag: "cx_req (snd (ioh_ctx_set_header (snd (ioh_ctx_set c k v)) n rid)) = cx_req c" for c :: srv_ctx and k v n rid
    by (auto simp: ioh_ctx_set_header_def on_response_def ioh_ctx_set_def ioh_ctx_set_with_destructor_def split: option.splits)
  show ?thesis by (auto simp: request_id_def Let_def tag split_beta split: option.splits)
qed

text \<open>A dispatched request is answered with the serialized response of whatever serves it.\<close>

lemma dispatch_sends:
  assumes "room w" and "memory w" and "responses_fit w srv" and "slot_ok srv i" and "eff i srv c [] srv'" and "idle True c"
  obtains ctx out c' where "cx_req ctx = req"
    "ioh_http1_serialize_response (cx_resp (snd (fst (serve_request w srv i ctx)))) 8192 = Inr out"
    "eff i srv c' [(Sqe_Send (c_fd c) out, conn_tag c IOH_OP_SEND)] (snd (dispatch_request w srv' i req))"
    "c_id c' = c_id c" "c_fd c' = c_fd c" "c_state c' = c_state c" "c_recv c' = c_recv c" "c_send_buf c' = Some out"
    "c_send_len c' = length out" "c_send_offset c' = 0"
    "c_keep_alive c' = (req_keep_alive (cx_req (snd (fst (serve_request w srv i ctx)))) \<and>
       rs_status (cx_resp (snd (fst (serve_request w srv i ctx)))) < 400)"
proof -
  obtain p s1 where s1: "get_mem w srv' = (p, s1)" "eff i srv c [] s1" "memory w \<longrightarrow> p \<noteq> None"
    by (rule get_mem_eff [OF assms(5), where w = w])
  then obtain ctx0 :: srv_ctx where ctx0: "ioh_ctx_init p req ioh_response_init = Inr ctx0" "cx_req ctx0 = req"
    using assms(2) by (auto simp: ioh_ctx_init_def)
  obtain ctx s2 where s2: "request_id w s1 ctx0 = (ctx, s2)" by (rule prod.exhaust)
  have req: "cx_req ctx = req" using request_id_req [of w s1 ctx0] ctx0(2) by (simp add: s2)
  have e2: "eff i srv c [] s2" using request_id_eff [OF s1(2), of w ctx0] by (simp add: s2)
  obtain rc ctx2 s3 where s3: "serve_request w s2 i ctx = ((rc, ctx2), s3)" by (metis surj_pair)
  have serve: "fst (serve_request w srv i ctx) = (rc, ctx2)"
    using serve_request_cong [of s2 srv w i ctx] eff_fields [OF e2] by (simp add: s3)
  have "\<exists>c3. eff i srv c3 [] s3 \<and> idle True c3 \<and> c_id c3 = c_id c \<and> c_recv c3 = c_recv c \<and> c_fd c3 = c_fd c \<and> c_state c3 = c_state c"
  proof (cases "sv_router s2")
    case None
    then have "s3 = s2" using s3 by (auto simp: serve_request_def split: option.splits)
    with e2 assms(6) show ?thesis by blast
  next
    case (Some router)
    let ?m = "ioh_router_dispatch router (req_method (cx_req ctx)) (req_path (cx_req ctx))"
    have "s3 = upd_conn s2 i (route_timeouts ?m)" using s3 Some by (simp add: serve_request_def Let_def)
    with eff_upd [OF assms(4) e2, of "route_timeouts ?m"] assms(6) show ?thesis
      by (intro exI [of _ "route_timeouts ?m c"]) (simp add: idle_iff)
  qed
  then obtain c3 where c3: "eff i srv c3 [] s3" "idle True c3" "c_id c3 = c_id c" "c_recv c3 = c_recv c" "c_fd c3 = c_fd c"
      "c_state c3 = c_state c" by blast
  obtain out where out: "ioh_http1_serialize_response (cx_resp ctx2) 8192 = Inr out"
    using assms(3) serve unfolding responses_fit_def by (metis isl_def snd_conv sumE)
  then have "out \<noteq> []" using serialize_nonempty by blast
  have active: "\<not> c_send_active c3" and tls: "c_tls_ctx c3 = None" using c3(2) by (simp_all add: idle_def)
  let ?k = "\<lambda>c :: 'b srv_conn. c\<lparr>c_keep_alive := req_keep_alive (cx_req ctx2) \<and> rs_status (cx_resp ctx2) < 400\<rparr>"
  have "\<exists>c4 s4. arm_send w s3 i out = (Inr (), s4) \<and> same_core c3 c4 \<and>
      eff i srv (sending out c4) [(Sqe_Send (c_fd c) out, conn_tag c IOH_OP_SEND)] s4"
    using assms(1,4) c3(1) active
  proof (cases rule: arm_send_eff [where data = out])
    case (sent d c4 s4)
    with tls c3(3,5) show ?thesis by (auto simp: conn_tag_def)
  next
    case (failed e c4 s4)
    with assms(2) tls show ?thesis by simp
  qed
  then obtain c4 s4 where s4: "arm_send w s3 i out = (Inr (), s4)" "same_core c3 c4"
      "eff i srv (sending out c4) [(Sqe_Send (c_fd c) out, conn_tag c IOH_OP_SEND)] s4" by blast
  note p = idle_sending [OF c3(2) s4(2), of out] same_core_fields [OF s4(2)]
  have "snd (dispatch_request w srv' i req) = upd_conn s4 i ?k"
    using \<open>out \<noteq> []\<close> by (simp add: dispatch_request_def s1(1) ctx0(1) s2 s3 send_response_def out s4(1))
  moreover have "eff i srv (?k (sending out c4)) [(Sqe_Send (c_fd c) out, conn_tag c IOH_OP_SEND)] (upd_conn s4 i ?k)"
    by (rule eff_upd [OF assms(4) s4(3)])
  moreover have "c_state (sending out c4) = c_state c" using c3(6) p by (simp add: sending_def)
  ultimately show ?thesis using req out serve p c3 by (intro that [of ctx out "?k (sending out c4)"]) simp_all
qed

text \<open>The completion of the receive of a whole request, on a connection that had nothing buffered.\<close>

lemma recv_request_sends:
  assumes "room w" and "memory w" and "responses_fit w srv" and "ids_inv (sv_pool srv)" and "i \<in> live_slots (sv_pool srv)"
    and "idle True (conn_at srv i)" and "c_state (conn_at srv i) = IOH_CONN_HTTP_ACTIVE" and "c_recv (conn_at srv i) = []"
    and "\<not> sv_fault srv" and "ce_ud cqe = conn_tag (conn_at srv i) IOH_OP_RECV" and "ce_res cqe = int (length (ce_data cqe))"
    and "0 < length (ce_data cqe)" and "length (ce_data cqe) \<le> IOH_CONN_RECV_BUF_SIZE"
    and "length (ce_data cqe) \<le> unat (sg_max_header_size (sv_config srv))"
    and "ioh_http1_parse_request (w_sse w) (ce_data cqe) (ce_after cqe) = Inr (n, req)" and "req_content_length req = 0"
  obtains ctx out c' where "cx_req ctx = req"
    "ioh_http1_serialize_response (cx_resp (snd (fst (serve_request w srv i ctx)))) 8192 = Inr out"
    "eff i srv c' [(Sqe_Send (c_fd (conn_at srv i)) out, conn_tag (conn_at srv i) IOH_OP_SEND)] (handle_recv w srv True cqe)"
    "c_id c' = c_id (conn_at srv i)" "c_fd c' = c_fd (conn_at srv i)" "c_state c' = IOH_CONN_HTTP_ACTIVE"
    "c_send_buf c' = Some out" "c_send_len c' = length out" "c_send_offset c' = 0"
    "c_keep_alive c' = (req_keep_alive (cx_req (snd (fst (serve_request w srv i ctx)))) \<and>
       rs_status (cx_resp (snd (fst (serve_request w srv i ctx)))) < 400)"
proof -
  let ?c = "conn_at srv i" and ?data = "ce_data cqe"
  have ok: "slot_ok srv i" using live_slot_ok [OF assms(5)] by simp
  have find: "find_conn_by_id srv (ucast (IOH_DECODE_ID (ce_ud cqe))) = Some i"
    using find_live [OF assms(4,5)] by (simp add: assms(10) decode_conn_tag)
  let ?f = "\<lambda>c :: 'b srv_conn. c\<lparr>c_recv := c_recv c @ ?data\<rparr>"
  define s1 where "s1 = upd_conn srv i ?f"
  have e1: "eff i srv (?f ?c) [] s1" unfolding s1_def by (rule eff_upd [OF ok eff_refl [OF ok]])
  have i1: "idle True (?f ?c)" using assms(6,8,13) by (simp add: idle_iff)
  have c1: "conn_at s1 i = ?f ?c" by (rule eff_conn [OF ok e1])
  have size: "c_recv_buf_size ?c = IOH_CONN_RECV_BUF_SIZE" "c_tls_ctx ?c = None" using assms(6) by (simp_all add: idle_iff)
  have "s1\<lparr>sv_fault := (sv_fault s1 \<or> False)\<rparr> = s1" by simp
  moreover have "recv_proxy w s1 i b = Inr (s1, b)" "recv_tls w s1 i b = Inr (s1, b)" for b
    using assms(7) size(2) by (simp_all add: recv_proxy_def recv_tls_def c1 Let_def)
  ultimately have h: "handle_recv w srv True cqe = recv_http w s1 i (ce_after cqe)"
    using assms(8,11-13) size(1) by (simp add: handle_recv_def find Let_def s1_def)
  have n: "n \<le> length ?data" using parse_request_len [OF assms(15)] .
  have "sv_config s1 = sv_config srv" by (rule eff_fields(1) [OF e1])
  then have http: "recv_http w s1 i (ce_after cqe) = drop_consumed (snd (dispatch_request w s1 i req)) i n"
    using assms(8,14-16) by (simp add: recv_http_def c1 Let_def)
  obtain ctx out c' where d: "cx_req ctx = req"
    "ioh_http1_serialize_response (cx_resp (snd (fst (serve_request w srv i ctx)))) 8192 = Inr out"
    "eff i srv c' [(Sqe_Send (c_fd (?f ?c)) out, conn_tag (?f ?c) IOH_OP_SEND)] (snd (dispatch_request w s1 i req))"
    "c_id c' = c_id (?f ?c)" "c_fd c' = c_fd (?f ?c)" "c_state c' = c_state (?f ?c)" "c_recv c' = c_recv (?f ?c)"
    "c_send_buf c' = Some out" "c_send_len c' = length out" "c_send_offset c' = 0"
    "c_keep_alive c' = (req_keep_alive (cx_req (snd (fst (serve_request w srv i ctx)))) \<and>
       rs_status (cx_resp (snd (fst (serve_request w srv i ctx)))) < 400)"
    by (rule dispatch_sends [OF assms(1-3) ok e1 i1])
  let ?g = "\<lambda>c :: 'b srv_conn. c\<lparr>c_recv := drop n (c_recv c)\<rparr>"
  have "drop_consumed (snd (dispatch_request w s1 i req)) i n = upd_conn (snd (dispatch_request w s1 i req)) i ?g"
    using n d(7) eff_conn [OF ok d(3)] by (simp add: drop_consumed_def)
  with eff_upd [OF ok d(3), of ?g] d h http assms(7) show ?thesis
    by (intro that [of ctx out "?g c'"]) (simp_all add: conn_tag_def)
qed

subsection \<open>Partial sends\<close>

text \<open>
  The kernel accepts the given numbers of bytes of the send in flight, one completion after the other; the result is what it
  has accepted altogether and the server after that.
\<close>

fun transmit :: "('e, 's, 'h) world \<Rightarrow> ('e, 's, 'h, 'm) ioh_server \<Rightarrow> u64 \<Rightarrow> nat list \<Rightarrow> string \<times> ('e, 's, 'h, 'm) ioh_server" where
  "transmit w srv tag [] = ([], srv)"
| "transmit w srv tag (n # ns) =
     (case last (sv_sq srv) of
        (Sqe_Send fd data, _) \<Rightarrow>
          (case transmit w (handle_send w srv \<lparr>ce_ud = tag, ce_res = int n, ce_more = False, ce_data = [], ce_after = [], ce_signo = 0\<rparr>) tag ns of
             (rest, srv') \<Rightarrow> (take n data @ rest, srv'))
      | _ \<Rightarrow> ([], srv))"

lemma handle_send_partial:
  assumes "room w" and "ids_inv (sv_pool srv)" and "i \<in> live_slots (sv_pool srv)" and "conn_at srv i = c"
    and "c_send_buf c = Some buf" and "c_send_len c = length buf" and "c_send_offset c + n < length buf"
    and "ce_ud cqe = conn_tag c IOH_OP_SEND" and "ce_res cqe = int n"
  shows "eff i srv (c\<lparr>c_send_offset := c_send_offset c + n, c_send_active := True\<rparr>)
      [(Sqe_Send (c_fd c) (drop (c_send_offset c + n) buf), conn_tag c IOH_OP_SEND)] (handle_send w srv cqe)"
proof -
  have ok: "slot_ok srv i" using live_slot_ok [OF assms(3)] by simp
  have find: "find_conn_by_id srv (ucast (IOH_DECODE_ID (ce_ud cqe))) = Some i"
    using find_live [OF assms(2,3)] by (simp add: assms(4,8) decode_conn_tag)
  have e0: "eff i srv c [] srv" using eff_refl [OF ok] by (simp add: assms(4))
  let ?f = "\<lambda>c. c\<lparr>c_send_active := False\<rparr>" and ?g = "\<lambda>c. c\<lparr>c_send_offset := c_send_offset c + n\<rparr>"
  define s2 where "s2 = upd_conn (upd_conn srv i ?f) i ?g"
  have e2: "eff i srv (?g (?f c)) [] s2" unfolding s2_def by (intro eff_upd [OF ok] e0)
  have h: "handle_send w srv cqe = send_rest w s2 i"
    using assms(6,7,9) eff_conn [OF ok e2] by (simp add: handle_send_def find Let_def s2_def)
  obtain s3 where s3: "get_sqe w s2 = (True, s3)" "eff i srv (?g (?f c)) [] s3" by (rule get_sqe_eff [OF assms(1) e2])
  let ?a = "\<lambda>c. c\<lparr>c_send_active := True\<rparr>"
  have e4: "eff i srv (?a (?g (?f c))) [] (upd_conn s3 i ?a)" by (rule eff_upd [OF ok s3(2)])
  have "send_rest w s2 i = push_sqe (upd_conn s3 i ?a) (Sqe_Send (c_fd c) (drop (c_send_offset c + n) buf)) (conn_tag c IOH_OP_SEND)"
    using assms(5) by (simp add: send_rest_def s3(1) Let_def eff_conn [OF ok e4] conn_tag_def)
  moreover have "?a (?g (?f c)) = c\<lparr>c_send_offset := c_send_offset c + n, c_send_active := True\<rparr>" by simp
  ultimately show ?thesis using eff_push [OF e4] h by simp
qed

lemma transmit_all:
  assumes "room w" and "ids_inv (sv_pool srv)" and "i \<in> live_slots (sv_pool srv)" and "conn_at srv i = c"
    and "c_send_buf c = Some buf" and "c_send_len c = length buf"
    and "last (sv_sq srv) = (Sqe_Send (c_fd c) (drop (c_send_offset c) buf), conn_tag c IOH_OP_SEND)"
    and "0 \<notin> set ns" and "c_send_offset c + sum_list ns = length buf"
  shows "fst (transmit w srv (conn_tag c IOH_OP_SEND) ns) = drop (c_send_offset c) buf"
  using assms(2-)
proof (induction ns arbitrary: srv c)
  case (Cons n ns)
  let ?cqe = "\<lparr>ce_ud = conn_tag c IOH_OP_SEND, ce_res = int n, ce_more = False, ce_data = [], ce_after = [], ce_signo = 0\<rparr>"
  show ?case
  proof (cases "c_send_offset c + n < length buf")
    case True
    define c' where "c' = c\<lparr>c_send_offset := c_send_offset c + n, c_send_active := True\<rparr>"
    define s where "s = handle_send w srv ?cqe"
    have ok: "slot_ok srv i" "c_state c \<noteq> IOH_CONN_FREE" using live_slot_ok [OF Cons.prems(2)] Cons.prems(3) by simp_all
    have e: "eff i srv c' [(Sqe_Send (c_fd c) (drop (c_send_offset c + n) buf), conn_tag c IOH_OP_SEND)] s"
      unfolding c'_def s_def by (rule handle_send_partial [OF assms(1) Cons.prems(1-5) True]) simp_all
    note f = eff_fields [OF e]
    have "ids_inv (sv_pool s)" unfolding f(9) using Cons.prems(1-3) ok(2) by (intro ids_inv_put) (simp_all add: c'_def)
    moreover have "i \<in> live_slots (sv_pool s)" unfolding f(9) using live_slots_put [OF Cons.prems(2), of c'] Cons.prems(2) ok(2)
      by (simp add: c'_def)
    moreover have "conn_at s i = c'" by (rule eff_conn [OF ok(1) e])
    ultimately have "fst (transmit w s (conn_tag c' IOH_OP_SEND) ns) = drop (c_send_offset c') buf"
      using Cons.prems(4-) f(8) by (intro Cons.IH) (auto simp: c'_def conn_tag_def)
    then have "fst (transmit w s (conn_tag c IOH_OP_SEND) ns) = drop (c_send_offset c + n) buf" by (simp add: c'_def conn_tag_def)
    moreover have "take n (drop (c_send_offset c) buf) @ drop (c_send_offset c + n) buf = drop (c_send_offset c) buf"
      by (metis add.commute append_take_drop_id drop_drop)
    ultimately show ?thesis using Cons.prems(6)
      by (cases "transmit w s (conn_tag c IOH_OP_SEND) ns") (simp add: s_def)
  next
    case False
    moreover have "c_send_offset c + n + sum_list ns = length buf" using Cons.prems(8) by simp
    ultimately have "sum_list ns = 0" "c_send_offset c + n = length buf" by linarith+
    with Cons.prems(7) have "ns = []" by (cases ns) auto
    with \<open>c_send_offset c + n = length buf\<close> Cons.prems(6) show ?thesis by simp
  qed
qed simp

subsection \<open>Rounds\<close>

text \<open>No handler touches the completion queue or stops the server.\<close>

definition queue :: "('e, 's, 'h, 'm) ioh_server \<Rightarrow> srv_cqe list \<times> nat \<times> nat \<times> nat \<times> bool \<times> ioh_server_config" where
  "queue srv = (sv_cq srv, sv_cq_head srv, sv_cq_seen srv, sv_signo srv, sv_stopped srv, sv_config srv)"

lemma queue_basic [simp]:
  "queue (upd_conn srv i f) = queue srv" "queue (push_sqe srv sqe ud) = queue srv" "queue (close_fd srv fd) = queue srv"
  "queue (free_slot srv i) = queue srv" "queue (srv\<lparr>sv_env := e\<rparr>) = queue srv" "queue (srv\<lparr>sv_fault := b\<rparr>) = queue srv"
  "queue (srv\<lparr>sv_pool := pool\<rparr>) = queue srv" "queue (srv\<lparr>sv_accepting := b\<rparr>) = queue srv"
  by (simp_all add: queue_def upd_conn_def push_sqe_def close_fd_def free_slot_def)

lemma queue_get_sqe: "get_sqe w srv = (ok, srv') \<Longrightarrow> queue srv' = queue srv"
  by (auto simp: get_sqe_def split: prod.splits)

lemma queue_get_mem: "get_mem w srv = (p, srv') \<Longrightarrow> queue srv' = queue srv"
  by (auto simp: get_mem_def split: prod.splits)

lemma queue_arm_accept [simp]: "queue (snd (arm_multishot_accept w srv)) = queue srv"
  by (auto simp: arm_multishot_accept_def queue_get_sqe split: prod.splits bool.splits)

lemma queue_arm_recv: "arm_recv w srv i = (r, srv') \<Longrightarrow> queue srv' = queue srv"
proof -
  have "queue (snd (arm_recv w srv i)) = queue srv"
    by (auto simp: arm_recv_def Let_def dest!: queue_get_sqe split: prod.splits bool.splits)
  then show "arm_recv w srv i = (r, srv') \<Longrightarrow> queue srv' = queue srv" by simp
qed

lemma queue_queue_send: "queue (snd (queue_send w srv i data)) = queue srv"
  by (auto simp: queue_send_def Let_def dest!: queue_get_sqe split: prod.splits bool.splits)

lemma queue_arm_send: "arm_send w srv i data = (r, srv') \<Longrightarrow> queue srv' = queue srv"
proof -
  have "queue (snd (arm_send w srv i data)) = queue srv"
    by (auto simp: arm_send_def Let_def queue_queue_send dest!: queue_get_mem split: prod.splits option.splits sum.splits)
  then show "arm_send w srv i data = (r, srv') \<Longrightarrow> queue srv' = queue srv" by simp
qed

lemma queue_arm_close [simp]: "queue (arm_close w srv i) = queue srv"
  by (auto simp: arm_close_def Let_def dest!: queue_get_sqe split: prod.splits bool.splits)

lemma queue_snd_arm [simp]:
  "queue (snd (arm_recv w srv i)) = queue srv" "queue (snd (arm_send w srv i data)) = queue srv"
  using queue_arm_recv [of w srv i] queue_arm_send [of w srv i data] by (metis prod.collapse)+

lemma queue_send_error [simp]: "queue (send_error_response w srv i status msg) = queue srv"
  by (simp add: send_error_response_def Let_def split: sum.splits)

lemma queue_draw [simp]: "queue (snd (draw w srv)) = queue srv"
  by (simp add: draw_def split: prod.splits)

lemma queue_request_id: "request_id w srv ctx = (ctx', srv') \<Longrightarrow> queue srv' = queue srv"
proof -
  have "queue (snd (request_id w srv ctx)) = queue srv"
    by (simp add: request_id_def Let_def split_beta split: option.splits)
  then show "request_id w srv ctx = (ctx', srv') \<Longrightarrow> queue srv' = queue srv" by simp
qed

lemma queue_serve: "serve_request w srv i ctx = (r, srv') \<Longrightarrow> queue srv' = queue srv"
  by (auto simp: serve_request_def Let_def split: option.splits)

lemma queue_send_response: "queue (snd (send_response w srv i req resp)) = queue srv"
  by (auto simp: send_response_def dest!: queue_arm_send split: prod.splits sum.splits if_splits)

lemma queue_dispatch [simp]: "queue (snd (dispatch_request w srv i req)) = queue srv"
proof -
  obtain p s1 where s1: "get_mem w srv = (p, s1)" by (rule prod.exhaust)
  show ?thesis
  proof (cases "ioh_ctx_init p req ioh_response_init :: errno + srv_ctx")
    case (Inl e)
    with s1 queue_get_mem [OF s1] show ?thesis by (simp add: dispatch_request_def)
  next
    case (Inr ctx)
    obtain ctx1 s2 where s2: "request_id w s1 ctx = (ctx1, s2)" by (rule prod.exhaust)
    obtain rc ctx2 s3 where s3: "serve_request w s2 i ctx1 = ((rc, ctx2), s3)" by (metis surj_pair)
    have "snd (dispatch_request w srv i req) = snd (send_response w s3 i (cx_req ctx2) (cx_resp ctx2))"
      by (simp add: dispatch_request_def s1 Inr s2 s3 split: prod.splits sum.splits)
    with queue_send_response queue_serve [OF s3] queue_request_id [OF s2] queue_get_mem [OF s1] show ?thesis by metis
  qed
qed

lemma queue_enter [simp]: "queue (enter_protocol w srv i) = queue srv"
  by (auto simp: enter_protocol_def dest!: queue_get_mem split: option.splits prod.splits)

lemma queue_recv_proxy:
  "recv_proxy w srv i b = Inl srv' \<Longrightarrow> queue srv' = queue srv" "recv_proxy w srv i b = Inr (srv', b') \<Longrightarrow> queue srv' = queue srv"
  by (auto simp: recv_proxy_def Let_def split: if_splits sum.splits prod.splits)

lemma queue_handshake [simp]: "queue (tls_handshake_step w srv i tls) = queue srv"
  by (auto simp: tls_handshake_step_def Let_def split: prod.splits sum.splits)

lemma queue_recv_tls:
  "recv_tls w srv i b = Inl srv' \<Longrightarrow> queue srv' = queue srv" "recv_tls w srv i b = Inr (srv', b') \<Longrightarrow> queue srv' = queue srv"
  by (auto simp: recv_tls_def Let_def split: if_splits sum.splits prod.splits option.splits)

lemma queue_recv_http [simp]: "queue (recv_http w srv i b) = queue srv"
  by (auto simp: recv_http_def Let_def await_body_def drop_consumed_def split: sum.splits prod.splits)

lemma queue_handle_recv [simp]: "queue (handle_recv w srv fresh cqe) = queue srv"
  by (auto simp: handle_recv_def Let_def dest!: queue_recv_proxy queue_recv_tls split: option.splits sum.splits prod.splits)

lemma queue_handle_send [simp]: "queue (handle_send w srv cqe) = queue srv"
  by (auto simp: handle_send_def send_rest_def send_done_def Let_def dest!: queue_get_sqe split: option.splits prod.splits bool.splits)

lemma queue_handle_accept [simp]: "queue (handle_accept w srv cqe) = queue srv"
  by (auto simp: handle_accept_def accept_conn_def Let_def dest!: queue_get_mem queue_arm_recv split: option.splits prod.splits sum.splits)

lemma queue_handle_io: "queue (handle_io w srv fresh cqe) = queue srv"
  by (auto simp: handle_io_def handle_close_def handle_timeout_def Let_def split: option.splits)

abbreviation is_signal :: "srv_cqe \<Rightarrow> bool" where
  "is_signal cqe \<equiv> IOH_DECODE_OP (ce_ud cqe) = op_val IOH_OP_SIGNAL"

lemma cqe_loop_io:
  assumes "\<forall>k. head \<le> k \<and> k < length (sv_cq srv) \<longrightarrow> \<not> is_signal (sv_cq srv ! k)" and "head \<le> length (sv_cq srv)"
    and "length (sv_cq srv) - head < n"
  shows "\<exists>srv'. cqe_loop n run_once w srv head p = Some (int (p + (length (sv_cq srv) - head)), srv') \<and>
    sv_cq srv' = sv_cq srv \<and> sv_cq_head srv' = sv_cq_head srv + p + (length (sv_cq srv) - head) \<and> sv_stopped srv' = sv_stopped srv"
  using assms
proof (induction n arbitrary: srv head p)
  case (Suc n)
  show ?case
  proof (cases "head < length (sv_cq srv)")
    case True
    define s where "s = handle_io w (srv\<lparr>sv_cq_seen := max (sv_cq_seen srv) (Suc head)\<rparr>) (sv_cq_seen srv \<le> head) (sv_cq srv ! head)"
    have q: "sv_cq s = sv_cq srv" "sv_cq_head s = sv_cq_head srv" "sv_stopped s = sv_stopped srv"
      using queue_handle_io [of w "srv\<lparr>sv_cq_seen := max (sv_cq_seen srv) (Suc head)\<rparr>" "sv_cq_seen srv \<le> head" "sv_cq srv ! head"]
      by (simp_all add: queue_def s_def)
    have loop: "cqe_loop (Suc n) run_once w srv head p = cqe_loop n run_once w s (Suc head) (Suc p)"
      using True Suc.prems(1) by (simp add: Let_def s_def)
    define k where "k = length (sv_cq srv) - Suc head"
    have k: "length (sv_cq srv) - head = Suc k" using True by (simp add: k_def)
    have "\<exists>srv'. cqe_loop n run_once w s (Suc head) (Suc p) = Some (int (Suc p + k), srv') \<and>
        sv_cq srv' = sv_cq s \<and> sv_cq_head srv' = sv_cq_head s + Suc p + k \<and> sv_stopped srv' = sv_stopped s"
      using Suc.IH [of "Suc head" s "Suc p"] Suc.prems True unfolding q(1) k_def by simp
    then show ?thesis unfolding loop k by (simp add: q)
  next
    case False
    with Suc.prems(2) show ?thesis by simp
  qed
qed simp

text \<open>
  A termination signal while a connection is open: the drain loop starts a round inside the round, that round starts from
  the same completion, and so on without end.
\<close>

definition sigterm_pending :: "('e, 's, 'h, 'm) ioh_server \<Rightarrow> bool" where
  "sigterm_pending srv \<longleftrightarrow>
     sv_cq_head srv < length (sv_cq srv) \<and> is_signal (sv_cq srv ! sv_cq_head srv) \<and> ce_res (sv_cq srv ! sv_cq_head srv) > 0 \<and>
     sv_signo srv = SIGTERM \<and> ioh_conn_pool_active (sv_pool srv) > 0 \<and> sg_keepalive_timeout_ms (sv_config srv) > 0"

lemma deliver_fields:
  assumes "\<forall>cqe\<in>set cqes. \<not> is_signal cqe"
  shows "deliver srv cqes = srv\<lparr>sv_cq := sv_cq srv @ cqes\<rparr>"
proof -
  have "foldl (\<lambda>srv cqe. if is_signal cqe \<and> ce_res cqe > 0 then srv\<lparr>sv_signo := ce_signo cqe\<rparr> else srv) s cqes = s"
    for s :: "('a, 'b, 'c, 'd) ioh_server"
    using assms by (induction cqes arbitrary: s) auto
  then show ?thesis by (simp add: deliver_def)
qed

lemma stop_accepting_sigterm: "sigterm_pending srv \<Longrightarrow> sigterm_pending (stop_accepting w srv)"
  by (auto simp: sigterm_pending_def stop_accepting_def Let_def get_sqe_def push_sqe_def close_fd_def split: prod.splits bool.splits)

lemma mark_draining_sigterm: "sigterm_pending srv \<Longrightarrow> sigterm_pending (mark_draining srv)"
proof -
  let ?f = "\<lambda>srv i. if c_state (conn_at srv i) = IOH_CONN_HTTP_ACTIVE
      then upd_conn srv i (\<lambda>c. (transition IOH_CONN_DRAINING c)\<lparr>c_keep_alive := False\<rparr>) else srv"
  have "sigterm_pending (foldl ?f s is) = sigterm_pending s" for s :: "('a, 'b, 'c, 'd) ioh_server" and "is"
    by (induction "is" arbitrary: s)
      (auto simp: sigterm_pending_def upd_conn_def put_conn_def ioh_conn_pool_active_def)
  then show "sigterm_pending srv \<Longrightarrow> sigterm_pending (mark_draining srv)" by (simp add: mark_draining_def)
qed

lemma sigterm_recursion:
  assumes submit: "\<forall>e. 0 \<le> fst (w_submit w e) \<and> (\<forall>cqe\<in>set (fst (snd (w_submit w e))). \<not> is_signal cqe)"
  shows "sigterm_pending srv \<Longrightarrow> \<not> sv_stopped srv \<Longrightarrow> ioh_server_run_once n w srv timeout_ms = None"
proof (induction n arbitrary: srv timeout_ms)
  case (Suc n)
  obtain ret cqes e where r: "w_submit w (sv_env srv) = (ret, cqes, e)" by (metis surj_pair)
  with submit have ret: "\<not> ret < 0" and cqes: "\<forall>cqe\<in>set cqes. \<not> is_signal cqe" by (metis fst_conv not_less, metis fst_conv snd_conv)
  define s where "s = srv\<lparr>sv_env := e, sv_cq := sv_cq srv @ cqes\<rparr>"
  have submit: "ring_submit w srv = (ret, s)" by (simp add: ring_submit_def r deliver_fields [OF cqes] s_def)
  have s: "sigterm_pending s" using Suc.prems(1) by (simp add: sigterm_pending_def s_def nth_append)
  then have wait: "ring_wait w s timeout_ms = (0, s)" by (simp add: ring_wait_def sigterm_pending_def)
  have once: "ioh_server_run_once (Suc n) w srv timeout_ms = cqe_loop n (ioh_server_run_once n w) w s (sv_cq_head s) 0"
    using Suc.prems(2) ret by (simp add: submit wait)
  show ?case
  proof (cases n)
    case 0
    then show ?thesis unfolding once by simp
  next
    case (Suc m)
    define s1 where "s1 = s\<lparr>sv_cq_seen := max (sv_cq_seen s) (Suc (sv_cq_head s))\<rparr>"
    define s2 where "s2 = mark_draining (stop_accepting w s1)"
    have "sigterm_pending s1" using s by (simp add: sigterm_pending_def s1_def)
    then have s2: "sigterm_pending s2" unfolding s2_def by (intro mark_draining_sigterm stop_accepting_sigterm)
    then have s3: "sigterm_pending (s2\<lparr>sv_stopped := False\<rparr>)" by (simp add: sigterm_pending_def)
    have "drain_loop m (ioh_server_run_once n w) s2 0 = None"
    proof (cases m)
      case (Suc k)
      with s2 Suc.IH [OF s3] show ?thesis by (simp add: sigterm_pending_def)
    qed simp
    then have "handle_signal m (ioh_server_run_once n w) w s1 (sv_cq s ! sv_cq_head s) = None"
      using s \<open>sigterm_pending s1\<close> by (simp add: handle_signal_def shutdown_with_def s2_def sigterm_pending_def SIGTERM_def SIGQUIT_def)
    then have "cqe_loop (Suc m) (ioh_server_run_once n w) w s (sv_cq_head s) 0 = None"
      using s by (simp add: Let_def s1_def [symmetric] sigterm_pending_def)
    then show ?thesis unfolding once Suc [symmetric] .
  qed
qed simp

subsection \<open>Properties\<close>



end
