(* ===== verification/Multipart.thy ===== *)
theory Multipart
  imports Request "HOL-Library.Sublist"
begin

text \<open>
  The parser of multipart form data, \<^verbatim>\<open>src/http/ioh_multipart.c\<close>.

  The pointers of a part into the body are the texts they delimit.  A scan with a pointer is a recursion on the
  text that starts at it; the loop over the parts terminates because every round moves past a delimiter.
\<close>

record ioh_multipart_part =
  mp_name :: "string option"
  mp_filename :: "string option"
  mp_content_type :: "string option"
  mp_data :: string

record ioh_multipart_config =
  mc_max_parts :: nat
  mc_max_part_size :: nat
  mc_max_total_size :: nat

definition ioh_multipart_config_init :: ioh_multipart_config where
  "ioh_multipart_config_init =
     \<lparr>mc_max_parts = 64, mc_max_part_size = 10 * 1024 * 1024, mc_max_total_size = 50 * 1024 * 1024\<rparr>"

subsection \<open>Scanning\<close>

definition ci_prefix :: "string \<Rightarrow> string \<Rightarrow> bool" where
  "ci_prefix str pre \<longleftrightarrow> length pre \<le> length str \<and> ci_eq (take (length pre) str) pre"

text \<open>The first position from which a text satisfies a predicate.\<close>

primrec find_at :: "(string \<Rightarrow> bool) \<Rightarrow> string \<Rightarrow> nat option" where
  "find_at P [] = (if P [] then Some 0 else None)"
| "find_at P (c # cs) = (if P (c # cs) then Some 0 else map_option Suc (find_at P cs))"

definition find_bytes :: "string \<Rightarrow> string \<Rightarrow> nat option" where
  "find_bytes haystack needle =
     (if needle = [] then Some 0
      else if length needle > length haystack then None
      else find_at (\<lambda>s. take (length needle) s = needle) haystack)"

definition unquoted_end :: "char \<Rightarrow> bool" where
  "unquoted_end c \<longleftrightarrow> c = CHR '';'' \<or> c = CHR '' '' \<or> c = tab \<or> c = cr \<or> c = lf"

definition extract_param :: "string \<Rightarrow> string \<Rightarrow> string option" where
  "extract_param str key =
     (case find_at (\<lambda>s. ci_prefix s key) str of
        None \<Rightarrow> None
      | Some i \<Rightarrow>
          (case drop (i + length key) str of
             [] \<Rightarrow> None
           | c # cs \<Rightarrow>
               if c = dquote then Some (takeWhile (\<lambda>c. c \<noteq> dquote) cs)
               else Some (takeWhile (\<lambda>c. \<not> unquoted_end c) (c # cs))))"

subsection \<open>Headers of a part\<close>

definition blank :: "char \<Rightarrow> bool" where
  "blank c \<longleftrightarrow> c = CHR '' '' \<or> c = tab"

text \<open>The scan for the end of a line stops one byte before the end when there is no line end.\<close>

fun line_len :: "string \<Rightarrow> nat" where
  "line_len (a # b # cs) = (if a = cr \<and> b = lf then 0 else Suc (line_len (b # cs)))"
| "line_len _ = 0"

definition set_some :: "'a option \<Rightarrow> 'a option \<Rightarrow> 'a option" where
  "set_some r old = (case r of None \<Rightarrow> old | Some x \<Rightarrow> Some x)"

definition parse_disposition :: "string \<Rightarrow> ioh_multipart_part \<times> bool \<Rightarrow> ioh_multipart_part \<times> bool" where
  "parse_disposition line = (\<lambda>(part, found).
     if ci_prefix line ''content-disposition:'' then
       (let val = dropWhile blank (drop 20 line)
        in (part\<lparr>mp_name := set_some (extract_param val ''name='') (mp_name part),
                 mp_filename := set_some (extract_param val ''filename='') (mp_filename part)\<rparr>, True))
     else (part, found))"

definition parse_type :: "string \<Rightarrow> ioh_multipart_part \<times> bool \<Rightarrow> ioh_multipart_part \<times> bool" where
  "parse_type line = (\<lambda>(part, found).
     if ci_prefix line ''content-type:'' then
       (let val = dropWhile blank (drop 13 line)
        in (part\<lparr>mp_content_type := Some (rev (dropWhile blank (rev val)))\<rparr>, found))
     else (part, found))"

function header_lines :: "string \<Rightarrow> ioh_multipart_part \<times> bool \<Rightarrow> ioh_multipart_part \<times> bool" where
  "header_lines p st =
     (if p = [] then st
      else
        (let line = take (line_len p) p;
             st = parse_type line (parse_disposition line st);
             rest = drop (line_len p) p
         in if take 2 rest = [cr, lf] then header_lines (drop 2 rest) st else st))"
  by pat_completeness auto

termination
  by (relation "measure (\<lambda>(p, st). length p)") auto

declare header_lines.simps [simp del]

definition parse_part_headers :: "string \<Rightarrow> ioh_multipart_part \<Rightarrow> errno + ioh_multipart_part" where
  "parse_part_headers headers part =
     (case header_lines headers (part, False) of (part, found_disposition) \<Rightarrow> if found_disposition then Inr part else Inl EINVAL)"

subsection \<open>Boundary and parts\<close>

definition ioh_multipart_boundary :: "string \<Rightarrow> errno + string" where
  "ioh_multipart_boundary content_type =
     (let content_type = cstr content_type
      in if \<not> ci_prefix content_type ''multipart/form-data'' then Inl EINVAL
         else case extract_param content_type ''boundary='' of
                None \<Rightarrow> Inl EINVAL
              | Some boundary \<Rightarrow> if boundary = [] then Inl EINVAL else Inr boundary)"

definition strip_crlf :: "string \<Rightarrow> string" where
  "strip_crlf data =
     (if 2 \<le> length data \<and> drop (length data - 2) data = [cr, lf] then take (length data - 2) data else data)"

text \<open>The length of the list of parts is \<^verbatim>\<open>*part_count\<close>.\<close>

function part_loop ::
  "ioh_multipart_config \<Rightarrow> nat \<Rightarrow> string \<Rightarrow> string \<Rightarrow> nat \<Rightarrow> ioh_multipart_part list \<Rightarrow> (unit, ioh_multipart_part list) outcome" where
  "part_loop cfg max_parts delim pos total_data parts =
     (if pos = [] then (Inr (), parts)
      else case find_bytes pos [cr, lf, cr, lf] of
             None \<Rightarrow> (Inl EINVAL, parts)
           | Some headers_len \<Rightarrow>
               (let data_start = drop (headers_len + 4) pos
                in case find_bytes data_start delim of
                     None \<Rightarrow> (Inl EINVAL, parts)
                   | Some data_len \<Rightarrow>
                       (let data = strip_crlf (take data_len data_start); total_data = total_data + length data
                        in if length data > mc_max_part_size cfg then (Inl E2BIG, parts)
                           else if total_data > mc_max_total_size cfg then (Inl E2BIG, parts)
                           else if length parts \<ge> max_parts \<or> length parts \<ge> mc_max_parts cfg then (Inl E2BIG, parts)
                           else
                             (case parse_part_headers (take headers_len pos)
                                     \<lparr>mp_name = None, mp_filename = None, mp_content_type = None, mp_data = data\<rparr> of
                                Inl e \<Rightarrow> (Inl e, parts)
                              | Inr part \<Rightarrow>
                                  (let parts = parts @ [part]; pos = drop (data_len + length delim) data_start
                                   in if take 2 pos = ''--'' then (Inr (), parts)
                                      else if take 2 pos \<noteq> [cr, lf] then (Inl EINVAL, parts)
                                      else part_loop cfg max_parts delim (drop 2 pos) total_data parts)))))"
  by pat_completeness auto

termination
  by (relation "measure (\<lambda>(cfg, max_parts, delim, pos, total_data, parts). length pos)") auto

declare part_loop.simps [simp del]

text \<open>The result, \<^verbatim>\<open>*part_count\<close> afterwards (its value before is the capacity of the array) and the parts filled in.\<close>

definition ioh_multipart_parse ::
  "string \<Rightarrow> string \<Rightarrow> ioh_multipart_config \<Rightarrow> nat \<Rightarrow> (errno + unit) \<times> nat \<times> ioh_multipart_part list" where
  "ioh_multipart_parse body boundary cfg max_parts =
     (if length body > mc_max_total_size cfg then (Inl E2BIG, max_parts, [])
      else if body = [] then (Inr (), 0, [])
      else if length boundary > 256 then (Inl EINVAL, 0, [])
      else
        (let delim = ''--'' @ boundary
         in case find_bytes body delim of
              None \<Rightarrow> (Inl EINVAL, 0, [])
            | Some start \<Rightarrow>
                (let pos = drop (start + length delim) body
                 in if length pos < 2 then (Inl EINVAL, 0, [])
                    else if take 2 pos = ''--'' then (Inr (), 0, [])
                    else if take 2 pos \<noteq> [cr, lf] then (Inl EINVAL, 0, [])
                    else case part_loop cfg max_parts delim (drop 2 pos) 0 [] of (r, parts) \<Rightarrow> (r, length parts, parts))))"

subsection \<open>Lemmas on scanning\<close>

lemma find_at_skip:
  assumes "\<And>k. k < length xs \<Longrightarrow> \<not> P (drop k xs @ ys)"
  shows "find_at P (xs @ ys) = map_option ((+) (length xs)) (find_at P ys)"
  using assms
proof (induction xs)
  case Nil
  then show ?case by (simp add: option.map_ident)
next
  case (Cons x xs)
  have "\<not> P (x # xs @ ys)" using Cons.prems [of 0] by simp
  moreover have "find_at P (xs @ ys) = map_option ((+) (length xs)) (find_at P ys)"
    using Cons.prems [of "Suc _"] by (intro Cons.IH) simp
  ultimately show ?case by (simp add: option.map_comp o_def)
qed

lemma find_at_none: "find_at P xs = None \<longleftrightarrow> (\<forall>k<Suc (length xs). \<not> P (drop k xs))"
  by (induction xs) (simp_all add: All_less_Suc2)

lemma find_at_here: "P xs \<Longrightarrow> find_at P xs = Some 0"
  by (cases xs) simp_all

lemma find_bytes_at:
  "needle \<noteq> [] \<Longrightarrow> find_bytes haystack needle = find_at (\<lambda>s. take (length needle) s = needle) haystack"
proof -
  assume n: "needle \<noteq> []"
  have "find_at (\<lambda>s. take (length needle) s = needle) haystack = None" if "length haystack < length needle"
    using that by (auto simp: find_at_none dest: arg_cong [where f = length])
  with n show ?thesis by (simp add: find_bytes_def)
qed

lemma find_bytes_first:
  assumes "needle \<noteq> []" and "\<not> sublist needle (butlast (xs @ needle))"
  shows "find_bytes (xs @ needle @ ys) needle = Some (length xs)"
proof -
  have "take (length needle) (drop k xs @ needle @ ys) \<noteq> needle" if k: "k < length xs" for k
  proof
    let ?s = "drop k (xs @ needle)"
    assume "take (length needle) (drop k xs @ needle @ ys) = needle"
    moreover have "take (length needle) (drop k xs @ needle @ ys) = take (length needle) (butlast ?s)"
      using k by (simp add: take_butlast)
    ultimately have "sublist needle (butlast ?s)" by (metis sublist_take)
    then have "sublist needle (drop k (butlast (xs @ needle)))" by (simp only: butlast_drop)
    with assms(2) show False by (meson sublist_drop sublist_order.order.trans)
  qed
  then show ?thesis using assms(1) find_at_skip [of xs "\<lambda>s. take (length needle) s = needle" "needle @ ys"]
    by (simp add: find_bytes_at find_at_here)
qed

lemma line_len_crlf: "cr \<notin> set xs \<Longrightarrow> line_len (xs @ cr # lf # ys) = length xs"
  by (induction xs rule: line_len.induct) auto

lemma line_len_last: "cr \<notin> set xs \<Longrightarrow> line_len xs = length xs - 1"
  by (induction xs rule: line_len.induct) auto

lemma ci_prefix_simps [simp]:
  "ci_prefix s []" "\<not> ci_prefix [] (d # p)" "ci_prefix (c # s) (d # p) \<longleftrightarrow> to_lower c = to_lower d \<and> ci_prefix s p"
  by (auto simp: ci_prefix_def ci_eq_def)

lemma ci_prefix_stop: "\<forall>d\<in>set p. to_lower d \<noteq> to_lower c \<Longrightarrow> ci_prefix (xs @ c # ys) p = ci_prefix xs p"
proof (induction p arbitrary: xs)
  case (Cons d p)
  then show ?case by (cases xs) auto
qed simp

lemma ci_prefix_append: "ci_prefix xs p \<Longrightarrow> ci_prefix (xs @ ys) p"
  by (auto simp: ci_prefix_def)

lemma header_prefixes:
  "ci_prefix (''Content-Disposition: '' @ s) ''content-disposition:''" "\<not> ci_prefix (''Content-Disposition: '' @ s) ''content-type:''"
  "ci_prefix (''Content-Type: '' @ s) ''content-type:''" "\<not> ci_prefix (''Content-Type: '' @ s) ''content-disposition:''"
proof -
  have "ci_prefix ''Content-Disposition: '' ''content-disposition:''" "ci_prefix ''Content-Type: '' ''content-type:''" by code_simp+
  then show "ci_prefix (''Content-Disposition: '' @ s) ''content-disposition:''" "ci_prefix (''Content-Type: '' @ s) ''content-type:''"
    by (blast intro: ci_prefix_append)+
  have "to_lower CHR ''D'' \<noteq> to_lower CHR ''t''" "to_lower CHR ''T'' \<noteq> to_lower CHR ''d''" by code_simp+
  then show "\<not> ci_prefix (''Content-Disposition: '' @ s) ''content-type:''" "\<not> ci_prefix (''Content-Type: '' @ s) ''content-disposition:''"
    by simp_all
qed

lemma plain_skip:
  assumes "cr \<notin> set xs"
  shows "find_at (\<lambda>s. take 4 s = [cr, lf, cr, lf]) (xs @ ys) =
    map_option ((+) (length xs)) (find_at (\<lambda>s. take 4 s = [cr, lf, cr, lf]) ys)"
proof (rule find_at_skip)
  fix k assume "k < length xs"
  then have "xs ! k \<noteq> cr" "drop k xs @ ys = xs ! k # drop (Suc k) xs @ ys" using assms nth_mem by (fastforce, simp add: Cons_nth_drop_Suc)
  then show "take 4 (drop k xs @ ys) \<noteq> [cr, lf, cr, lf]" by simp
qed

subsection \<open>A form\<close>

abbreviation crlf :: string where
  "crlf \<equiv> [cr, lf]"

definition quoted :: "string \<Rightarrow> string" where
  "quoted s = dquote # s @ [dquote]"

definition form_disposition :: "string \<Rightarrow> string option \<Rightarrow> string" where
  "form_disposition name filename =
     ''Content-Disposition: form-data; name='' @ quoted name @
     (case filename of None \<Rightarrow> [] | Some f \<Rightarrow> ''; filename='' @ quoted f)"

definition form_headers :: "ioh_multipart_part \<Rightarrow> string" where
  "form_headers p =
     form_disposition (the (mp_name p)) (mp_filename p) @
     (case mp_content_type p of None \<Rightarrow> [] | Some t \<Rightarrow> crlf @ ''Content-Type: '' @ t)"

primrec form_rest :: "string \<Rightarrow> ioh_multipart_part list \<Rightarrow> string" where
  "form_rest delim [] = ''--''"
| "form_rest delim (p # ps) = crlf @ form_headers p @ crlf @ crlf @ mp_data p @ crlf @ delim @ form_rest delim ps"

definition form_body :: "string \<Rightarrow> ioh_multipart_part list \<Rightarrow> string" where
  "form_body boundary ps = ''--'' @ boundary @ form_rest (''--'' @ boundary) ps"

text \<open>
  A part that can be sent under a boundary: a quoted name and file name, a name that does not itself contain the key
  \<^verbatim>\<open>filename=\<close>, and data in which the delimiter does not occur.
\<close>

definition field_text :: "string \<Rightarrow> bool" where
  "field_text s \<longleftrightarrow> dquote \<notin> set s \<and> cr \<notin> set s"

definition type_text :: "string \<Rightarrow> bool" where
  "type_text t \<longleftrightarrow> cr \<notin> set t \<and> 2 \<le> length t \<and> \<not> blank (hd t) \<and> \<not> blank (last (butlast t))"

definition form_part :: "string \<Rightarrow> ioh_multipart_part \<Rightarrow> bool" where
  "form_part boundary p \<longleftrightarrow>
     (case mp_name p of None \<Rightarrow> False | Some n \<Rightarrow> field_text n \<and> find_at (\<lambda>s. ci_prefix s ''filename='') n = None) \<and>
     pred_option field_text (mp_filename p) \<and> pred_option type_text (mp_content_type p) \<and>
     \<not> sublist (''--'' @ boundary) (butlast (mp_data p @ crlf @ ''--'' @ boundary))"

text \<open>What the parser returns for such a part.\<close>

definition received :: "ioh_multipart_part \<Rightarrow> ioh_multipart_part" where
  "received p = p\<lparr>mp_content_type := map_option butlast (mp_content_type p)\<rparr>"

lemma lower_dquote [simp]: "to_lower dquote = dquote"
  by (simp add: to_lower_def)

lemma name_param:
  assumes "field_text n" and "rest = [] \<or> hd rest = dquote"
  shows "extract_param (''form-data; name='' @ dquote # n @ rest) ''name='' = Some n"
proof -
  have "takeWhile (\<lambda>c. c \<noteq> dquote) (n @ rest) = n"
    using assms by (cases rest) (auto simp: field_text_def takeWhile_append_delim)
  then show ?thesis by (simp add: extract_param_def to_lower_def)
qed

lemma filename_skip:
  assumes "find_at (\<lambda>s. ci_prefix s ''filename='') n = None"
  shows "find_at (\<lambda>s. ci_prefix s ''filename='') (''form-data; name='' @ dquote # n @ dquote # rest) =
    map_option ((+) (17 + length n)) (find_at (\<lambda>s. ci_prefix s ''filename='') (dquote # rest))"
proof -
  let ?P = "\<lambda>s. ci_prefix s ''filename=''"
  have n: "\<not> ?P (drop k n @ dquote # rest)" if "k < length n" for k
    using assms that by (subst ci_prefix_stop) (auto simp: find_at_none to_lower_def)
  have pre: "\<not> ?P (drop k (''form-data; name='' @ [dquote]) @ ys)" if "k < length (''form-data; name='' @ [dquote])" for k ys
  proof (cases k)
    case 0
    have "to_lower CHR ''o'' \<noteq> to_lower CHR ''i''" by code_simp
    then show ?thesis by (simp add: 0)
  next
    case (Suc j)
    have "list_all (\<lambda>c. to_lower c \<noteq> to_lower CHR ''f'') (''orm-data; name='' @ [dquote])" by code_simp
    moreover have "j < length (''orm-data; name='' @ [dquote])" using that Suc by simp
    ultimately have "to_lower ((''orm-data; name='' @ [dquote]) ! j) \<noteq> to_lower CHR ''f''" unfolding list_all_length by blast
    moreover have "drop k (''form-data; name='' @ [dquote]) = (''form-data; name='' @ [dquote]) ! k # drop (Suc k) (''form-data; name='' @ [dquote])"
      using that by (simp only: Cons_nth_drop_Suc)
    moreover have "(''form-data; name='' @ [dquote]) ! k = (''orm-data; name='' @ [dquote]) ! j" by (simp add: Suc)
    ultimately show ?thesis by (simp only: append_Cons ci_prefix_simps simp_thms)
  qed
  have "find_at ?P (''form-data; name='' @ dquote # n @ dquote # rest) = find_at ?P ((''form-data; name='' @ [dquote]) @ n @ dquote # rest)"
    by simp
  also have "\<dots> = map_option ((+) (length (''form-data; name='' @ [dquote]))) (find_at ?P (n @ dquote # rest))"
    by (rule find_at_skip) (rule pre)
  also have "find_at ?P (n @ dquote # rest) = map_option ((+) (length n)) (find_at ?P (dquote # rest))"
    by (rule find_at_skip) (rule n)
  also have "length (''form-data; name='' @ [dquote]) = 17" by simp
  finally show ?thesis by (cases "find_at ?P (dquote # rest)") (simp_all only: option.map add.assoc)
qed

lemma filename_none:
  assumes "find_at (\<lambda>s. ci_prefix s ''filename='') n = None" and "rest = [] \<or> rest = [dquote]"
  shows "extract_param (''form-data; name='' @ dquote # n @ rest) ''filename='' = None"
proof -
  have "find_at (\<lambda>s. ci_prefix s ''filename='') (''form-data; name='' @ dquote # n @ rest) = None"
    using assms(2)
  proof
    assume "rest = []"
    then show ?thesis using assms(1) by (simp add: to_lower_def)
  next
    assume "rest = [dquote]"
    then show ?thesis using filename_skip [OF assms(1), of "[]"] by (simp add: to_lower_def)
  qed
  then show ?thesis by (simp add: extract_param_def)
qed

lemma filename_some:
  assumes "find_at (\<lambda>s. ci_prefix s ''filename='') n = None" and "field_text f" and "rest = [] \<or> rest = [dquote]"
  shows "extract_param (''form-data; name='' @ dquote # n @ dquote # ''; filename='' @ dquote # f @ rest) ''filename='' = Some f"
proof -
  have "takeWhile (\<lambda>c. c \<noteq> dquote) (f @ rest) = f"
    using assms(2,3) by (auto simp: field_text_def takeWhile_append_delim)
  moreover have "find_at (\<lambda>s. ci_prefix s ''filename='') (''form-data; name='' @ dquote # n @ dquote # ''; filename='' @ dquote # f @ rest) =
      Some (20 + length n)"
    by (subst filename_skip [OF assms(1)]) (simp add: to_lower_def)
  moreover have "drop (20 + length n + length ''filename='') (''form-data; name='' @ dquote # n @ dquote # ''; filename='' @ dquote # f @ rest) =
      dquote # f @ rest"
  proof -
    define pre where "pre = ''form-data; name='' @ dquote # n @ dquote # ''; filename=''"
    have "length pre = 20 + length n + length ''filename=''" by (simp add: pre_def)
    moreover have "''form-data; name='' @ dquote # n @ dquote # ''; filename='' @ dquote # f @ rest = pre @ dquote # f @ rest"
      by (simp add: pre_def)
    moreover have "drop (length pre) (pre @ dquote # f @ rest) = dquote # f @ rest" by simp
    ultimately show ?thesis by (simp only:)
  qed
  ultimately show ?thesis unfolding extract_param_def by (simp only: option.case list.case simp_thms if_True)
qed

lemma disposition_lines:
  assumes "field_text n" and "find_at (\<lambda>s. ci_prefix s ''filename='') n = None" and "pred_option field_text f"
    and "line = form_disposition n f \<or> line = butlast (form_disposition n f)"
  shows "parse_disposition line (part, found) = (part\<lparr>mp_name := Some n, mp_filename := set_some f (mp_filename part)\<rparr>, True)"
    and "parse_type line st = st"
proof -
  define val where "val = drop 21 line"
  have line: "line = ''Content-Disposition: '' @ val" and hd: "\<not> blank (hd val)" "val \<noteq> []"
    and params: "extract_param val ''name='' = Some n" "extract_param val ''filename='' = f"
  proof -
    obtain rest where "rest = [] \<or> rest = [dquote]"
      "line = ''Content-Disposition: form-data; name='' @ dquote # n @
         (case f of None \<Rightarrow> rest | Some f \<Rightarrow> dquote # ''; filename='' @ dquote # f @ rest)"
    proof -
      define core where "core = ''Content-Disposition: form-data; name='' @ dquote # n @
        (case f of None \<Rightarrow> [] | Some f \<Rightarrow> dquote # ''; filename='' @ dquote # f)"
      have "form_disposition n f = core @ [dquote]" by (simp add: form_disposition_def quoted_def core_def split: option.split)
      then obtain rest where r: "rest = [] \<or> rest = [dquote]" "line = core @ rest" using assms(4) by fastforce
      show thesis by (rule that [OF r(1)]) (cases f; simp add: r(2) core_def)
    qed
    note r = this
    have v: "val = ''form-data; name='' @ dquote # n @ (case f of None \<Rightarrow> rest | Some f \<Rightarrow> dquote # ''; filename='' @ dquote # f @ rest)"
      by (simp add: val_def r(2))
    show "line = ''Content-Disposition: '' @ val" by (simp add: v r(2))
    show "\<not> blank (hd val)" "val \<noteq> []" by (simp_all add: v blank_def)
    show "extract_param val ''name='' = Some n" unfolding v using r(1) by (intro name_param [OF assms(1)]) (auto split: option.splits)
    show "extract_param val ''filename='' = f"
    proof (cases f)
      case None
      then show ?thesis using filename_none [OF assms(2) r(1)] by (simp only: v option.case)
    next
      case (Some g)
      then show ?thesis using filename_some [OF assms(2) _ r(1), of g] assms(3) by (simp only: v option.case option.pred_inject)
    qed
  qed
  have "dropWhile blank (drop 20 line) = val" using hd unfolding line by (cases val) (simp_all add: blank_def)
  then show "parse_disposition line (part, found) = (part\<lparr>mp_name := Some n, mp_filename := set_some f (mp_filename part)\<rparr>, True)"
    unfolding parse_disposition_def using header_prefixes(1) [of val, folded line] by (simp add: params set_some_def Let_def)
  show "parse_type line st = st" using header_prefixes(2) [of val, folded line] by (cases st) (simp add: parse_type_def)
qed

lemma type_line:
  assumes "type_text t"
  shows "parse_type (''Content-Type: '' @ butlast t) (part, found) = (part\<lparr>mp_content_type := Some (butlast t)\<rparr>, found)"
    and "parse_disposition (''Content-Type: '' @ s) st = st"
proof -
  have ne: "butlast t \<noteq> []" "\<not> blank (hd (butlast t))" "\<not> blank (last (butlast t))"
    using assms by (cases t; auto simp: type_text_def split: if_splits)+
  have "dropWhile blank (drop 13 (''Content-Type: '' @ butlast t)) = butlast t"
    using ne(1,2) by (cases "butlast t") (simp_all add: blank_def)
  moreover have "rev (dropWhile blank (rev (butlast t))) = butlast t"
    using ne(1,3) by (cases "butlast t" rule: rev_cases) simp_all
  ultimately show "parse_type (''Content-Type: '' @ butlast t) (part, found) = (part\<lparr>mp_content_type := Some (butlast t)\<rparr>, found)"
    unfolding parse_type_def using header_prefixes(3) [of "butlast t"] by (simp only: Let_def prod.case if_True)
  show "parse_disposition (''Content-Type: '' @ s) st = st"
    unfolding parse_disposition_def using header_prefixes(4) [of s] by (cases st) (simp only: prod.case if_False)
qed

lemma form_headers_parsed:
  assumes "form_part boundary p"
  shows "parse_part_headers (form_headers p) \<lparr>mp_name = None, mp_filename = None, mp_content_type = None, mp_data = mp_data p\<rparr> =
    Inr (received p)"
proof -
  from assms obtain n where n: "mp_name p = Some n" "field_text n" "find_at (\<lambda>s. ci_prefix s ''filename='') n = None"
    "pred_option field_text (mp_filename p)" "pred_option type_text (mp_content_type p)"
    by (auto simp: form_part_def split: option.splits)
  let ?d = "form_disposition n (mp_filename p)" and ?p0 = "\<lparr>mp_name = None, mp_filename = None, mp_content_type = None, mp_data = mp_data p\<rparr>"
  have d: "cr \<notin> set ?d" "?d \<noteq> []"
    using n(2,4) by (cases "mp_filename p"; auto simp: form_disposition_def quoted_def field_text_def)+
  note disp = disposition_lines [OF n(2-4)]
  show ?thesis
  proof (cases "mp_content_type p")
    case None
    have "take (line_len ?d) ?d = butlast ?d" "take 2 (drop (line_len ?d) ?d) \<noteq> crlf"
      using d by (auto simp: line_len_last butlast_conv_take dest: arg_cong [where f = length])
    then have "header_lines ?d (?p0, False) = (?p0\<lparr>mp_name := Some n, mp_filename := mp_filename p\<rparr>, True)"
      using d(2) disp [OF disjI2 [OF refl]] by (subst header_lines.simps) (simp add: Let_def set_some_def split: option.splits)
    then show ?thesis using None n(1) by (simp add: parse_part_headers_def form_headers_def received_def)
  next
    case (Some t)
    let ?t = "''Content-Type: '' @ t"
    have t: "type_text t" using n(5) Some by simp
    then have ct: "cr \<notin> set ?t" "t \<noteq> []" by (auto simp: type_text_def)
    have "take (line_len ?t) ?t = ''Content-Type: '' @ butlast t" "take 2 (drop (line_len ?t) ?t) \<noteq> crlf"
    proof -
      have "take (line_len ?t) ?t = butlast ?t" unfolding line_len_last [OF ct(1)] by (rule butlast_conv_take [symmetric])
      also have "\<dots> = ''Content-Type: '' @ butlast t" using ct(2) by (simp only: butlast_append if_False)
      finally show "take (line_len ?t) ?t = ''Content-Type: '' @ butlast t" .
      show "take 2 (drop (line_len ?t) ?t) \<noteq> crlf"
        unfolding line_len_last [OF ct(1)] using ct(2) by (auto dest: arg_cong [where f = length])
    qed
    then have "header_lines ?t (part, True) = (part\<lparr>mp_content_type := Some (butlast t)\<rparr>, True)" for part
      using type_line [OF t] by (subst header_lines.simps) (simp add: Let_def)
    moreover have "header_lines (?d @ crlf @ ?t) (?p0, False) = header_lines ?t (?p0\<lparr>mp_name := Some n, mp_filename := mp_filename p\<rparr>, True)"
      using d disp [OF disjI1 [OF refl]] line_len_crlf [OF d(1), of ?t]
      by (subst header_lines.simps) (simp add: Let_def set_some_def split: option.splits)
    ultimately show ?thesis using Some n(1) by (simp add: parse_part_headers_def form_headers_def received_def)
  qed
qed

lemma form_headers_end:
  assumes "form_part boundary p"
  shows "find_bytes (form_headers p @ crlf @ crlf @ ys) [cr, lf, cr, lf] = Some (length (form_headers p))"
proof -
  from assms obtain n where n: "mp_name p = Some n" "field_text n" "pred_option field_text (mp_filename p)"
    "pred_option type_text (mp_content_type p)"
    by (auto simp: form_part_def split: option.splits)
  let ?d = "form_disposition n (mp_filename p)" and ?P = "\<lambda>s. take 4 s = [cr, lf, cr, lf]"
  have d: "cr \<notin> set ?d"
    using n(2,3) by (cases "mp_filename p") (auto simp: form_disposition_def quoted_def field_text_def)
  have e: "find_at ?P (crlf @ crlf @ ys) = Some 0" by (simp add: eval_nat_numeral)
  have "find_at ?P (form_headers p @ crlf @ crlf @ ys) = Some (length (form_headers p))"
  proof (cases "mp_content_type p")
    case None
    then show ?thesis using plain_skip [OF d, of "crlf @ crlf @ ys"] e n(1) by (simp add: form_headers_def)
  next
    case (Some t)
    let ?t = "''Content-Type: '' @ t"
    have t: "cr \<notin> set ?t" using n(4) Some by (auto simp: type_text_def)
    have "find_at ?P (crlf @ ?t @ crlf @ crlf @ ys) = Some (2 + length ?t)"
      using plain_skip [OF t, of "crlf @ crlf @ ys"] e by (simp add: eval_nat_numeral)
    with plain_skip [OF d, of "crlf @ ?t @ crlf @ crlf @ ys"] Some n(1) show ?thesis by (simp add: form_headers_def)
  qed
  then show ?thesis by (simp add: find_bytes_at eval_nat_numeral)
qed

lemma strip_crlf_append [simp]: "strip_crlf (data @ crlf) = data"
  by (simp add: strip_crlf_def)

lemma part_loop_step:
  assumes "form_part boundary p" and delim: "delim = ''--'' @ boundary"
    and "length (mp_data p) \<le> mc_max_part_size cfg" and "sofar + length (mp_data p) \<le> mc_max_total_size cfg"
    and "length acc < max_parts" and "length acc < mc_max_parts cfg"
  shows "part_loop cfg max_parts delim (form_headers p @ crlf @ crlf @ mp_data p @ crlf @ delim @ rest) sofar acc =
    (if take 2 rest = ''--'' then (Inr (), acc @ [received p])
     else if take 2 rest \<noteq> crlf then (Inl EINVAL, acc @ [received p])
     else part_loop cfg max_parts delim (drop 2 rest) (sofar + length (mp_data p)) (acc @ [received p]))"
proof -
  let ?data = "mp_data p @ crlf @ delim @ rest"
  have hdr: "find_bytes (form_headers p @ crlf @ crlf @ ?data) [cr, lf, cr, lf] = Some (length (form_headers p))"
    by (rule form_headers_end [OF assms(1)])
  have "find_bytes ?data delim = Some (length (mp_data p @ crlf))"
    using find_bytes_first [of delim "mp_data p @ crlf" rest] assms(1) by (simp add: delim form_part_def)
  moreover have "drop (length (form_headers p) + 4) (form_headers p @ crlf @ crlf @ ?data) = ?data"
    "take (length (form_headers p)) (form_headers p @ crlf @ crlf @ ?data) = form_headers p" by simp_all
  moreover have "take (length (mp_data p @ crlf)) ?data = mp_data p @ crlf"
    "drop (length (mp_data p @ crlf) + length delim) ?data = rest" by simp_all
  moreover have "form_headers p @ crlf @ crlf @ ?data \<noteq> []" by simp
  moreover have "(mc_max_part_size cfg < length (mp_data p)) = False" "(mc_max_total_size cfg < sofar + length (mp_data p)) = False"
    "(max_parts \<le> length acc \<or> mc_max_parts cfg \<le> length acc) = False" using assms(3-) by simp_all
  ultimately show ?thesis using form_headers_parsed [OF assms(1)]
    by (subst part_loop.simps) (simp only: hdr option.case Let_def sum.case strip_crlf_append if_False)
qed

lemma part_loop_form:
  assumes "\<forall>p\<in>set (p # ps). form_part boundary p \<and> length (mp_data p) \<le> mc_max_part_size cfg"
    and "sofar + (\<Sum>p\<leftarrow>p # ps. length (mp_data p)) \<le> mc_max_total_size cfg"
    and "length acc + length (p # ps) \<le> max_parts" and "length acc + length (p # ps) \<le> mc_max_parts cfg"
    and "delim = ''--'' @ boundary"
  shows "part_loop cfg max_parts delim (drop 2 (form_rest delim (p # ps) @ epilogue)) sofar acc = (Inr (), acc @ map received (p # ps))"
  using assms(1-4)
proof (induction ps arbitrary: p sofar acc)
  case Nil
  have "drop 2 (form_rest delim [p] @ epilogue) = form_headers p @ crlf @ crlf @ mp_data p @ crlf @ delim @ ''--'' @ epilogue"
    by simp
  moreover have "take 2 (''--'' @ epilogue) = ''--''" by simp
  ultimately show ?case
    using part_loop_step [of boundary p delim cfg sofar acc max_parts "''--'' @ epilogue", OF _ assms(5)] Nil.prems
    by (simp only: if_True list.map) simp
next
  case (Cons q qs)
  let ?next = "form_rest delim (q # qs) @ epilogue"
  have "drop 2 (form_rest delim (p # q # qs) @ epilogue) = form_headers p @ crlf @ crlf @ mp_data p @ crlf @ delim @ ?next"
    by simp
  moreover have "(take 2 ?next = ''--'') = False" "take 2 ?next = crlf" by simp_all
  moreover have "part_loop cfg max_parts delim (drop 2 ?next) (sofar + length (mp_data p)) (acc @ [received p]) =
      (Inr (), (acc @ [received p]) @ map received (q # qs))"
    using Cons.prems by (intro Cons.IH) auto
  moreover have "part_loop cfg max_parts delim (form_headers p @ crlf @ crlf @ mp_data p @ crlf @ delim @ ?next) sofar acc =
    (if take 2 ?next = ''--'' then (Inr (), acc @ [received p])
     else if take 2 ?next \<noteq> crlf then (Inl EINVAL, acc @ [received p])
     else part_loop cfg max_parts delim (drop 2 ?next) (sofar + length (mp_data p)) (acc @ [received p]))"
    using Cons.prems by (intro part_loop_step [OF _ assms(5)]) auto
  ultimately show ?case by (simp only: if_False simp_thms) simp
qed

lemma form_data_fits: "(\<Sum>p\<leftarrow>ps. length (mp_data p)) \<le> length (form_body boundary ps)"
proof -
  have "(\<Sum>p\<leftarrow>ps. length (mp_data p)) \<le> length (form_rest delim ps)" for delim by (induction ps) simp_all
  from this [of "''--'' @ boundary"] show ?thesis by (simp add: form_body_def)
qed

subsection \<open>Properties\<close>

text \<open>C19: A form survives the wire.  The body that prints any list of parts under a boundary, followed by any epilogue, is parsed to
  exactly these parts, with their names, file names and data, whatever bytes the data holds as long as the delimiter does not
  occur in it and the limits are kept.  The content type of a part, which ends its header block, comes back without its
  last character.
\<close>

theorem multipart_round_trip:
  assumes "\<forall>p\<in>set ps. form_part boundary p \<and> length (mp_data p) \<le> mc_max_part_size cfg" and "length boundary \<le> 256"
    and "length (form_body boundary ps @ epilogue) \<le> mc_max_total_size cfg"
    and "length ps \<le> max_parts" and "length ps \<le> mc_max_parts cfg"
  shows "ioh_multipart_parse (form_body boundary ps @ epilogue) boundary cfg max_parts = (Inr (), length ps, map received ps)"
proof -
  let ?delim = "''--'' @ boundary"
  have body: "form_body boundary ps @ epilogue = ?delim @ form_rest ?delim ps @ epilogue" by (simp add: form_body_def)
  have parts: "part_loop cfg max_parts ?delim (drop 2 (form_rest ?delim ps @ epilogue)) 0 [] = (Inr (), map received ps)" if ne: "ps \<noteq> []"
  proof -
    from ne obtain p qs where ps: "ps = p # qs" by (cases ps) auto
    show ?thesis unfolding ps
      using part_loop_form [of p qs boundary cfg 0 "[]" max_parts ?delim epilogue] assms form_data_fits [of ps boundary] by (simp add: ps)
  qed
  have "find_bytes (?delim @ form_rest ?delim ps @ epilogue) ?delim = Some 0"
    by (simp add: find_bytes_at find_at_here)
  moreover have "drop (0 + length ?delim) (?delim @ form_rest ?delim ps @ epilogue) = form_rest ?delim ps @ epilogue" by simp
  moreover have "(length (form_rest ?delim ps @ epilogue) < 2) = False" by (cases ps) simp_all
  moreover have "(mc_max_total_size cfg < length (?delim @ form_rest ?delim ps @ epilogue)) = False" "(256 < length boundary) = False"
    "(?delim @ form_rest ?delim ps @ epilogue = []) = False" using assms(2,3) by (simp_all add: form_body_def)
  ultimately have "ioh_multipart_parse (form_body boundary ps @ epilogue) boundary cfg max_parts =
      (if take 2 (form_rest ?delim ps @ epilogue) = ''--'' then (Inr (), 0, [])
       else if take 2 (form_rest ?delim ps @ epilogue) \<noteq> crlf then (Inl EINVAL, 0, [])
       else case part_loop cfg max_parts ?delim (drop 2 (form_rest ?delim ps @ epilogue)) 0 [] of (r, parts) \<Rightarrow> (r, length parts, parts))"
    by (simp only: ioh_multipart_parse_def body Let_def option.case if_False)
  with parts show ?thesis by (cases ps) simp_all
qed

definition example_form :: "ioh_multipart_part list" where
  "example_form =
     [\<lparr>mp_name = Some ''a'', mp_filename = None, mp_content_type = None, mp_data = ''x''\<rparr>,
      \<lparr>mp_name = Some ''f'', mp_filename = Some ''n.txt'', mp_content_type = Some ''text/plain'', mp_data = ''--y''\<rparr>]"

theorem multipart_round_trip_witness:
  "ioh_multipart_parse (form_body ''B'' example_form @ crlf) ''B'' ioh_multipart_config_init 8 =
     (Inr (), 2, [\<lparr>mp_name = Some ''a'', mp_filename = None, mp_content_type = None, mp_data = ''x''\<rparr>,
       \<lparr>mp_name = Some ''f'', mp_filename = Some ''n.txt'', mp_content_type = Some ''text/plai'', mp_data = ''--y''\<rparr>])"
proof -
  have ok: "\<forall>p\<in>set example_form. form_part ''B'' p \<and> length (mp_data p) \<le> mc_max_part_size ioh_multipart_config_init"
    by (simp add: example_form_def form_part_def field_text_def type_text_def blank_def to_lower_def sublist_Cons_right
        ioh_multipart_config_init_def)
  have "length (form_body ''B'' example_form @ crlf) = 157" by code_simp
  then have fits: "length (form_body ''B'' example_form @ crlf) \<le> mc_max_total_size ioh_multipart_config_init"
    by (simp only: ioh_multipart_config_init_def) simp
  have n: "length example_form = 2" "map received example_form =
      [\<lparr>mp_name = Some ''a'', mp_filename = None, mp_content_type = None, mp_data = ''x''\<rparr>,
       \<lparr>mp_name = Some ''f'', mp_filename = Some ''n.txt'', mp_content_type = Some ''text/plai'', mp_data = ''--y''\<rparr>]"
    by (simp_all add: example_form_def received_def)
  have "length ''B'' \<le> 256" "(2 :: nat) \<le> 8" "2 \<le> mc_max_parts ioh_multipart_config_init"
    by (simp_all add: ioh_multipart_config_init_def)
  with multipart_round_trip [OF ok _ fits, of 8] show ?thesis unfolding n by blast
qed

end
