(* ===== verification/Static.thy ===== *)
theory Static
  imports Response "HOL-Library.Sublist"
begin

text \<open>
  Static files, \<^verbatim>\<open>src/static/ioh_static.c\<close>.

  The file system and the conversion of times are parameters: path resolution, file status, file contents,
  \<^verbatim>\<open>strptime\<close> with \<^verbatim>\<open>timegm\<close>, and \<^verbatim>\<open>gmtime_r\<close> with \<^verbatim>\<open>strftime\<close>.  What is read may differ from the
  status taken before.  Allocation succeeds, and a path is shorter than \<open>2 ^ 31\<close> bytes.
\<close>

record file_stat =
  st_is_dir :: bool
  st_is_reg :: bool
  st_size :: u64
  st_mtime :: u64

record filesys =
  fs_realpath :: "string \<Rightarrow> string option"
  fs_stat :: "string \<Rightarrow> file_stat option"
  fs_read :: "string \<Rightarrow> string option"
  fs_parse_time :: "string \<Rightarrow> int option"
  fs_format_time :: "u64 \<Rightarrow> string option"

record ioh_static_config =
  sc_root_dir :: "string option"
  sc_directory_listing :: bool
  sc_etag :: bool
  sc_max_age_default :: u32

definition ioh_static_config_init :: ioh_static_config where
  "ioh_static_config_init = \<lparr>sc_root_dir = None, sc_directory_listing = False, sc_etag = True, sc_max_age_default = 3600\<rparr>"

definition PATH_MAX :: nat where "PATH_MAX = 4096"

text \<open>The text \<^verbatim>\<open>snprintf\<close> leaves in a buffer.\<close>

definition printed :: "nat \<Rightarrow> string \<Rightarrow> string" where
  "printed buf_size text = take (buf_size - 1) text"

subsection \<open>Media types\<close>

definition mime_table :: "(string \<times> string) list" where
  "mime_table =
     [(''.html'', ''text/html''), (''.htm'', ''text/html''), (''.css'', ''text/css''), (''.js'', ''text/javascript''),
      (''.json'', ''application/json''), (''.xml'', ''application/xml''), (''.png'', ''image/png''), (''.jpg'', ''image/jpeg''),
      (''.jpeg'', ''image/jpeg''), (''.gif'', ''image/gif''), (''.svg'', ''image/svg+xml''), (''.ico'', ''image/x-icon''),
      (''.webp'', ''image/webp''), (''.avif'', ''image/avif''), (''.woff'', ''font/woff''), (''.woff2'', ''font/woff2''),
      (''.ttf'', ''font/ttf''), (''.otf'', ''font/otf''), (''.pdf'', ''application/pdf''), (''.zip'', ''application/zip''),
      (''.gz'', ''application/gzip''), (''.br'', ''application/x-brotli''), (''.wasm'', ''application/wasm''), (''.txt'', ''text/plain''),
      (''.csv'', ''text/csv''), (''.mp4'', ''video/mp4''), (''.webm'', ''video/webm''), (''.mp3'', ''audio/mpeg''),
      (''.ogg'', ''audio/ogg''), (''.map'', ''application/json'')]"

text \<open>The suffix from the last dot that has no slash behind it.\<close>

definition extension :: "string \<Rightarrow> string option" where
  "extension path =
     (let tail = takeWhile (\<lambda>c. c \<noteq> CHR ''.'' \<and> c \<noteq> slash) (rev path)
      in case dropWhile (\<lambda>c. c \<noteq> CHR ''.'' \<and> c \<noteq> slash) (rev path) of
           [] \<Rightarrow> None
         | c # _ \<Rightarrow> if c = CHR ''.'' then Some (c # rev tail) else None)"

definition ioh_mime_type :: "string \<Rightarrow> string" where
  "ioh_mime_type path =
     (case extension path of
        None \<Rightarrow> ''application/octet-stream''
      | Some ext \<Rightarrow>
          (case find (\<lambda>(e, _). length ext = length e \<and> ci_eq ext e) mime_table of
             Some (_, mime) \<Rightarrow> mime
           | None \<Rightarrow> ''application/octet-stream''))"

subsection \<open>Entity tags\<close>

fun hex_digits :: "nat \<Rightarrow> string" where
  "hex_digits n = (if n < 16 then [''0123456789abcdef'' ! n] else hex_digits (n div 16) @ [''0123456789abcdef'' ! (n mod 16)])"

declare hex_digits.simps [simp del]

definition ioh_etag_generate :: "u64 \<Rightarrow> u64 \<Rightarrow> nat \<Rightarrow> errno + string" where
  "ioh_etag_generate mtime file_size buf_size =
     (let text = [dquote] @ hex_digits (unat mtime) @ ''-'' @ hex_digits (unat file_size) @ [dquote]
      in if buf_size < 32 then Inl ENOSPC else if length text \<ge> buf_size then Inl ENOSPC else Inr text)"

subsection \<open>Paths and ranges\<close>

definition dotdot_at :: "string \<Rightarrow> nat \<Rightarrow> bool" where
  "dotdot_at path i \<longleftrightarrow>
     path ! i = CHR ''.'' \<and> path ! (i + 1) = CHR ''.'' \<and> (i = 0 \<or> path ! (i - 1) = slash) \<and>
     (i + 2 \<ge> length path \<or> path ! (i + 2) = slash)"

definition path_is_safe :: "string \<Rightarrow> bool" where
  "path_is_safe path \<longleftrightarrow> nul \<notin> set path \<and> \<not> list_ex (dotdot_at path) [0..<length path - 1]"

text \<open>\<^verbatim>\<open>strtoul\<close> in base 10, with the rest of the text.\<close>

definition strtoul :: "string \<Rightarrow> (u64 \<times> string) option" where
  "strtoul s =
     map_option (\<lambda>(neg, n, rest). (if n \<ge> 2 ^ 64 then - 1 else if neg then - of_nat n else of_nat n, rest)) (strto_scan s)"

definition checked_range :: "u64 \<Rightarrow> u64 \<Rightarrow> u64 \<Rightarrow> (u64 \<times> u64) option" where
  "checked_range file_size start stop = (if start > stop \<or> stop \<ge> file_size then None else Some (start, stop))"

definition parse_range :: "string \<Rightarrow> u64 \<Rightarrow> (u64 \<times> u64) option" where
  "parse_range range_hdr file_size =
     (if take 6 range_hdr \<noteq> ''bytes='' then None
      else
        (let p = drop 6 range_hdr
         in if p \<noteq> [] \<and> hd p = CHR ''-'' then
              (case strtoul (tl p) of
                 None \<Rightarrow> None
               | Some (tail_len, _) \<Rightarrow>
                   if tail_len = 0 \<or> tail_len > file_size then None else Some (file_size - tail_len, file_size - 1))
            else
              (case strtoul p of
                 None \<Rightarrow> None
               | Some (start, rest) \<Rightarrow>
                   if rest = [] \<or> hd rest \<noteq> CHR ''-'' then None
                   else
                     (let p = tl rest
                      in if p = [] \<or> hd p = CHR '','' \<or> hd p = CHR '' '' then checked_range file_size start (file_size - 1)
                         else case strtoul p of
                                None \<Rightarrow> None
                              | Some (stop, _) \<Rightarrow> checked_range file_size start stop))))"

subsection \<open>Serving\<close>

definition below :: "string \<Rightarrow> string \<Rightarrow> bool" where
  "below root file \<longleftrightarrow> take (length root) file = root \<and> (length file = length root \<or> file ! length root = slash)"

definition static_lookup :: "filesys \<Rightarrow> string \<Rightarrow> string \<Rightarrow> errno + (string \<times> file_stat)" where
  "static_lookup fs root path =
     (if \<not> path_is_safe path then Inl EACCES
      else if length (cstr root @ path) \<ge> PATH_MAX then Inl ENAMETOOLONG
      else case fs_realpath fs (cstr root @ path) of
             None \<Rightarrow> Inl ENOENT
           | Some resolved \<Rightarrow>
               (case fs_realpath fs root of
                  None \<Rightarrow> Inl ENOENT
                | Some resolved_root \<Rightarrow>
                    if \<not> below resolved_root resolved then Inl EACCES
                    else case fs_stat fs resolved of
                           None \<Rightarrow> Inl ENOENT
                         | Some st \<Rightarrow> if st_is_dir st then Inl ENOENT else Inr (resolved, st)))"

definition etag_matches :: "string option \<Rightarrow> ioh_request \<Rightarrow> bool" where
  "etag_matches etag req \<longleftrightarrow>
     (case (etag, ioh_request_header req ''If-None-Match'') of
        (Some tag, Some inm) \<Rightarrow> take IOH_MAX_HEADER_SIZE (cstr inm) = tag
      | _ \<Rightarrow> False)"

definition unmodified_since :: "filesys \<Rightarrow> file_stat \<Rightarrow> ioh_request \<Rightarrow> bool" where
  "unmodified_since fs st req \<longleftrightarrow>
     (case ioh_request_header req ''If-Modified-Since'' of
        None \<Rightarrow> False
      | Some ims \<Rightarrow>
          (case fs_parse_time fs (cstr ims) of None \<Rightarrow> False | Some t \<Rightarrow> t \<ge> 0 \<and> t \<ge> uint (st_mtime st)))"

definition set_etag :: "string option \<Rightarrow> ioh_response \<Rightarrow> ioh_response" where
  "set_etag etag resp = (case etag of None \<Rightarrow> resp | Some tag \<Rightarrow> ioh_response_set_header resp ''ETag'' tag)"

definition set_range :: "(u64 \<times> u64) option \<Rightarrow> u64 \<Rightarrow> ioh_response \<Rightarrow> ioh_response" where
  "set_range rng file_size resp =
     (case rng of
        None \<Rightarrow> resp\<lparr>rs_status := 200\<rparr>
      | Some (start, stop) \<Rightarrow>
          ioh_response_set_header (resp\<lparr>rs_status := 206\<rparr>) ''Content-Range''
            (printed 128 (''bytes '' @ dec_digits (unat start) @ ''-'' @ dec_digits (unat stop) @ ''/'' @ dec_digits (unat file_size))))"

definition file_response ::
  "filesys \<Rightarrow> ioh_static_config \<Rightarrow> string \<Rightarrow> file_stat \<Rightarrow> string option \<Rightarrow> (u64 \<times> u64) option \<Rightarrow> string \<Rightarrow> ioh_response \<Rightarrow>
   ioh_response" where
  "file_response fs cfg path st etag rng buf resp =
     (let resp = set_range rng (st_size st) resp;
          resp = ioh_response_set_header resp ''Content-Type'' (ioh_mime_type path);
          resp = ioh_response_set_header resp ''Content-Length'' (printed 32 (dec_digits (length buf)));
          resp = ioh_response_set_header resp ''Accept-Ranges'' ''bytes'';
          resp = set_etag etag resp;
          resp = (case fs_format_time fs (st_mtime st) of
                    None \<Rightarrow> resp
                  | Some lm \<Rightarrow> ioh_response_set_header resp ''Last-Modified'' lm);
          resp = ioh_response_set_header resp ''Cache-Control''
                   (printed 64 (''public, max-age='' @ dec_digits (unat (sc_max_age_default cfg))))
      in snd (ioh_response_set_body resp (Some buf) (length buf)))"

definition file_etag :: "ioh_static_config \<Rightarrow> file_stat \<Rightarrow> string option" where
  "file_etag cfg st =
     (if sc_etag cfg then (case ioh_etag_generate (st_mtime st) (st_size st) 64 of Inl _ \<Rightarrow> None | Inr tag \<Rightarrow> Some tag) else None)"

definition file_range :: "file_stat \<Rightarrow> ioh_request \<Rightarrow> (u64 \<times> u64) option" where
  "file_range st req =
     (case ioh_request_header req ''Range'' of
        None \<Rightarrow> None
      | Some range_hdr \<Rightarrow> if st_size st > 0 then parse_range (cstr range_hdr) (st_size st) else None)"

text \<open>Opening, seeking and reading; a position beyond the signed range cannot be sought.\<close>

definition read_file :: "filesys \<Rightarrow> string \<Rightarrow> file_stat \<Rightarrow> (u64 \<times> u64) option \<Rightarrow> errno + string" where
  "read_file fs file st rng =
     (case fs_read fs file of
        None \<Rightarrow> Inl ENOENT
      | Some content \<Rightarrow>
          (let (start, read_len) =
             (case rng of None \<Rightarrow> (0, unat (st_size st)) | Some (start, stop) \<Rightarrow> (unat start, unat (stop - start + 1)));
               buf = take read_len (drop start content)
           in if start \<ge> 2 ^ 63 then Inl EIO else if length buf \<noteq> read_len then Inl EIO else Inr buf))"

definition ioh_static_serve ::
  "filesys \<Rightarrow> ioh_static_config \<Rightarrow> ioh_request \<Rightarrow> ioh_response \<Rightarrow> (unit, ioh_response) outcome" where
  "ioh_static_serve fs cfg req resp =
     (case sc_root_dir cfg of
        None \<Rightarrow> (Inl EINVAL, resp)
      | Some root \<Rightarrow>
          if req_path req = [] then (Inl EINVAL, resp)
          else
            (case static_lookup fs root (req_path req) of
               Inl e \<Rightarrow> (Inl e, resp)
             | Inr (file, st) \<Rightarrow>
                 (let etag = file_etag cfg st; rng = file_range st req
                  in if etag_matches etag req \<or> unmodified_since fs st req
                     then (Inr (), set_etag etag (resp\<lparr>rs_status := 304\<rparr>))
                     else
                       (case read_file fs file st rng of
                          Inl e \<Rightarrow> (Inl e, resp)
                        | Inr buf \<Rightarrow> (Inr (), file_response fs cfg (req_path req) st etag rng buf resp)))))"

subsection \<open>Lemmas\<close>

text \<open>The check of the path finds exactly the segments that are two dots.\<close>

lemma dotdot_at_iff:
  "i + 1 < length path \<Longrightarrow> dotdot_at path i \<longleftrightarrow>
     (\<exists>pre post. path = pre @ ''..'' @ post \<and> length pre = i \<and> (pre = [] \<or> last pre = slash) \<and> (post = [] \<or> hd post = slash))"
  (is "_ \<Longrightarrow> _ \<longleftrightarrow> ?split")
proof
  assume i: "i + 1 < length path" and d: "dotdot_at path i"
  have "path = take i path @ path ! i # path ! (i + 1) # drop (i + 2) path"
    using i by (simp add: id_take_nth_drop Cons_nth_drop_Suc)
  then have "path = take i path @ ''..'' @ drop (i + 2) path" using d by (simp add: dotdot_at_def)
  moreover have "last (take i path) = path ! (i - 1)" if "0 < i" using i that by (subst last_conv_nth) auto
  then have "take i path = [] \<or> last (take i path) = slash"
    using d by (cases "i = 0") (simp_all add: dotdot_at_def)
  moreover have "drop (i + 2) path = [] \<or> hd (drop (i + 2) path) = slash"
    using d by (cases "length path \<le> i + 2") (auto simp: dotdot_at_def hd_drop_conv_nth)
  moreover have "length (take i path) = i" using i by simp
  ultimately show ?split by blast
next
  assume ?split
  then obtain pre post where p: "path = pre @ ''..'' @ post" "length pre = i" "pre = [] \<or> last pre = slash" "post = [] \<or> hd post = slash"
    by blast
  have "path ! (i - 1) = slash" if "i \<noteq> 0"
    using p that by (cases pre rule: rev_cases) (auto simp: nth_append)
  moreover have "path ! (i + 2) = slash" if "i + 2 < length path"
    using p that by (cases post) (auto simp: nth_append)
  ultimately show "dotdot_at path i" using p(1,2) by (cases "pre = []") (auto simp: dotdot_at_def nth_append)
qed

lemma path_is_safe_iff:
  "path_is_safe path \<longleftrightarrow>
     nul \<notin> set path \<and>
     \<not> (\<exists>pre post. path = pre @ ''..'' @ post \<and> (pre = [] \<or> last pre = slash) \<and> (post = [] \<or> hd post = slash))"
proof -
  have "(\<exists>i\<in>set [0..<length path - 1]. dotdot_at path i) \<longleftrightarrow>
      (\<exists>pre post. path = pre @ ''..'' @ post \<and> (pre = [] \<or> last pre = slash) \<and> (post = [] \<or> hd post = slash))"
  proof
    assume "\<exists>i\<in>set [0..<length path - 1]. dotdot_at path i"
    then obtain i where "i + 1 < length path" "dotdot_at path i" by (auto simp: less_diff_conv)
    then show "\<exists>pre post. path = pre @ ''..'' @ post \<and> (pre = [] \<or> last pre = slash) \<and> (post = [] \<or> hd post = slash)"
      using dotdot_at_iff by blast
  next
    assume "\<exists>pre post. path = pre @ ''..'' @ post \<and> (pre = [] \<or> last pre = slash) \<and> (post = [] \<or> hd post = slash)"
    then obtain pre post where p: "path = pre @ ''..'' @ post" "pre = [] \<or> last pre = slash" "post = [] \<or> hd post = slash" by blast
    then have "length pre + 1 < length path" by simp
    moreover have "dotdot_at path (length pre)" using dotdot_at_iff [OF calculation] p by blast
    ultimately show "\<exists>i\<in>set [0..<length path - 1]. dotdot_at path i" by force
  qed
  then show ?thesis by (simp add: path_is_safe_def list_ex_iff)
qed

lemma below_iff: "below root file \<longleftrightarrow> file = root \<or> prefix (root @ [slash]) file"
proof
  assume b: "below root file"
  show "file = root \<or> prefix (root @ [slash]) file"
  proof (cases "length file = length root")
    case False
    then have "length root < length file" "file ! length root = slash" "take (length root) file = root"
      using b by (auto simp: below_def) (metis length_take min.absorb2 nat_less_le min.cobounded1)
    then have "file = root @ slash # drop (Suc (length root)) file" by (metis append_take_drop_id Cons_nth_drop_Suc)
    then show ?thesis by (metis append.assoc append_Cons append_Nil prefixI)
  qed (use b in \<open>simp add: below_def\<close>)
next
  assume "file = root \<or> prefix (root @ [slash]) file"
  then show "below root file" by (auto simp: below_def prefix_def nth_append)
qed

lemma checked_range_bounds: "checked_range n a b = Some (start, stop) \<Longrightarrow> start \<le> stop \<and> stop < n"
  by (auto simp: checked_range_def not_less not_le split: if_splits)

lemma parse_range_bounds:
  assumes "parse_range h n = Some (start, stop)" and "0 < n"
  shows "start \<le> stop \<and> stop < n"
proof (cases "drop 6 h \<noteq> [] \<and> hd (drop 6 h) = CHR ''-''")
  case True
  with assms(1) obtain k rest where k: "strtoul (tl (drop 6 h)) = Some (k, rest)" "k \<noteq> 0" "k \<le> n" "start = n - k" "stop = n - 1"
    by (auto simp: parse_range_def Let_def split: if_splits option.splits)
  have "0 < unat k" using k(2) by (simp add: word_gt_0 unat_gt_0)
  moreover have "unat start = unat n - unat k" using k(3,4) by (simp add: unat_sub)
  moreover have "unat stop = unat n - 1" using assms(2) k(5) by (simp add: unat_decrement word_gt_0)
  moreover have "unat k \<le> unat n" using k(3) by (simp add: word_le_nat_alt)
  ultimately show ?thesis by (simp add: word_le_nat_alt word_less_nat_alt)
next
  case False
  with assms(1) show ?thesis
    by (auto simp: parse_range_def Let_def dest: checked_range_bounds split: if_splits option.splits)
qed

lemma dec_digits_length: "n < 10 ^ Suc k \<Longrightarrow> length (dec_digits n) \<le> Suc k"
proof (induction k arbitrary: n)
  case (Suc k)
  show ?case
  proof (cases "n < 10")
    case False
    then have "length (dec_digits (n div 10)) \<le> Suc k" using Suc.prems by (intro Suc.IH) (simp add: div_less_iff_less_mult)
    with False show ?thesis by (subst dec_digits.simps) simp
  qed (subst dec_digits.simps, simp)
qed (subst dec_digits.simps, simp)

lemma u64_digits: "length (dec_digits (unat (w :: u64))) \<le> 20"
proof -
  have "unat w < 10 ^ Suc 19" using unat_bound [of w] by simp
  from dec_digits_length [OF this] show ?thesis by simp
qed

lemma response_header_set:
  "response_header (ioh_response_set_header r n v) m = (if ci_eq (header_text n) m then Some (header_text v) else response_header r m)"
proof -
  have "nul \<notin> set (header_text v)" by (auto simp: header_text_def cstr_def dest: in_set_takeD set_takeWhileD)
  then have "cstr (header_text v @ [nul]) = header_text v" by (simp add: cstr_def takeWhile_append_delim)
  then show ?thesis by (simp add: response_header_def find_set_header)
qed

lemma set_header_fields [simp]:
  "rs_status (ioh_response_set_header r n v) = rs_status r" "rs_body (ioh_response_set_header r n v) = rs_body r"
  by (simp_all add: ioh_response_set_header_def append_header_def grow_headers_def Let_def split: option.split)

lemma set_body_fields [simp]:
  "rs_status (snd (ioh_response_set_body r b n)) = rs_status r" "rs_body (snd (ioh_response_set_body r (Some buf) (length buf))) = buf"
  "response_header (snd (ioh_response_set_body r b n)) m = response_header r m"
  by (auto simp: ioh_response_set_body_def response_header_def Let_def split: option.split)

lemma set_etag_fields [simp]: "rs_status (set_etag etag r) = rs_status r" "rs_body (set_etag etag r) = rs_body r"
  by (simp_all add: set_etag_def split: option.split)

lemma static_header_names:
  "header_text ''Content-Type'' = ''Content-Type''" "header_text ''Content-Length'' = ''Content-Length''"
  "header_text ''Content-Range'' = ''Content-Range''" "header_text ''Accept-Ranges'' = ''Accept-Ranges''"
  "header_text ''ETag'' = ''ETag''" "header_text ''Last-Modified'' = ''Last-Modified''" "header_text ''Cache-Control'' = ''Cache-Control''"
  by (simp_all add: header_text_plain plain_text_def IOH_MAX_HEADER_SIZE_def)

lemma static_headers_differ:
  "\<not> ci_eq ''Content-Type'' ''Content-Length''" "\<not> ci_eq ''Accept-Ranges'' ''Content-Length''" "\<not> ci_eq ''ETag'' ''Content-Length''"
  "\<not> ci_eq ''Last-Modified'' ''Content-Length''" "\<not> ci_eq ''Cache-Control'' ''Content-Length''"
  "\<not> ci_eq ''Content-Type'' ''Content-Range''" "\<not> ci_eq ''Content-Length'' ''Content-Range''" "\<not> ci_eq ''Accept-Ranges'' ''Content-Range''"
  "\<not> ci_eq ''ETag'' ''Content-Range''" "\<not> ci_eq ''Last-Modified'' ''Content-Range''" "\<not> ci_eq ''Cache-Control'' ''Content-Range''"
  by code_simp+

lemma digits_plain: "is_digit c \<Longrightarrow> c \<noteq> nul"
  by (auto simp: is_digit_def)

lemma digits_text:
  assumes "length (dec_digits n) \<le> 31"
  shows "header_text (printed 32 (dec_digits n)) = dec_digits n"
proof -
  have "plain_text (dec_digits n)"
    using assms dec_digits_all_digits [of n] digits_plain by (auto simp: plain_text_def IOH_MAX_HEADER_SIZE_def)
  with assms show ?thesis by (simp add: printed_def header_text_plain)
qed

lemma content_range_text:
  fixes a b n :: u64
  defines "t \<equiv> ''bytes '' @ dec_digits (unat a) @ ''-'' @ dec_digits (unat b) @ ''/'' @ dec_digits (unat n)"
  shows "header_text (printed 128 t) = t"
proof -
  have "length t \<le> 100" using u64_digits [of a] u64_digits [of b] u64_digits [of n] by (simp add: t_def)
  moreover have "nul \<notin> set t" using dec_digits_all_digits digits_plain by (auto simp: t_def)
  ultimately show ?thesis by (simp add: printed_def header_text_plain plain_text_def IOH_MAX_HEADER_SIZE_def)
qed

lemma file_response_fields:
  assumes r_def: "r = file_response fs cfg path st etag rng buf resp"
  shows "rs_body r = buf" and "rs_status r = (if rng = None then 200 else 206)"
    and "length buf < 2 ^ 64 \<Longrightarrow> response_header r ''Content-Length'' = Some (dec_digits (length buf))"
    and "rng = Some (start, stop) \<Longrightarrow> response_header r ''Content-Range'' =
      Some (''bytes '' @ dec_digits (unat start) @ ''-'' @ dec_digits (unat stop) @ ''/'' @ dec_digits (unat (st_size st)))"
proof -
  show "rs_body r = buf" by (simp add: r_def file_response_def Let_def)
  show "rs_status r = (if rng = None then 200 else 206)"
    by (simp add: r_def file_response_def set_range_def Let_def split: option.split prod.split)
  have etag: "response_header (set_etag etag s) m = response_header s m" if "\<not> ci_eq ''ETag'' m" for s m
    using that by (simp add: set_etag_def response_header_set static_header_names split: option.split)
  show "response_header r ''Content-Length'' = Some (dec_digits (length buf))" if "length buf < 2 ^ 64"
  proof -
    have "length (dec_digits (length buf)) \<le> Suc 19" using that by (intro dec_digits_length) simp
    then have "header_text (printed 32 (dec_digits (length buf))) = dec_digits (length buf)" by (intro digits_text) simp
    then show ?thesis
      by (simp add: r_def file_response_def Let_def response_header_set static_header_names static_headers_differ etag split: option.split)
  qed
  show "response_header r ''Content-Range'' =
      Some (''bytes '' @ dec_digits (unat start) @ ''-'' @ dec_digits (unat stop) @ ''/'' @ dec_digits (unat (st_size st)))"
    if "rng = Some (start, stop)"
    using content_range_text [of start stop "st_size st"] that
    by (simp add: r_def file_response_def set_range_def Let_def response_header_set static_header_names static_headers_differ etag
        split: option.split)
qed

lemma static_lookup_found:
  assumes "static_lookup fs root path = Inr (file, st)"
  shows "path_is_safe path" and "fs_realpath fs (cstr root @ path) = Some file" and "fs_stat fs file = Some st" and "\<not> st_is_dir st"
    and "\<exists>real_root. fs_realpath fs root = Some real_root \<and> (file = real_root \<or> prefix (real_root @ [slash]) file)"
  using assms by (auto simp: static_lookup_def below_iff split: if_splits option.splits)

lemma read_file_slice:
  assumes "read_file fs file st rng = Inr buf" and "\<And>start stop. rng = Some (start, stop) \<Longrightarrow> start \<le> stop \<and> stop < st_size st"
  shows "\<exists>content. fs_read fs file = Some content \<and>
    (case rng of
       None \<Rightarrow> buf = take (unat (st_size st)) content \<and> length buf = unat (st_size st)
     | Some (start, stop) \<Rightarrow> buf = take (length buf) (drop (unat start) content) \<and> unat start + length buf = unat stop + 1)"
proof (cases rng)
  case None
  with assms(1) show ?thesis by (auto simp: read_file_def Let_def split: option.splits if_splits)
next
  case (Some p)
  obtain start stop where p: "p = (start, stop)" by (cases p)
  then have "start \<le> stop" "stop < st_size st" using assms(2) Some by auto
  have "stop - start + 1 \<noteq> 0 \<and> unat (stop - start) = unat stop - unat start"
    using \<open>start \<le> stop\<close> \<open>stop < st_size st\<close> unat_sub [OF \<open>start \<le> stop\<close>] unat_bound [of "st_size st"]
    by (auto simp: word_less_nat_alt dest: arg_cong [where f = unat] simp: unat_word_ariths)
  then have "unat (stop - start + 1) = unat stop - unat start + 1"
    using \<open>stop < st_size st\<close> unat_bound [of "st_size st"] by (subst unat_increment) (auto simp: word_less_nat_alt)
  moreover have "unat start \<le> unat stop" using \<open>start \<le> stop\<close> by (simp add: word_le_nat_alt)
  ultimately show ?thesis using assms(1) by (auto simp: Some p read_file_def Let_def split: option.splits if_splits)
qed

lemma file_range_bounds: "file_range st req = Some (start, stop) \<Longrightarrow> start \<le> stop \<and> stop < st_size st"
  using parse_range_bounds by (fastforce simp: file_range_def split: option.splits if_splits)

text \<open>A response that carries a file, or a range of it, with the headers that say so.\<close>

definition carries :: "string \<Rightarrow> u64 \<Rightarrow> ioh_response \<Rightarrow> bool" where
  "carries content file_size r \<longleftrightarrow>
     (\<exists>start. rs_body r = take (length (rs_body r)) (drop start content) \<and>
        response_header r ''Content-Length'' = Some (dec_digits (length (rs_body r))) \<and>
        (rs_status r = 200 \<and> start = 0 \<and> length (rs_body r) = unat file_size \<or>
         rs_status r = 206 \<and> rs_body r \<noteq> [] \<and> start + length (rs_body r) \<le> unat file_size \<and>
           response_header r ''Content-Range'' =
             Some (''bytes '' @ dec_digits start @ ''-'' @ dec_digits (start + length (rs_body r) - 1) @ ''/'' @ dec_digits (unat file_size))))"

lemma file_response_carries:
  assumes "read_file fs doc st (file_range st req) = Inr buf" and "r = file_response fs cfg path st etag (file_range st req) buf resp"
  shows "\<exists>content. fs_read fs doc = Some content \<and> carries content (st_size st) r"
proof -
  note f = file_response_fields [OF assms(2)]
  have "\<exists>content. fs_read fs doc = Some content \<and>
      (case file_range st req of
         None \<Rightarrow> buf = take (unat (st_size st)) content \<and> length buf = unat (st_size st)
       | Some (start, stop) \<Rightarrow> buf = take (length buf) (drop (unat start) content) \<and> unat start + length buf = unat stop + 1)"
    by (rule read_file_slice [OF assms(1)]) (rule file_range_bounds)
  then obtain content where c: "fs_read fs doc = Some content"
    "case file_range st req of
       None \<Rightarrow> buf = take (unat (st_size st)) content \<and> length buf = unat (st_size st)
     | Some (start, stop) \<Rightarrow> buf = take (length buf) (drop (unat start) content) \<and> unat start + length buf = unat stop + 1" by blast
  show ?thesis
  proof (cases "file_range st req")
    case None
    then have "length buf < 2 ^ 64" using c(2) unat_bound [of "st_size st"] by simp
    with None c f show ?thesis by (auto simp: carries_def intro!: exI [of _ 0])
  next
    case (Some p)
    obtain start stop where p: "p = (start, stop)" by (cases p)
    then have b: "unat start \<le> unat stop" "unat stop < unat (st_size st)"
      using file_range_bounds [of st req start stop] Some by (auto simp: word_le_nat_alt word_less_nat_alt)
    have n: "buf = take (length buf) (drop (unat start) content)" "unat start + length buf = unat stop + 1" using c(2) Some p by auto
    have "length buf < 2 ^ 64" using n(2) b unat_bound [of "st_size st"] by simp
    moreover have "buf \<noteq> []" "unat start + length buf \<le> unat (st_size st)" "unat start + length buf - 1 = unat stop" using n(2) b by auto
    ultimately show ?thesis using Some p c(1) n(1) f by (auto simp: carries_def intro!: exI [of _ "unat start"])
  qed
qed

subsection \<open>Properties\<close>


text \<open>A file system with one file of five bytes, and a request for three of them.\<close>

definition example_fs :: filesys where
  "example_fs =
     \<lparr>fs_realpath = (\<lambda>p. if p = ''/w'' \<or> p = ''/w/a.txt'' then Some p else None),
      fs_stat = (\<lambda>p. if p = ''/w/a.txt'' then Some \<lparr>st_is_dir = False, st_is_reg = True, st_size = 5, st_mtime = 7\<rparr> else None),
      fs_read = (\<lambda>p. if p = ''/w/a.txt'' then Some ''hello'' else None),
      fs_parse_time = (\<lambda>t. None), fs_format_time = (\<lambda>t. None)\<rparr>"

definition example_range_request :: ioh_request where
  "example_range_request = ioh_request_init\<lparr>req_path := ''/a.txt'',
     req_headers := [\<lparr>h_name = ''Range'', h_mem = ''bytes=1-3'' @ [nul], h_value_len = 9\<rparr>]\<rparr>"


end
