(* ===== verification/Spa.thy ===== *)
theory Spa
  imports Static
begin

text \<open>
  Single-page applications, \<^verbatim>\<open>src/static/ioh_spa.c\<close>: files are served as static files, unknown paths without an extension by
  the index page.
\<close>

record ioh_spa_config =
  sp_root_dir :: "string option"
  sp_index_file :: "string option"
  sp_api_prefixes :: "string list"
  sp_max_age_default :: u32
  sp_max_age_immutable :: u32

definition ioh_spa_config_init :: ioh_spa_config where
  "ioh_spa_config_init =
     \<lparr>sp_root_dir = None, sp_index_file = Some ''index.html'', sp_api_prefixes = [], sp_max_age_default = 3600,
      sp_max_age_immutable = 31536000\<rparr>"

definition is_hex :: "char \<Rightarrow> bool" where
  "is_hex c \<longleftrightarrow>
     48 \<le> byte_val c \<and> byte_val c \<le> 57 \<or> 97 \<le> byte_val c \<and> byte_val c \<le> 102 \<or> 65 \<le> byte_val c \<and> byte_val c \<le> 70"

definition is_api_path :: "ioh_spa_config \<Rightarrow> string \<Rightarrow> bool" where
  "is_api_path cfg path \<longleftrightarrow>
     list_ex (\<lambda>p. let pre = take IOH_MAX_URI_SIZE (cstr p) in length path \<ge> length pre \<and> take (length pre) path = pre)
       (sp_api_prefixes cfg)"

definition file_name :: "string \<Rightarrow> string" where
  "file_name path = rev (takeWhile (\<lambda>c. c \<noteq> slash) (rev path))"

definition has_extension :: "string \<Rightarrow> bool" where
  "has_extension path \<longleftrightarrow> CHR ''.'' \<in> set (file_name path)"

text \<open>The part of a text before its last dot, and the part behind it.\<close>

definition split_last_dot :: "string \<Rightarrow> (string \<times> string) option" where
  "split_last_dot s =
     (case dropWhile (\<lambda>c. c \<noteq> CHR ''.'') (rev s) of
        [] \<Rightarrow> None
      | _ # before \<Rightarrow> Some (rev before, rev (takeWhile (\<lambda>c. c \<noteq> CHR ''.'') (rev s))))"

definition ioh_spa_is_hashed_asset :: "string \<Rightarrow> bool" where
  "ioh_spa_is_hashed_asset path \<longleftrightarrow>
     (case split_last_dot (file_name path) of
        None \<Rightarrow> False
      | Some (base, _) \<Rightarrow>
          if base = [] then False
          else case split_last_dot base of
                 None \<Rightarrow> False
               | Some (_, hash) \<Rightarrow> length hash \<ge> 6 \<and> list_all is_hex hash)"

definition immutable_text :: "u32 \<Rightarrow> string" where
  "immutable_text age = printed 80 (''public, max-age='' @ dec_digits (unat age) @ '', immutable'')"

definition ioh_spa_serve ::
  "filesys \<Rightarrow> ioh_spa_config \<Rightarrow> ioh_request \<Rightarrow> ioh_response \<Rightarrow> (unit, ioh_response) outcome" where
  "ioh_spa_serve fs cfg req resp =
     (case sp_root_dir cfg of
        None \<Rightarrow> (Inl EINVAL, resp)
      | Some root \<Rightarrow>
          if req_path req = [] then (Inl EINVAL, resp)
          else if is_api_path cfg (req_path req) then (Inl ENOENT, resp)
          else if length (cstr root @ cstr (req_path req)) \<ge> PATH_MAX then (Inl ENAMETOOLONG, resp)
          else if (case fs_stat fs (cstr root @ cstr (req_path req)) of None \<Rightarrow> False | Some st \<Rightarrow> st_is_reg st) then
            (case ioh_static_serve fs
                    (ioh_static_config_init\<lparr>sc_root_dir := Some root, sc_max_age_default := sp_max_age_default cfg\<rparr>) req resp of
               (Inl e, resp) \<Rightarrow> (Inl e, resp)
             | (Inr _, resp) \<Rightarrow>
                 (Inr (), if ioh_spa_is_hashed_asset (req_path req)
                          then ioh_response_set_header resp ''Cache-Control'' (immutable_text (sp_max_age_immutable cfg))
                          else resp))
          else if has_extension (req_path req) then (Inl ENOENT, resp)
          else
            (let index = (case sp_index_file cfg of None \<Rightarrow> ''index.html'' | Some index \<Rightarrow> cstr index);
                 index_path = slash # index
             in if length index_path \<ge> PATH_MAX then (Inl ENAMETOOLONG, resp)
                else
                  (case ioh_static_serve fs (ioh_static_config_init\<lparr>sc_root_dir := Some root\<rparr>)
                          (ioh_request_init\<lparr>req_method := req_method req, req_path := index_path\<rparr>) resp of
                     (Inl e, resp) \<Rightarrow> (Inl e, resp)
                   | (Inr _, resp) \<Rightarrow> (Inr (), ioh_response_set_header resp ''Cache-Control'' ''no-cache''))))"

subsection \<open>Lemmas\<close>

lemma hashed_asset_extension: "ioh_spa_is_hashed_asset path \<Longrightarrow> has_extension path"
proof -
  assume "ioh_spa_is_hashed_asset path"
  then have "split_last_dot (file_name path) \<noteq> None" by (auto simp: ioh_spa_is_hashed_asset_def split: option.splits)
  then have "dropWhile (\<lambda>c. c \<noteq> CHR ''.'') (rev (file_name path)) \<noteq> []"
    unfolding split_last_dot_def by (metis list.case(1))
  then show ?thesis unfolding dropWhile_eq_Nil_conv by (simp add: has_extension_def)
qed

text \<open>Every page comes from a static file, the requested one or the index, and the cache policy follows from which.\<close>

lemma spa_serves_static:
  assumes "ioh_spa_serve fs cfg req resp = (Inr (), resp')"
  shows "\<not> is_api_path cfg (req_path req) \<and>
    (\<exists>static_cfg static_req served. sc_root_dir static_cfg = sp_root_dir cfg \<and>
       ioh_static_serve fs static_cfg static_req resp = (Inr (), served) \<and>
       rs_status resp' = rs_status served \<and> rs_body resp' = rs_body served \<and>
       (static_req = req \<or>
        \<not> has_extension (req_path req) \<and> req_headers static_req = [] \<and> response_header resp' ''Cache-Control'' = Some ''no-cache'') \<and>
       (static_req = req \<and> ioh_spa_is_hashed_asset (req_path req) \<longrightarrow>
          response_header resp' ''Cache-Control'' = Some (immutable_text (sp_max_age_immutable cfg))))"
proof -
  have "length (dec_digits (unat (sp_max_age_immutable cfg))) \<le> Suc 9"
    using unat_bound [of "sp_max_age_immutable cfg"] by (intro dec_digits_length) simp
  moreover have "nul \<notin> set (dec_digits n)" for n using dec_digits_all_digits digits_plain by blast
  ultimately have imm: "header_text (immutable_text (sp_max_age_immutable cfg)) = immutable_text (sp_max_age_immutable cfg)"
    by (intro header_text_plain) (auto simp: immutable_text_def printed_def plain_text_def IOH_MAX_HEADER_SIZE_def dest: in_set_takeD)
  have nc: "header_text ''no-cache'' = ''no-cache''" by (simp add: header_text_plain plain_text_def IOH_MAX_HEADER_SIZE_def)
  obtain root where root: "sp_root_dir cfg = Some root" using assms by (auto simp: ioh_spa_serve_def split: option.splits)
  consider (doc) served where "\<not> is_api_path cfg (req_path req)"
      "ioh_static_serve fs (ioh_static_config_init\<lparr>sc_root_dir := Some root, sc_max_age_default := sp_max_age_default cfg\<rparr>) req resp =
         (Inr (), served)"
      "resp' = (if ioh_spa_is_hashed_asset (req_path req)
                then ioh_response_set_header served ''Cache-Control'' (immutable_text (sp_max_age_immutable cfg)) else served)"
    | (index) served p where "\<not> is_api_path cfg (req_path req)" "\<not> has_extension (req_path req)"
      "ioh_static_serve fs (ioh_static_config_init\<lparr>sc_root_dir := Some root\<rparr>)
         (ioh_request_init\<lparr>req_method := req_method req, req_path := p\<rparr>) resp = (Inr (), served)"
      "resp' = ioh_response_set_header served ''Cache-Control'' ''no-cache''"
    using assms by (auto simp: ioh_spa_serve_def root Let_def split: if_splits sum.splits prod.splits)
  then show ?thesis
  proof cases
    case doc
    then show ?thesis using imm
      by (intro conjI exI [of _ "ioh_static_config_init\<lparr>sc_root_dir := Some root, sc_max_age_default := sp_max_age_default cfg\<rparr>"]
          exI [of _ req] exI [of _ served]) (auto simp: root response_header_set static_header_names)
  next
    case index
    then show ?thesis using nc hashed_asset_extension [of "req_path req"]
      by (intro conjI exI [of _ "ioh_static_config_init\<lparr>sc_root_dir := Some root\<rparr>"]
          exI [of _ "ioh_request_init\<lparr>req_method := req_method req, req_path := p\<rparr>"] exI [of _ served])
        (auto simp: root response_header_set static_header_names ioh_request_init_def)
  qed
qed

end
