(* ===== verification/Sse.thy ===== *)
theory Sse
  imports Iohttp_Prelude
begin

text \<open>
  Server-sent events, \<^verbatim>\<open>src/ws/ioh_sse.c\<close>.

  The buffer of a stream is the list of its \<^verbatim>\<open>buf_len\<close> bytes with the capacity beside it.  The parameter \<open>alloc\<close> tells whether an
  allocation of a given size succeeds.  The strings of an event are C strings, \<open>None\<close> a null pointer.  Sizes are those of
  objects in memory, so the doubling of the capacity does not wrap around.
\<close>

record ioh_sse_event =
  ev_event :: "string option"
  ev_data :: "string option"
  ev_id :: "string option"
  ev_retry_ms :: u32

record ioh_sse_stream =
  ss_buf :: string
  ss_capacity :: nat
  ss_last_event_id :: "string option"
  ss_headers_sent :: bool

type_synonym sse_op = "ioh_sse_stream \<Rightarrow> (unit, ioh_sse_stream) outcome"

definition IOH_SSE_INITIAL_BUF :: nat where "IOH_SSE_INITIAL_BUF = 1024"

definition IOH_SSE_HEADERS :: string where
  "IOH_SSE_HEADERS =
     ''Content-Type: text/event-stream; charset=utf-8'' @ [cr, lf] @ ''Cache-Control: no-cache'' @ [cr, lf] @
     ''Connection: keep-alive'' @ [cr, lf] @ [cr, lf]"

subsection \<open>The buffer\<close>

function double_until :: "nat \<Rightarrow> nat \<Rightarrow> nat" where
  "double_until needed new_cap = (if 0 < new_cap \<and> new_cap < needed then double_until needed (new_cap * 2) else new_cap)"
  by pat_completeness auto

termination
  by (relation "measure (\<lambda>(needed, new_cap). needed - new_cap)") auto

declare double_until.simps [simp del]

definition sse_ensure_capacity :: "(nat \<Rightarrow> bool) \<Rightarrow> nat \<Rightarrow> sse_op" where
  "sse_ensure_capacity alloc additional stream =
     (let needed = length (ss_buf stream) + additional
      in if needed \<le> ss_capacity stream then (Inr (), stream)
         else
           (let new_cap = double_until needed (if ss_capacity stream = 0 then IOH_SSE_INITIAL_BUF else ss_capacity stream)
            in if alloc new_cap then (Inr (), stream\<lparr>ss_capacity := new_cap\<rparr>) else (Inl ENOMEM, stream)))"

definition sse_append :: "(nat \<Rightarrow> bool) \<Rightarrow> string \<Rightarrow> sse_op" where
  "sse_append alloc data stream =
     (case sse_ensure_capacity alloc (length data) stream of
        (Inl e, stream) \<Rightarrow> (Inl e, stream)
      | (Inr _, stream) \<Rightarrow> (Inr (), stream\<lparr>ss_buf := ss_buf stream @ data\<rparr>))"

text \<open>The early return behind every call.\<close>

definition and_then :: "sse_op \<Rightarrow> sse_op \<Rightarrow> sse_op" where
  "and_then f g stream = (case f stream of (Inl e, stream) \<Rightarrow> (Inl e, stream) | (Inr _, stream) \<Rightarrow> g stream)"

definition nothing :: sse_op where
  "nothing stream = (Inr (), stream)"

primrec append_all :: "(nat \<Rightarrow> bool) \<Rightarrow> string list \<Rightarrow> sse_op" where
  "append_all alloc [] = nothing"
| "append_all alloc (t # ts) = and_then (sse_append alloc t) (append_all alloc ts)"

definition ioh_sse_stream_init :: "(nat \<Rightarrow> bool) \<Rightarrow> errno + ioh_sse_stream" where
  "ioh_sse_stream_init alloc =
     (if alloc IOH_SSE_INITIAL_BUF then Inr \<lparr>ss_buf = [], ss_capacity = IOH_SSE_INITIAL_BUF, ss_last_event_id = None, ss_headers_sent = False\<rparr> else Inl ENOMEM)"

subsection \<open>Formatting\<close>

definition ioh_sse_format_headers :: "nat \<Rightarrow> errno + string" where
  "ioh_sse_format_headers buf_size = (if buf_size < length IOH_SSE_HEADERS then Inl ENOSPC else Inr IOH_SSE_HEADERS)"

definition track_id :: "(nat \<Rightarrow> bool) \<Rightarrow> string \<Rightarrow> sse_op" where
  "track_id alloc i stream =
     (if alloc (length i + 1) then (Inr (), stream\<lparr>ss_last_event_id := Some i\<rparr>)
      else (Inl ENOMEM, stream\<lparr>ss_last_event_id := None\<rparr>))"

function data_lines :: "string \<Rightarrow> string list" where
  "data_lines p =
     (if p = [] then []
      else takeWhile (\<lambda>c. c \<noteq> lf) p # data_lines (tl (dropWhile (\<lambda>c. c \<noteq> lf) p)))"
  by pat_completeness auto

termination
proof (relation "measure length", simp)
  fix p :: string
  assume "p \<noteq> []"
  then show "(tl (dropWhile (\<lambda>c. c \<noteq> lf) p), p) \<in> measure length"
    using dropWhile_length_le [of "\<lambda>c. c \<noteq> lf" p] by (cases p) (auto simp: less_Suc_eq_le)
qed

declare data_lines.simps [simp del]

definition ioh_sse_format_event :: "(nat \<Rightarrow> bool) \<Rightarrow> ioh_sse_event \<Rightarrow> sse_op" where
  "ioh_sse_format_event alloc event stream =
     (case ev_data event of
        None \<Rightarrow> (Inl EINVAL, stream)
      | Some data \<Rightarrow>
          and_then (case ev_event event of None \<Rightarrow> nothing | Some e \<Rightarrow> append_all alloc [''event: '', cstr e, [lf]])
          (and_then (case ev_id event of
                       None \<Rightarrow> nothing
                     | Some i \<Rightarrow> and_then (append_all alloc [''id: '', cstr i, [lf]]) (track_id alloc (cstr i)))
          (and_then (if ev_retry_ms event > 0 then sse_append alloc (''retry: '' @ dec_digits (unat (ev_retry_ms event)) @ [lf]) else nothing)
          (and_then (append_all alloc (concat (map (\<lambda>l. [''data: '', l, [lf]]) (data_lines (cstr data)))))
          (and_then (if cstr data = [] then sse_append alloc (''data: '' @ [lf]) else nothing)
          (sse_append alloc [lf]))))) stream)"

definition ioh_sse_format_comment :: "(nat \<Rightarrow> bool) \<Rightarrow> string \<Rightarrow> sse_op" where
  "ioh_sse_format_comment alloc comment = append_all alloc ['': '', cstr comment, [lf, lf]]"

definition ioh_sse_stream_flush :: "ioh_sse_stream \<Rightarrow> string \<times> ioh_sse_stream" where
  "ioh_sse_stream_flush stream = (ss_buf stream, stream\<lparr>ss_buf := []\<rparr>)"

subsection \<open>A client\<close>

text \<open>
  The client of the event stream format: fields collect until an empty line dispatches the event; lines that start with a colon are
  comments; the data lines of an event are joined by line feeds.
\<close>

record sse_client =
  cl_data :: string
  cl_type :: string
  cl_id :: string
  cl_events :: "(string \<times> string \<times> string) list"

definition dispatch_event :: "sse_client \<Rightarrow> sse_client" where
  "dispatch_event c =
     (if cl_data c = [] then c\<lparr>cl_type := []\<rparr>
      else c\<lparr>cl_events := cl_events c @ [(if cl_type c = [] then ''message'' else cl_type c, butlast (cl_data c), cl_id c)],
             cl_data := [], cl_type := []\<rparr>)"

definition client_field :: "sse_client \<Rightarrow> string \<Rightarrow> string \<Rightarrow> sse_client" where
  "client_field c name v =
     (if name = ''data'' then c\<lparr>cl_data := cl_data c @ v @ [lf]\<rparr>
      else if name = ''event'' then c\<lparr>cl_type := v\<rparr>
      else if name = ''id'' then c\<lparr>cl_id := v\<rparr>
      else c)"

definition client_line :: "sse_client \<Rightarrow> string \<Rightarrow> sse_client" where
  "client_line c line =
     (if line = [] then dispatch_event c
      else if hd line = CHR '':'' then c
      else
        (let name = takeWhile (\<lambda>ch. ch \<noteq> CHR '':'') line; v = tl (dropWhile (\<lambda>ch. ch \<noteq> CHR '':'') line)
         in client_field c name (if v \<noteq> [] \<and> hd v = CHR '' '' then tl v else v)))"

function complete_lines :: "string \<Rightarrow> string list" where
  "complete_lines s =
     (if lf \<in> set s then takeWhile (\<lambda>c. c \<noteq> lf) s # complete_lines (tl (dropWhile (\<lambda>c. c \<noteq> lf) s)) else [])"
  by pat_completeness auto

termination
proof (relation "measure length", simp)
  fix s :: string
  assume "lf \<in> set s"
  then show "(tl (dropWhile (\<lambda>c. c \<noteq> lf) s), s) \<in> measure length"
    using dropWhile_length_le [of "\<lambda>c. c \<noteq> lf" s] by (cases s) (auto simp: less_Suc_eq_le)
qed

declare complete_lines.simps [simp del]

definition client_reads :: "string \<Rightarrow> sse_client \<Rightarrow> sse_client" where
  "client_reads s c = foldl client_line c (complete_lines s)"

subsection \<open>What the operations write\<close>

definition writes :: "sse_op \<Rightarrow> string \<Rightarrow> bool" where
  "writes f t \<longleftrightarrow> (\<forall>s. fst (f s) = Inr () \<and> ss_buf (snd (f s)) = ss_buf s @ t)"

lemma writes_and_then [intro]: "writes f a \<Longrightarrow> writes g b \<Longrightarrow> writes (and_then f g) (a @ b)"
  unfolding writes_def and_then_def by (auto split: prod.splits sum.splits) (metis fst_conv sum.distinct(1), metis snd_conv append.assoc)

lemma writes_nothing [intro]: "writes nothing []"
  by (simp add: writes_def nothing_def)

lemma writes_append [intro]: "(\<And>n. alloc n) \<Longrightarrow> writes (sse_append alloc t) t"
  by (simp add: writes_def sse_append_def sse_ensure_capacity_def Let_def)

lemma writes_append_all [intro]: "(\<And>n. alloc n) \<Longrightarrow> writes (append_all alloc ts) (concat ts)"
  by (induction ts) auto

lemma writes_track [intro]: "(\<And>n. alloc n) \<Longrightarrow> writes (track_id alloc i) []"
  by (simp add: writes_def track_id_def)

definition event_text :: "ioh_sse_event \<Rightarrow> string \<Rightarrow> string" where
  "event_text event data =
     (case ev_event event of None \<Rightarrow> [] | Some e \<Rightarrow> ''event: '' @ cstr e @ [lf]) @
     (case ev_id event of None \<Rightarrow> [] | Some i \<Rightarrow> ''id: '' @ cstr i @ [lf]) @
     (if ev_retry_ms event > 0 then ''retry: '' @ dec_digits (unat (ev_retry_ms event)) @ [lf] else []) @
     concat (map (\<lambda>l. ''data: '' @ l @ [lf]) (data_lines (cstr data))) @
     (if cstr data = [] then ''data: '' @ [lf] else []) @ [lf]"

lemma format_event_writes:
  assumes "\<And>n. alloc n" and "ev_data event = Some data"
  shows "writes (ioh_sse_format_event alloc event) (event_text event data)"
proof -
  have "writes (case ev_event event of None \<Rightarrow> nothing | Some e \<Rightarrow> append_all alloc [''event: '', cstr e, [lf]])
      (case ev_event event of None \<Rightarrow> [] | Some e \<Rightarrow> ''event: '' @ cstr e @ [lf])"
    using writes_append_all [OF assms(1), where ts = "[''event: '', cstr e, [lf]]" for e] by (auto split: option.split)
  moreover have "writes (case ev_id event of None \<Rightarrow> nothing
        | Some i \<Rightarrow> and_then (append_all alloc [''id: '', cstr i, [lf]]) (track_id alloc (cstr i)))
      (case ev_id event of None \<Rightarrow> [] | Some i \<Rightarrow> ''id: '' @ cstr i @ [lf])"
  proof -
    have "writes (and_then (append_all alloc [''id: '', cstr i, [lf]]) (track_id alloc (cstr i))) (''id: '' @ cstr i @ [lf])" for i
      using writes_and_then [OF writes_append_all [OF assms(1), where ts = "[''id: '', cstr i, [lf]]"] writes_track [OF assms(1), where i = "cstr i"]]
      by simp
    then show ?thesis by (auto split: option.split)
  qed
  moreover have "writes (append_all alloc (concat (map (\<lambda>l. [''data: '', l, [lf]]) ls))) (concat (map (\<lambda>l. ''data: '' @ l @ [lf]) ls))" for ls
  proof -
    have "concat (concat (map (\<lambda>l. [''data: '', l, [lf]]) ls)) = concat (map (\<lambda>l. ''data: '' @ l @ [lf]) ls)" by (induction ls) simp_all
    then show ?thesis using writes_append_all [OF assms(1), where ts = "concat (map (\<lambda>l. [''data: '', l, [lf]]) ls)"] by simp
  qed
  moreover have "writes (if b then sse_append alloc t else nothing) (if b then t else [])" for b t using writes_append [OF assms(1)] by auto
  ultimately have "writes
      (and_then (case ev_event event of None \<Rightarrow> nothing | Some e \<Rightarrow> append_all alloc [''event: '', cstr e, [lf]])
      (and_then (case ev_id event of None \<Rightarrow> nothing
         | Some i \<Rightarrow> and_then (append_all alloc [''id: '', cstr i, [lf]]) (track_id alloc (cstr i)))
      (and_then (if ev_retry_ms event > 0 then sse_append alloc (''retry: '' @ dec_digits (unat (ev_retry_ms event)) @ [lf]) else nothing)
      (and_then (append_all alloc (concat (map (\<lambda>l. [''data: '', l, [lf]]) (data_lines (cstr data)))))
      (and_then (if cstr data = [] then sse_append alloc (''data: '' @ [lf]) else nothing) (sse_append alloc [lf])))))) (event_text event data)"
    unfolding event_text_def by (intro writes_and_then) (assumption | rule writes_append [OF assms(1)])+
  then show ?thesis unfolding writes_def by (simp add: ioh_sse_format_event_def assms(2))
qed

subsection \<open>What the client reads\<close>

lemma complete_lines_line: "lf \<notin> set l \<Longrightarrow> complete_lines (l @ lf # r) = l # complete_lines r"
  by (subst complete_lines.simps) (simp add: takeWhile_append_delim dropWhile_append_delim)

lemma reads_line: "lf \<notin> set l \<Longrightarrow> client_reads (l @ lf # r) c = client_reads r (client_line c l)"
  by (simp add: client_reads_def complete_lines_line)

lemma client_line_field:
  assumes "name \<noteq> []" and "CHR '':'' \<notin> set name"
  shows "client_line c (name @ '': '' @ v) = client_field c name v"
proof -
  have "takeWhile (\<lambda>ch. ch \<noteq> CHR '':'') (name @ '': '' @ v) = name" "dropWhile (\<lambda>ch. ch \<noteq> CHR '':'') (name @ '': '' @ v) = '': '' @ v"
    using assms(2) by (simp_all add: takeWhile_append_delim dropWhile_append_delim)
  moreover have "hd (name @ '': '' @ v) \<noteq> CHR '':''" using assms by (cases name) auto
  ultimately show ?thesis using assms(1) by (simp add: client_line_def)
qed

lemma reads_field:
  assumes "name \<noteq> []" and "CHR '':'' \<notin> set name" and "lf \<notin> set name" and "lf \<notin> set v"
  shows "client_reads (name @ '': '' @ v @ lf # r) c = client_reads r (client_field c name v)"
  using reads_line [of "name @ '': '' @ v" r c] client_line_field [OF assms(1,2)] assms(3,4) by simp

lemma data_lines_plain: "l \<in> set (data_lines d) \<Longrightarrow> lf \<notin> set l"
proof (induction d rule: data_lines.induct)
  case (1 p)
  from 1(2) have "p \<noteq> []" "l = takeWhile (\<lambda>c. c \<noteq> lf) p \<or> l \<in> set (data_lines (tl (dropWhile (\<lambda>c. c \<noteq> lf) p)))"
    by (subst (asm) data_lines.simps; simp split: if_splits)+
  with 1(1) takeWhile_no_delim [of lf p] show ?case by auto
qed

lemma reads_data:
  assumes "\<forall>l\<in>set ls. lf \<notin> set l"
  shows "client_reads (concat (map (\<lambda>l. ''data: '' @ l @ [lf]) ls) @ r) c =
    client_reads r (c\<lparr>cl_data := cl_data c @ concat (map (\<lambda>l. l @ [lf]) ls)\<rparr>)"
  using assms
proof (induction ls arbitrary: c)
  case (Cons l ls)
  then show ?case
    using reads_field [of "''data''" l "concat (map (\<lambda>l. ''data: '' @ l @ [lf]) ls) @ r" c] by (simp add: client_field_def)
qed simp

lemma data_lines_nil: "data_lines [] = []"
  by (subst data_lines.simps) simp

lemma data_lines_last: "p \<noteq> [] \<Longrightarrow> lf \<notin> set p \<Longrightarrow> data_lines p = [p]"
proof -
  assume "p \<noteq> []" and p: "lf \<notin> set p"
  from p have "takeWhile (\<lambda>c. c \<noteq> lf) p = p" "dropWhile (\<lambda>c. c \<noteq> lf) p = []"
    using takeWhile_append_delim [of lf p "[]"] dropWhile_append_delim [of lf p "[]"] by simp_all
  with \<open>p \<noteq> []\<close> show ?thesis unfolding data_lines.simps [of p] by (simp only: if_False list.sel data_lines_nil)
qed

lemma data_lines_step: "lf \<notin> set t \<Longrightarrow> data_lines (t @ lf # r) = t # data_lines r"
  by (subst data_lines.simps) (simp add: takeWhile_append_delim dropWhile_append_delim)

lemma data_lines_joined:
  "concat (map (\<lambda>l. l @ [lf]) (data_lines d)) = (if d = [] then [] else if last d = lf then d else d @ [lf])"
proof (induction d rule: length_induct)
  case (1 p)
  show ?case
  proof (cases "lf \<in> set p")
    case True
    then obtain t r where p: "p = t @ lf # r" "lf \<notin> set t" by (meson split_list_first)
    with 1 show ?thesis by (simp add: data_lines_step)
  next
    case False
    then have "last p \<noteq> lf" if "p \<noteq> []" using that last_in_set by metis
    with False show ?thesis by (cases "p = []") (simp_all add: data_lines_nil data_lines_last)
  qed
qed

subsection \<open>A stream of events\<close>

datatype sse_item = Event ioh_sse_event | Comment string

fun format_item :: "(nat \<Rightarrow> bool) \<Rightarrow> sse_item \<Rightarrow> sse_op" where
  "format_item alloc (Event event) = ioh_sse_format_event alloc event"
| "format_item alloc (Comment comment) = ioh_sse_format_comment alloc comment"

primrec format_items :: "(nat \<Rightarrow> bool) \<Rightarrow> sse_item list \<Rightarrow> sse_op" where
  "format_items alloc [] = nothing"
| "format_items alloc (x # xs) = and_then (format_item alloc x) (format_items alloc xs)"

definition one_line :: "string \<Rightarrow> bool" where
  "one_line s \<longleftrightarrow> nul \<notin> set s \<and> lf \<notin> set s \<and> cr \<notin> set s"

fun sendable :: "sse_item \<Rightarrow> bool" where
  "sendable (Event event) \<longleftrightarrow>
     (case ev_data event of None \<Rightarrow> False | Some d \<Rightarrow> nul \<notin> set d \<and> cr \<notin> set d) \<and>
     (case ev_event event of None \<Rightarrow> True | Some e \<Rightarrow> one_line e) \<and> (case ev_id event of None \<Rightarrow> True | Some i \<Rightarrow> one_line i)"
| "sendable (Comment comment) \<longleftrightarrow> one_line comment"

definition chomp :: "string \<Rightarrow> string" where
  "chomp d = (if d \<noteq> [] \<and> last d = lf then butlast d else d)"

text \<open>The events a client delivers: type, data and the last identifier seen.\<close>

fun delivered :: "string \<Rightarrow> sse_item list \<Rightarrow> (string \<times> string \<times> string) list" where
  "delivered i [] = []"
| "delivered i (Comment comment # xs) = delivered i xs"
| "delivered i (Event event # xs) =
     (let j = (case ev_id event of None \<Rightarrow> i | Some j \<Rightarrow> j)
      in (case ev_event event of None \<Rightarrow> ''message'' | Some e \<Rightarrow> if e = [] then ''message'' else e, chomp (the (ev_data event)), j) # delivered j xs)"

lemma reads_event:
  assumes "sendable (Event event)" and "ev_data event = Some d" and "cl_data c = []" and "cl_type c = []"
  defines "j \<equiv> (case ev_id event of None \<Rightarrow> cl_id c | Some j \<Rightarrow> j)"
  shows "client_reads (event_text event d @ r) c =
    client_reads r (c\<lparr>cl_id := j, cl_events := cl_events c @
      [(case ev_event event of None \<Rightarrow> ''message'' | Some e \<Rightarrow> if e = [] then ''message'' else e, chomp d, j)]\<rparr>)"
proof -
  let ?data = "concat (map (\<lambda>l. ''data: '' @ l @ [lf]) (data_lines d)) @ (if d = [] then ''data: '' @ [lf] else []) @ lf # r"
  define t where "t = (case ev_event event of None \<Rightarrow> [] | Some e \<Rightarrow> e)"
  have plain: "nul \<notin> set d" "\<And>e. ev_event event = Some e \<Longrightarrow> one_line e" "\<And>i. ev_id event = Some i \<Longrightarrow> one_line i"
    using assms(1,2) by auto
  have kind: "client_reads ((case ev_event event of None \<Rightarrow> [] | Some e \<Rightarrow> ''event: '' @ cstr e @ [lf]) @ s) c = client_reads s (c\<lparr>cl_type := t\<rparr>)" for s
  proof (cases "ev_event event")
    case None
    then show ?thesis using assms(4) by (cases c) (simp add: t_def)
  next
    case (Some e)
    then show ?thesis using reads_field [of "''event''" e s c] plain(2) [OF Some] by (simp add: client_field_def t_def one_line_def)
  qed
  have idn: "client_reads ((case ev_id event of None \<Rightarrow> [] | Some i \<Rightarrow> ''id: '' @ cstr i @ [lf]) @ s) (c\<lparr>cl_type := t\<rparr>) =
      client_reads s (c\<lparr>cl_type := t, cl_id := j\<rparr>)" for s
  proof (cases "ev_id event")
    case None
    then show ?thesis by (simp add: j_def)
  next
    case (Some i)
    then show ?thesis using reads_field [of "''id''" i s] plain(3) [OF Some] by (simp add: client_field_def j_def one_line_def)
  qed
  have retry: "client_reads ((if ev_retry_ms event > 0 then ''retry: '' @ dec_digits (unat (ev_retry_ms event)) @ [lf] else []) @ s) c' =
      client_reads s c'" for s c'
  proof -
    have "lf \<notin> set (dec_digits (unat (ev_retry_ms event)))" using dec_digits_all_digits by (fastforce simp: is_digit_def)
    then show ?thesis using reads_field [of "''retry''" "dec_digits (unat (ev_retry_ms event))" s c'] by (simp add: client_field_def)
  qed
  have joined: "client_reads ?data c' = client_reads r (dispatch_event (c'\<lparr>cl_data := chomp d @ [lf]\<rparr>))" if "cl_data c' = []" for c'
  proof (cases "d = []")
    case True
    then show ?thesis using reads_field [of "''data''" "[]" "lf # r" c'] reads_line [of "[]" r] that
      by (simp add: data_lines_nil client_field_def client_line_def chomp_def)
  next
    case False
    have "concat (map (\<lambda>l. l @ [lf]) (data_lines d)) = chomp d @ [lf]"
      using False by (cases d rule: rev_cases) (simp_all add: data_lines_joined chomp_def)
    then show ?thesis using reads_data [of "data_lines d" "lf # r" c'] reads_line [of "[]" r] data_lines_plain False that
      by (simp add: client_line_def)
  qed
  have "client_reads (event_text event d @ r) c = client_reads r (dispatch_event (c\<lparr>cl_type := t, cl_id := j, cl_data := chomp d @ [lf]\<rparr>))"
    using joined [of "c\<lparr>cl_type := t, cl_id := j\<rparr>"] kind idn retry plain(1) assms(3) by (simp add: event_text_def)
  also have "dispatch_event (c\<lparr>cl_type := t, cl_id := j, cl_data := chomp d @ [lf]\<rparr>) = c\<lparr>cl_id := j, cl_events := cl_events c @
      [(case ev_event event of None \<Rightarrow> ''message'' | Some e \<Rightarrow> if e = [] then ''message'' else e, chomp d, j)]\<rparr>"
    using assms(3,4) by (cases c) (simp add: dispatch_event_def t_def split: option.split)
  finally show ?thesis .
qed

fun item_text :: "sse_item \<Rightarrow> string" where
  "item_text (Event event) = event_text event (the (ev_data event))"
| "item_text (Comment comment) = '': '' @ cstr comment @ [lf, lf]"

lemma format_items_writes:
  assumes "\<And>n. alloc n" and "\<forall>x\<in>set xs. sendable x"
  shows "writes (format_items alloc xs) (concat (map item_text xs))"
  using assms(2)
proof (induction xs)
  case (Cons x xs)
  have "writes (format_item alloc x) (item_text x)"
  proof (cases x)
    case (Event event)
    then obtain d where "ev_data event = Some d" using Cons.prems by (auto split: option.splits)
    then show ?thesis using Event format_event_writes [OF assms(1)] by simp
  next
    case (Comment comment)
    then show ?thesis
      using writes_append_all [OF assms(1), where ts = "['': '', cstr comment, [lf, lf]]"] by (simp add: ioh_sse_format_comment_def)
  qed
  with Cons show ?case by auto
qed auto

lemma reads_items:
  assumes "\<forall>x\<in>set xs. sendable x" and "cl_data c = []" and "cl_type c = []"
  shows "cl_events (client_reads (concat (map item_text xs)) c) = cl_events c @ delivered (cl_id c) xs"
  using assms
proof (induction xs arbitrary: c)
  case Nil
  then show ?case by (simp add: client_reads_def complete_lines.simps [of "[]"])
next
  case (Cons x xs)
  show ?case
  proof (cases x)
    case (Event event)
    then obtain d where d: "ev_data event = Some d" using Cons.prems by (auto split: option.splits)
    with Event Cons show ?thesis using reads_event [of event d c "concat (map item_text xs)"] by (simp add: Let_def)
  next
    case (Comment comment)
    have "one_line comment" using Comment Cons.prems(1) by simp
    then have "client_reads (concat (map item_text (x # xs))) c = client_reads (concat (map item_text xs)) (client_line (client_line c ('': '' @ comment)) [])"
      using reads_line [of "'': '' @ comment" "lf # concat (map item_text xs)" c] reads_line [of "[]" "concat (map item_text xs)"] Comment
      by (simp add: one_line_def)
    also have "client_line (client_line c ('': '' @ comment)) [] = c"
      using Cons.prems(2,3) by (cases c) (simp add: client_line_def dispatch_event_def)
    finally show ?thesis using Cons Comment by simp
  qed
qed

subsection \<open>Properties\<close>

text \<open>C27: A client of the event stream format delivers exactly the events that were formatted.  When the allocations succeed, whatever events
  and comments are formatted into a stream and flushed, the client delivers one event for each, with its type, its data without
  one final line feed, and the last identifier sent so far.  Types, identifiers and comments are single lines, and the data
  has no carriage returns.
\<close>

theorem sse_round_trip:
  assumes "\<And>n. alloc n" and "\<forall>x\<in>set xs. sendable x" and "ioh_sse_stream_init alloc = Inr stream"
  shows "\<exists>stream' data. format_items alloc xs stream = (Inr (), stream') \<and> ioh_sse_stream_flush stream' = (data, stream'\<lparr>ss_buf := []\<rparr>) \<and>
    cl_events (client_reads data \<lparr>cl_data = [], cl_type = [], cl_id = [], cl_events = []\<rparr>) = delivered [] xs"
proof -
  have "ss_buf stream = []" using assms(1,3) by (auto simp: ioh_sse_stream_init_def)
  moreover note format_items_writes [OF assms(1,2), unfolded writes_def]
  ultimately have "fst (format_items alloc xs stream) = Inr ()" "ss_buf (snd (format_items alloc xs stream)) = concat (map item_text xs)" by auto
  moreover have "cl_events (client_reads (concat (map item_text xs)) \<lparr>cl_data = [], cl_type = [], cl_id = [], cl_events = []\<rparr>) = delivered [] xs"
    using reads_items [OF assms(2), of "\<lparr>cl_data = [], cl_type = [], cl_id = [], cl_events = []\<rparr>"] by simp
  ultimately show ?thesis by (intro exI [of _ "snd (format_items alloc xs stream)"]) (simp add: ioh_sse_stream_flush_def prod_eq_iff)
qed

definition example_items :: "sse_item list" where
  "example_items =
     [Event \<lparr>ev_event = Some ''tick'', ev_data = Some (''a'' @ [lf] @ ''b'' @ [lf]), ev_id = Some ''7'', ev_retry_ms = 10\<rparr>,
      Comment ''ping'', Event \<lparr>ev_event = None, ev_data = Some [], ev_id = None, ev_retry_ms = 0\<rparr>]"

theorem sse_round_trip_witness:
  "\<exists>stream stream' data. ioh_sse_stream_init (\<lambda>n. True) = Inr stream \<and> format_items (\<lambda>n. True) example_items stream = (Inr (), stream') \<and>
     ioh_sse_stream_flush stream' = (data, stream'\<lparr>ss_buf := []\<rparr>) \<and>
     cl_events (client_reads data \<lparr>cl_data = [], cl_type = [], cl_id = [], cl_events = []\<rparr>) =
       [(''tick'', ''a'' @ [lf] @ ''b'', ''7''), (''message'', [], ''7'')]"
proof -
  obtain stream where s: "ioh_sse_stream_init (\<lambda>n. True) = Inr stream" by (simp add: ioh_sse_stream_init_def)
  have "list_all sendable example_items" and d: "delivered [] example_items = [(''tick'', ''a'' @ [lf] @ ''b'', ''7''), (''message'', [], ''7'')]"
    by code_simp+
  then have "\<forall>x\<in>set example_items. sendable x" by (simp add: list_all_iff)
  from sse_round_trip [OF _ this s] show ?thesis unfolding d using s by blast
qed

end
