(* ===== verification/Router_Dispatch.thy ===== *)
theory Router_Dispatch
  imports Router
begin

text \<open>
  Properties of path normalization and dispatch: normalization against a specification by segments,
  the exact outcome of every branch of a dispatch, and the router as a route store, which carries the
  facts on registration and lookup from the trie to requests.
\<close>

subsection \<open>Path normalization as a specification\<close>

text \<open>The segments of a path: the non-empty pieces between slashes.\<close>

fun split_slash :: "string \<Rightarrow> string list" where
  "split_slash [] = [[]]"
| "split_slash (c # cs) =
     (if c = slash then [] # split_slash cs else (c # hd (split_slash cs)) # tl (split_slash cs))"

definition path_segments :: "string \<Rightarrow> string list" where
  "path_segments p = filter (\<lambda>s. s \<noteq> []) (split_slash p)"

text \<open>Resolving dot segments against a stack of open directories.\<close>

fun resolve :: "string list \<Rightarrow> string list \<Rightarrow> string list option" where
  "resolve stk [] = Some stk"
| "resolve stk (s # ss) =
     (if s = ''.'' then resolve stk ss
      else if s = ''..'' then (case stk of [] \<Rightarrow> None | _ # stk' \<Rightarrow> resolve stk' ss)
      else if length stk \<ge> 256 then None
      else resolve (s # stk) ss)"

definition clean_segment :: "string \<Rightarrow> bool" where
  "clean_segment s \<longleftrightarrow> s \<noteq> [] \<and> slash \<notin> set s \<and> nul \<notin> set s \<and> s \<noteq> ''.'' \<and> s \<noteq> ''..''"

definition render_path :: "string list \<Rightarrow> string" where
  "render_path segs = (if segs = [] then [slash] else join_segments segs)"

lemma split_slash_nonempty [simp]: "split_slash p \<noteq> []"
  by (induction p) auto

lemma path_segments_Nil [simp]: "path_segments [] = []"
  by (simp add: path_segments_def)

lemma path_segments_slash [simp]: "path_segments (slash # p) = path_segments p"
  by (simp add: path_segments_def)

lemma path_segments_drop_slashes: "path_segments (dropWhile (\<lambda>c. c = slash) p) = path_segments p"
  by (induction p) auto

lemma split_slash_append: "slash \<notin> set s \<Longrightarrow> split_slash (s @ r) = (s @ hd (split_slash r)) # tl (split_slash r)"
  by (induction s) auto

lemma path_segments_cons:
  assumes "slash \<notin> set s" and "s \<noteq> []" and "r = [] \<or> hd r = slash"
  shows "path_segments (s @ r) = s # path_segments r"
proof (cases r)
  case Nil
  then show ?thesis using assms split_slash_append [OF assms(1), of "[]"] by (simp add: path_segments_def)
next
  case (Cons c cs)
  then show ?thesis using assms by (simp add: path_segments_def split_slash_append)
qed

lemma path_segments_take_segment:
  assumes "q \<noteq> []" and "hd q \<noteq> slash"
  shows "path_segments q = takeWhile (\<lambda>c. c \<noteq> slash) q # path_segments (dropWhile (\<lambda>c. c \<noteq> slash) q)"
proof -
  have "takeWhile (\<lambda>c. c \<noteq> slash) q \<noteq> []" using assms by (cases q) auto
  from path_segments_cons [OF takeWhile_no_delim this dropWhile_starts_with_delim [of slash q]]
  show ?thesis by (simp only: takeWhile_dropWhile_id)
qed

lemma norm_loop_resolve: "norm_loop p stk = resolve stk (path_segments p)"
proof (induction p stk rule: norm_loop.induct)
  case (1 p stk)
  define q where "q = dropWhile (\<lambda>c. c = slash) p"
  show ?case
  proof (cases "q = []")
    case True
    have "path_segments p = path_segments q" unfolding q_def by (rule path_segments_drop_slashes [symmetric])
    with True have "path_segments p = []" by simp
    then show ?thesis using True by (simp add: norm_loop.simps [of p] q_def [symmetric] Let_def)
  next
    case False
    have "hd q \<noteq> slash" using False hd_dropWhile [of "\<lambda>c. c = slash" p] by (simp add: q_def)
    note seg = path_segments_take_segment [OF False this]
    have p: "path_segments p = path_segments q" using path_segments_drop_slashes [of p] by (simp add: q_def)
    show ?thesis
      unfolding p seg norm_loop.simps [of p] Let_def q_def [symmetric]
      using 1 [OF q_def False refl refl] False by (auto split: list.splits)
  qed
qed

lemma join_segments_Cons: "join_segments (s # ss) = slash # s @ join_segments ss"
  by (simp add: join_segments_def)

lemma build_path_join:
  "build_path n w segs =
     (if segs = [] \<or> length w + length (join_segments segs) < n then Some (w @ join_segments segs) else None)"
  by (induction segs arbitrary: w) (auto simp: join_segments_Cons join_segments_def)

text \<open>The specification of normalization.\<close>

definition normalize_spec :: "string \<Rightarrow> nat \<Rightarrow> errno + string" where
  "normalize_spec path out_size =
     (if path \<noteq> [] \<and> hd path = slash \<and> nul \<notin> set path then
        (case resolve [] (path_segments path) of
           None \<Rightarrow> Inl EINVAL
         | Some stk \<Rightarrow>
             if length (render_path (rev stk)) < out_size then Inr (render_path (rev stk)) else Inl EINVAL)
      else Inl EINVAL)"

lemma normalize_eq_spec: "ioh_path_normalize path out_size = normalize_spec path out_size"
proof (cases "resolve [] (path_segments path)")
  case (Some stk)
  then show ?thesis
    by (cases stk)
      (auto simp: ioh_path_normalize_def normalize_spec_def norm_loop_resolve build_path_join render_path_def)
qed (simp add: ioh_path_normalize_def normalize_spec_def norm_loop_resolve)

lemma resolve_clean:
  "resolve stk ss = Some stk' \<Longrightarrow> \<forall>s\<in>set stk. clean_segment s \<Longrightarrow>
     \<forall>s\<in>set ss. s \<noteq> [] \<and> slash \<notin> set s \<and> nul \<notin> set s \<Longrightarrow> \<forall>s\<in>set stk'. clean_segment s"
proof (induction ss arbitrary: stk)
  case (Cons s ss)
  consider "s = ''.''" | "s = ''..''" | "s \<noteq> ''.''" "s \<noteq> ''..''" by blast
  then show ?case
  proof cases
    case 1
    then show ?thesis using Cons.IH [of stk] Cons.prems by simp
  next
    case 2
    then show ?thesis using Cons.IH [of "tl stk"] Cons.prems by (cases stk) simp_all
  next
    case 3
    then have "clean_segment s" using Cons.prems(3) by (simp add: clean_segment_def)
    then show ?thesis using 3 Cons.IH [of "s # stk"] Cons.prems by (simp split: if_splits)
  qed
qed simp

lemma resolve_depth: "resolve stk ss = Some stk' \<Longrightarrow> length stk \<le> 256 \<Longrightarrow> length stk' \<le> 256"
  by (induction stk ss rule: resolve.induct) (auto split: if_splits list.splits)

lemma set_split_slash: "s \<in> set (split_slash p) \<Longrightarrow> slash \<notin> set s \<and> set s \<subseteq> set p"
proof (induction p arbitrary: s)
  case (Cons c p)
  obtain x xs where x: "split_slash p = x # xs" by (metis split_slash_nonempty list.exhaust)
  show ?case using Cons.IH [of x] Cons.IH [of s] Cons.prems by (auto simp: x split: if_splits)
qed auto

lemma path_segments_raw:
  "nul \<notin> set p \<Longrightarrow> \<forall>s\<in>set (path_segments p). s \<noteq> [] \<and> slash \<notin> set s \<and> nul \<notin> set s"
  using set_split_slash by (fastforce simp: path_segments_def)

lemma path_segments_join:
  "\<forall>s\<in>set segs. s \<noteq> [] \<and> slash \<notin> set s \<Longrightarrow> path_segments (join_segments segs) = segs"
proof (induction segs)
  case (Cons s segs)
  have "join_segments segs = [] \<or> hd (join_segments segs) = slash" by (cases segs) (auto simp: join_segments_def)
  with Cons show ?case by (simp add: join_segments_Cons path_segments_cons)
qed (simp add: join_segments_def)

lemma resolve_clean_segments:
  "\<forall>s\<in>set ss. clean_segment s \<Longrightarrow> length stk + length ss \<le> 256 \<Longrightarrow> resolve stk ss = Some (rev ss @ stk)"
  by (induction ss arbitrary: stk) (auto simp: clean_segment_def)

lemma nul_join: "nul \<in> set (join_segments segs) \<longleftrightarrow> (\<exists>s\<in>set segs. nul \<in> set s)"
  by (auto simp: join_segments_def)

text \<open>A clean path that fits is its own normal form.\<close>

lemma normalize_clean:
  assumes "\<forall>s\<in>set segs. clean_segment s" and "length segs \<le> 256" and "length (render_path segs) < n"
  shows "ioh_path_normalize (render_path segs) n = Inr (render_path segs)"
proof (cases "segs = []")
  case True
  then show ?thesis using assms by (simp add: normalize_eq_spec normalize_spec_def render_path_def)
next
  case False
  have "path_segments (join_segments segs) = segs"
    by (rule path_segments_join) (use assms(1) in \<open>auto simp: clean_segment_def\<close>)
  moreover have "join_segments segs \<noteq> []" "hd (join_segments segs) = slash"
    using False by (cases segs; simp add: join_segments_def)+
  moreover have "nul \<notin> set (join_segments segs)" using assms(1) by (auto simp: nul_join clean_segment_def)
  ultimately show ?thesis
    using False assms resolve_clean_segments [OF assms(1), of "[]"]
    by (simp add: normalize_eq_spec normalize_spec_def render_path_def)
qed

lemma normalize_shape:
  assumes "ioh_path_normalize path n = Inr out"
  obtains segs where "out = render_path segs" "\<forall>s\<in>set segs. clean_segment s" "length segs \<le> 256" "length out < n"
proof -
  obtain stk where stk: "resolve [] (path_segments path) = Some stk" "out = render_path (rev stk)"
      "length out < n" "nul \<notin> set path"
    using assms by (auto simp: normalize_eq_spec normalize_spec_def split: if_splits option.splits)
  show thesis
    using that [of "rev stk"] stk resolve_clean [OF stk(1) _ path_segments_raw [OF stk(4)]] resolve_depth [OF stk(1)]
    by simp
qed

lemma render_path_no_trailing:
  assumes "\<forall>s\<in>set segs. clean_segment s"
  shows "\<not> (length (render_path segs) > 1 \<and> last (render_path segs) = slash)"
proof (cases segs rule: rev_cases)
  case (snoc ss s)
  then have "clean_segment s" using assms by simp
  then have "last s \<noteq> slash" unfolding clean_segment_def by (metis last_in_set)
  then show ?thesis using snoc \<open>clean_segment s\<close> by (simp add: render_path_def join_segments_def clean_segment_def)
qed (simp add: render_path_def)


subsection \<open>Dispatch\<close>

lemma encoded_null_iff: "path_has_encoded_null p \<longleftrightarrow> sublist ''%00'' p"
  by (induction p rule: path_has_encoded_null.induct) (auto simp: sublist_Cons_right)

fun join_comma :: "string list \<Rightarrow> string" where
  "join_comma [] = []"
| "join_comma [x] = x"
| "join_comma (x # xs) = x @ '', '' @ join_comma xs"

lemma join_comma_snoc: "join_comma (xs @ [y]) = (if xs = [] then y else join_comma xs @ '', '' @ y)"
  by (induction xs rule: join_comma.induct) auto

definition method_of_index :: "nat \<Rightarrow> string" where
  "method_of_index i = the (method_name_for_index i)"

lemma method_of_index_length: "i < 9 \<Longrightarrow> length (method_of_index i) \<le> 7"
  by (simp add: method_of_index_def)

definition other_methods :: "('h, 'm, 'w, 'e) ioh_router \<Rightarrow> ioh_method \<Rightarrow> string \<Rightarrow> nat \<Rightarrow> nat list" where
  "other_methods r mth p k = filter (\<lambda>i. i \<noteq> method_index mth \<and> lookup_tree r i p \<noteq> None) [0..<k]"

lemma snprintf_at_fits:
  "length buf + length s < cap \<Longrightarrow> snprintf_at cap (buf, length buf) s = (buf @ s, length (buf @ s))"
  by (simp add: snprintf_at_def)

lemma allowed_fold:
  assumes "k \<le> 9"
  shows "fold (allowed_step r mth p) [0..<k] (([], 0), False) =
     (let names = map method_of_index (other_methods r mth p k)
      in ((join_comma names, length (join_comma names)), names \<noteq> [])) \<and>
     length (join_comma (map method_of_index (other_methods r mth p k))) \<le> 9 * k"
  using assms
proof (induction k)
  case 0
  then show ?case by (simp add: other_methods_def)
next
  case (Suc k)
  let ?names = "map method_of_index (other_methods r mth p k)"
  have ih: "fold (allowed_step r mth p) [0..<k] (([], 0), False) =
      ((join_comma ?names, length (join_comma ?names)), ?names \<noteq> [])"
    and len: "length (join_comma ?names) \<le> 9 * k" using Suc by (auto simp: Let_def)
  have step: "fold (allowed_step r mth p) [0..<Suc k] (([], 0), False) =
      allowed_step r mth p k ((join_comma ?names, length (join_comma ?names)), ?names \<noteq> [])"
    by (simp add: ih)
  show ?case
  proof (cases "k = method_index mth \<or> lookup_tree r k p = None")
    case True
    then have "other_methods r mth p (Suc k) = other_methods r mth p k" by (auto simp: other_methods_def)
    moreover have "allowed_step r mth p k st = st" for st
      using True by (auto simp: allowed_step_def split: prod.splits)
    ultimately show ?thesis using len unfolding step by (simp add: Let_def)
  next
    case False
    then have om: "other_methods r mth p (Suc k) = other_methods r mth p k @ [k]"
      by (auto simp: other_methods_def)
    obtain rm where rm: "lookup_tree r k p = Some rm" using False by blast
    have k: "k < 9" using Suc.prems by simp
    then have name: "method_name_for_index k = Some (method_of_index k)" by (simp add: method_of_index_def)
    have nl: "length (method_of_index k) \<le> 7" by (rule method_of_index_length [OF k])
    have cap: "length (join_comma ?names) + length (if ?names \<noteq> [] then '', '' @ method_of_index k else method_of_index k) < 128"
      using len nl k by auto
    have "allowed_step r mth p k ((join_comma ?names, length (join_comma ?names)), ?names \<noteq> []) =
        (snprintf_at 128 (join_comma ?names, length (join_comma ?names))
           (if ?names \<noteq> [] then '', '' @ method_of_index k else method_of_index k), True)"
      using False by (simp only: allowed_step_def prod.case rm option.case name de_Morgan_disj if_False)
    also have "\<dots> = ((join_comma (?names @ [method_of_index k]), length (join_comma (?names @ [method_of_index k]))), True)"
      unfolding snprintf_at_fits [OF cap] by (simp add: join_comma_snoc)
    finally show ?thesis using len nl unfolding step om by (simp add: Let_def join_comma_snoc)
  qed
qed

text \<open>What normalization hands to the lookups: a path that is not changed by the redirect test.\<close>

lemma dispatch_unfold:
  assumes "ioh_path_normalize path IOH_MAX_URI_SIZE = Inr p" and "\<not> path_has_encoded_null path"
  shows "ioh_router_dispatch r mth path =
     (if (length path > 1 \<and> last path = slash) \<and> (\<exists>i<ROUTER_METHOD_COUNT. lookup_tree r i p \<noteq> None) then
        no_match\<lparr>m_status := IOH_MATCH_REDIRECT, m_redirect_path := p\<rparr>
      else
        (case (if method_index mth < ROUTER_METHOD_COUNT
               then lookup_tree r (method_index mth) p else None) of
           Some rmatch \<Rightarrow> take_match no_match rmatch
         | None \<Rightarrow>
             (case (if mth = IOH_METHOD_HEAD then lookup_tree r 0 p else None) of
                Some rmatch \<Rightarrow> take_match no_match rmatch
              | None \<Rightarrow>
                  no_match\<lparr>m_allowed_methods := join_comma (map method_of_index (other_methods r mth p 9)),
                    m_status := if other_methods r mth p 9 \<noteq> [] then IOH_MATCH_METHOD_NOT_ALLOWED
                                else IOH_MATCH_NOT_FOUND\<rparr>)))"
proof -
  obtain segs where "p = render_path segs" "\<forall>s\<in>set segs. clean_segment s"
    using normalize_shape [OF assms(1)] by blast
  then have no_trail: "\<not> (length p > 1 \<and> last p = slash)" using render_path_no_trailing by simp
  have path: "path \<noteq> []" "nul \<notin> set path"
    using assms(1) by (auto simp: ioh_path_normalize_def split: if_splits)
  have ex: "list_ex (\<lambda>i. lookup_tree r i p \<noteq> None) [0..<ROUTER_METHOD_COUNT] \<longleftrightarrow>
      (\<exists>i<ROUTER_METHOD_COUNT. lookup_tree r i p \<noteq> None)"
    by (auto simp: list_ex_iff)
  have fold9: "fold (allowed_step r mth p) [0..<ROUTER_METHOD_COUNT] (([], 0), False) =
     ((join_comma (map method_of_index (other_methods r mth p 9)),
       length (join_comma (map method_of_index (other_methods r mth p 9)))), other_methods r mth p 9 \<noteq> [])"
    using allowed_fold [of 9 r mth p] by (simp add: ROUTER_METHOD_COUNT_def Let_def)
  show ?thesis
    unfolding ioh_router_dispatch_def path_has_null_byte_def assms(1) sum.case Let_def ex fold9 prod.case
    using path assms(2) no_trail by (simp cong: if_cong split del: if_split)
qed


definition param_bytes :: "ioh_param list \<Rightarrow> nat" where
  "param_bytes ps = sum_list (map (\<lambda>p. length (p_value p) + 1) ps)"

lemma stabilize_loop_ok:
  "length st + param_bytes ps \<le> IOH_MAX_PARAM_STORAGE \<Longrightarrow>
     stabilize_loop ps st = (True, st @ concat (map (\<lambda>p. p_value p @ [nul]) ps))"
  by (induction ps arbitrary: st) (auto simp: param_bytes_def)

lemma stabilize_loop_fails:
  "length st + param_bytes ps > IOH_MAX_PARAM_STORAGE \<Longrightarrow> length st \<le> IOH_MAX_PARAM_STORAGE \<Longrightarrow>
     fst (stabilize_loop ps st) = False"
  by (induction ps arbitrary: st) (auto simp: param_bytes_def)

text \<open>The result for a trie match whose parameters fit in the storage.\<close>

definition found_match :: "('h, 'm ioh_route_opts, 'm) radix_match \<Rightarrow> ('h, 'm) ioh_route_match" where
  "found_match rm =
     no_match\<lparr>m_status := IOH_MATCH_FOUND, m_handler := rm_handler rm, m_opts := rm_metadata rm,
       m_meta := rm_meta rm, m_params := rm_params rm,
       m_param_storage := concat (map (\<lambda>p. p_value p @ [nul]) (rm_params rm)),
       m_param_storage_used := param_bytes (rm_params rm)\<rparr>"

lemma length_param_storage: "length (concat (map (\<lambda>p. p_value p @ [nul]) ps)) = param_bytes ps"
  by (induction ps) (auto simp: param_bytes_def)

lemma take_match_ok:
  "param_bytes (rm_params rm) \<le> IOH_MAX_PARAM_STORAGE \<Longrightarrow> take_match no_match rm = found_match rm"
  by (simp add: take_match_def stabilize_param_values_def stabilize_loop_ok found_match_def Let_def
      length_param_storage del: length_concat)

lemma no_match_status [simp]: "m_status no_match = IOH_MATCH_NOT_FOUND"
  by (simp add: no_match_def)

lemma take_match_status:
  "m_status (take_match no_match rm) =
     (if param_bytes (rm_params rm) \<le> IOH_MAX_PARAM_STORAGE then IOH_MATCH_FOUND else IOH_MATCH_NOT_FOUND)"
proof (cases "param_bytes (rm_params rm) \<le> IOH_MAX_PARAM_STORAGE")
  case True
  then show ?thesis by (simp add: take_match_ok found_match_def)
next
  case False
  then have "fst (stabilize_loop (rm_params rm) []) = False" by (intro stabilize_loop_fails) simp_all
  then show ?thesis using False
    by (simp add: take_match_def stabilize_param_values_def Let_def case_prod_beta)
qed

definition lead :: "string \<Rightarrow> nat" where
  "lead path = (if path \<noteq> [] \<and> hd path = slash then 1 else 0)"

lemma skip_slash_length: "length (skip_slash path) + lead path = length path"
  by (auto simp: skip_slash_def lead_def split: list.splits)

lemma tokens_match_bytes:
  "tokens_match ts path ps \<Longrightarrow> param_bytes ps + lead path \<le> length path + (if path = [] then 0 else 1)"
proof (induction rule: tokens_match.induct)
  case (tm_end path)
  then show ?case using skip_slash_length [of path] by (simp add: param_bytes_def)
next
  case (tm_static path p ts ps)
  define r where "r = dropWhile (\<lambda>c. c \<noteq> slash) p"
  have "r = [] \<or> lead r = 1" using dropWhile_starts_with_delim [of slash p] by (auto simp: r_def lead_def)
  then have "param_bytes ps \<le> length r" using tm_static.IH by (auto simp: r_def [symmetric] split: if_splits)
  moreover have "length r \<le> length p" by (simp add: r_def)
  moreover have "path \<noteq> []" using tm_static.hyps by (auto simp: skip_slash_def)
  ultimately show ?case using skip_slash_length [of path] tm_static.hyps(1) by simp
next
  case (tm_param path p ts ps x)
  define r where "r = dropWhile (\<lambda>c. c \<noteq> slash) p"
  have "r = [] \<or> lead r = 1" using dropWhile_starts_with_delim [of slash p] by (auto simp: r_def lead_def)
  then have "param_bytes ps \<le> length r" using tm_param.IH by (auto simp: r_def [symmetric] split: if_splits)
  moreover have "length (takeWhile (\<lambda>c. c \<noteq> slash) p) + length r = length p"
    unfolding r_def by (metis length_append takeWhile_dropWhile_id)
  moreover have "path \<noteq> []" using tm_param.hyps by (auto simp: skip_slash_def)
  ultimately show ?case using skip_slash_length [of path] tm_param.hyps(1) by (simp add: param_bytes_def)
next
  case (tm_wild path p x)
  moreover have "path \<noteq> []" using tm_wild.hyps by (auto simp: skip_slash_def)
  ultimately show ?case using skip_slash_length [of path] by (simp add: param_bytes_def)
qed

lemma tokens_match_bytes_rooted: "tokens_match ts path ps \<Longrightarrow> hd path = slash \<Longrightarrow> param_bytes ps \<le> length path"
  using tokens_match_bytes [of ts path ps] by (auto simp: lead_def split: if_splits)


subsection \<open>The router is a route store\<close>

definition stored ::
  "'h \<Rightarrow> 'm ioh_route_opts option \<Rightarrow> ('h, 'm ioh_route_opts, 'm) route_val" where
  "stored h opts = \<lparr>rv_handler = h, rv_metadata = opts,
     rv_meta = (case opts of None \<Rightarrow> None | Some o' \<Rightarrow> ro_meta o')\<rparr>"

definition router_ins ::
  "('h, 'm, 'w, 'e) ioh_router \<Rightarrow> ioh_method \<times> string \<Rightarrow> 'h \<times> 'm ioh_route_opts option
   \<Rightarrow> (unit, ('h, 'm, 'w, 'e) ioh_router) outcome" where
  "router_ins r k v = ioh_router_handle_with r (fst k) (snd k) (Some (fst v)) (snd v)"

definition router_wf :: "('h, 'm, 'w, 'e) ioh_router \<Rightarrow> bool" where
  "router_wf r \<longleftrightarrow> length (rt_trees r) = ROUTER_METHOD_COUNT \<and>
     (\<forall>t. Some t \<in> set (rt_trees r) \<longrightarrow>
        wf_node t \<and> (\<forall>ts v. route t ts v \<longrightarrow> (\<exists>h opts. v = stored h opts)))"

definition tree_at :: "('h, 'm, 'w, 'e) ioh_router \<Rightarrow> nat \<Rightarrow> ('h, 'm ioh_route_opts, 'm) rnode" where
  "tree_at r i = (case rt_trees r ! i of None \<Rightarrow> ioh_radix_create | Some t \<Rightarrow> t)"

definition router_routes ::
  "('h, 'm, 'w, 'e) ioh_router \<Rightarrow> ((nat \<times> token list) \<times> 'h \<times> 'm ioh_route_opts option) set" where
  "router_routes r =
     {((i, ts), (h, opts)) | i ts h opts. i < ROUTER_METHOD_COUNT \<and> route (tree_at r i) ts (stored h opts)}"

definition router_key :: "ioh_method \<times> string \<Rightarrow> nat \<times> token list" where
  "router_key k = (method_index (fst k), tokens (snd k))"

definition router_ready :: "('h, 'm, 'w, 'e) ioh_router \<Rightarrow> ioh_method \<times> string \<Rightarrow> bool" where
  "router_ready r k \<longleftrightarrow>
     method_index (fst k) < ROUTER_METHOD_COUNT \<and> boundaries_ready (tree_at r (method_index (fst k))) (snd k)"

lemma stored_inj [simp]: "stored h opts = stored h' opts' \<longleftrightarrow> h = h' \<and> opts = opts'"
  by (auto simp: stored_def)

lemma tree_at_cases:
  assumes "router_wf r" and "i < ROUTER_METHOD_COUNT"
  obtains "tree_at r i = ioh_radix_create" | "Some (tree_at r i) \<in> set (rt_trees r)"
  using assms by (cases "rt_trees r ! i") (auto simp: tree_at_def router_wf_def in_set_conv_nth)

lemma tree_at_wf:
  assumes "router_wf r" and "i < ROUTER_METHOD_COUNT"
  shows "wf_node (tree_at r i)"
  by (rule tree_at_cases [OF assms]) (use assms in \<open>auto simp: router_wf_def\<close>)

lemma tree_at_stored:
  assumes "router_wf r" and "i < ROUTER_METHOD_COUNT" and "route (tree_at r i) ts v"
  obtains h opts where "v = stored h opts"
proof (rule tree_at_cases [OF assms(1,2)])
  assume "tree_at r i = ioh_radix_create"
  then show thesis using assms(3) by (simp add: ioh_radix_create_def)
next
  assume "Some (tree_at r i) \<in> set (rt_trees r)"
  then have "\<exists>h opts. v = stored h opts" using assms(1,3) unfolding router_wf_def by blast
  then show thesis using that by blast
qed

text \<open>A registration touches one tree, in the way the trie does.\<close>

lemma router_ins_eq:
  assumes "method_index (fst k) < ROUTER_METHOD_COUNT"
  shows "router_ins r k v =
     (let (rc, t) = radix_ins (tree_at r (method_index (fst k))) (snd k) (stored (fst v) (snd v))
      in (rc, r\<lparr>rt_trees := (rt_trees r)[method_index (fst k) := Some t]\<rparr>))"
  using assms
  by (simp add: router_ins_def ioh_router_handle_with_def router_add_route_def radix_ins_def stored_def tree_at_def
      Let_def)

lemma router_ins_bad_method:
  "\<not> method_index (fst k) < ROUTER_METHOD_COUNT \<Longrightarrow> router_ins r k v = (Inl EINVAL, r)"
  by (simp add: router_ins_def ioh_router_handle_with_def router_add_route_def)

lemma tree_at_update:
  assumes "router_wf r" and "i < ROUTER_METHOD_COUNT"
  shows "tree_at (r\<lparr>rt_trees := (rt_trees r)[i := Some t]\<rparr>) j = (if j = i then t else tree_at r j)"
  using assms by (auto simp: tree_at_def router_wf_def nth_list_update)

lemma router_wf_update:
  assumes "router_wf r" and "wf_node t" and "\<And>ts v. route t ts v \<Longrightarrow> \<exists>h opts. v = stored h opts"
  shows "router_wf (r\<lparr>rt_trees := (rt_trees r)[i := Some t]\<rparr>)"
  using assms set_update_subset_insert [of "rt_trees r" i "Some t"] by (auto simp: router_wf_def)

interpretation router: route_store router_ins router_wf router_routes router_key router_ready
proof
  fix r :: "('h, 'm, 'w, 'e) ioh_router" and k k' :: "ioh_method \<times> string"
    and v :: "'h \<times> 'm ioh_route_opts option" and u :: unit and e :: errno
  assume wf: "router_wf r"
  let ?i = "method_index (fst k)" and ?v = "stored (fst v) (snd v)"
  show "router_wf (snd (router_ins r k v))"
  proof (cases "?i < ROUTER_METHOD_COUNT")
    case True
    let ?t = "snd (radix_ins (tree_at r ?i) (snd k) ?v)"
    have "wf_node ?t" by (rule radix.ins_inv [OF tree_at_wf [OF wf True]])
    moreover have "\<exists>h opts. x = stored h opts" if "route ?t ts x" for ts x
    proof -
      have "x = ?v \<or> route (tree_at r ?i) ts x"
        using that radix.ins_ok [OF tree_at_wf [OF wf True]] radix.ins_err [OF tree_at_wf [OF wf True]]
        by (cases "fst (radix_ins (tree_at r ?i) (snd k) ?v)") (force simp: routes_of_def)+
      then show ?thesis using tree_at_stored [OF wf True] by blast
    qed
    ultimately show ?thesis
      using router_wf_update [OF wf] by (simp add: router_ins_eq [OF True] case_prod_beta Let_def)
  qed (simp add: router_ins_bad_method wf)
  show "router_ready (snd (router_ins r k v)) k'" if "router_ready r k'"
  proof (cases "?i < ROUTER_METHOD_COUNT")
    case True
    then show ?thesis using that radix.ready_mono [OF tree_at_wf [OF wf True]] tree_at_update [OF wf True]
      by (auto simp: router_ins_eq [OF True] case_prod_beta Let_def router_ready_def)
  qed (use that in \<open>simp add: router_ins_bad_method\<close>)
  show "router_ready (snd (router_ins r k v)) k" if "fst (router_ins r k v) = Inr u"
  proof (cases "?i < ROUTER_METHOD_COUNT")
    case True
    then show ?thesis using that radix.ins_ready [OF tree_at_wf [OF wf True]] tree_at_update [OF wf True]
      by (auto simp: router_ins_eq [OF True] case_prod_beta Let_def router_ready_def)
  qed (use that in \<open>simp add: router_ins_bad_method\<close>)
  show "router_routes (snd (router_ins r k v)) = router_routes r" if "fst (router_ins r k v) = Inl e"
  proof (cases "?i < ROUTER_METHOD_COUNT")
    case True
    then have "routes_of (snd (radix_ins (tree_at r ?i) (snd k) ?v)) = routes_of (tree_at r ?i)"
      using that radix.ins_err [OF tree_at_wf [OF wf True]] by (simp add: router_ins_eq case_prod_beta Let_def)
    then have "route (snd (radix_ins (tree_at r ?i) (snd k) ?v)) ts x = route (tree_at r ?i) ts x" for ts x
      by (auto simp: routes_of_def set_eq_iff)
    then show ?thesis using tree_at_update [OF wf True]
      by (auto simp: router_routes_def router_ins_eq [OF True] case_prod_beta Let_def)
  qed (simp add: router_ins_bad_method)
  show "router_key k \<notin> fst ` router_routes r \<and>
      router_routes (snd (router_ins r k v)) = insert (router_key k, v) (router_routes r)"
    if "fst (router_ins r k v) = Inr u"
  proof (cases "?i < ROUTER_METHOD_COUNT")
    case True
    let ?t = "snd (radix_ins (tree_at r ?i) (snd k) ?v)"
    have ok: "fst (radix_ins (tree_at r ?i) (snd k) ?v) = Inr u"
      using that by (simp add: router_ins_eq [OF True] case_prod_beta Let_def)
    from radix.ins_ok [OF tree_at_wf [OF wf True] ok]
    have t: "\<not> route (tree_at r ?i) (tokens (snd k)) x"
        "route ?t ts x \<longleftrightarrow> ts = tokens (snd k) \<and> x = ?v \<or> route (tree_at r ?i) ts x" for ts x
      by (force simp: routes_of_def set_eq_iff image_iff)+
    have "router_key k \<notin> fst ` router_routes r" using t(1) by (auto simp: router_routes_def router_key_def)
    moreover have "router_routes (snd (router_ins r k v)) = insert (router_key k, v) (router_routes r)"
      using True tree_at_update [OF wf True] t(2)
      by (cases v) (auto simp: router_routes_def router_key_def router_ins_eq [OF True] case_prod_beta Let_def
          split: if_splits)
    ultimately show ?thesis by blast
  qed (use that in \<open>simp add: router_ins_bad_method\<close>)
qed

lemma router_create_wf [simp]: "router_wf ioh_router_create"
  by (auto simp: router_wf_def ioh_router_create_def)

lemma router_create_routes [simp]: "router_routes ioh_router_create = {}"
  by (auto simp: router_routes_def ioh_router_create_def tree_at_def ioh_radix_create_def)


lemma method_index_eq [simp]: "method_index a = method_index b \<longleftrightarrow> a = b"
  by (cases a; cases b) simp_all

lemma router_registered:
  assumes "register router_ins ioh_router_create xs = (r, acc)" and "((m, pat), (h, opts)) \<in> set acc"
  shows "router_wf r" and "method_index m < ROUTER_METHOD_COUNT"
    and "route (tree_at r (method_index m)) (tokens pat) (stored h opts)"
    and "boundaries_ready (tree_at r (method_index m)) pat"
    and "rt_trees r ! method_index m = Some (tree_at r (method_index m))"
proof -
  note reg = router.register_routes [OF router_create_wf assms(1)]
  have "router_wf (fst (r, acc))"
    unfolding assms(1) [symmetric] by (rule router.register_inv [OF router_create_wf])
  then show "router_wf r" by simp
  have "router_ready r (m, pat)" using reg(3) assms(2) by auto
  then show mi: "method_index m < ROUTER_METHOD_COUNT" and "boundaries_ready (tree_at r (method_index m)) pat"
    by (simp_all add: router_ready_def)
  have "(router_key (m, pat), (h, opts)) \<in> router_routes r" using reg(1) assms(2) by force
  then show route: "route (tree_at r (method_index m)) (tokens pat) (stored h opts)"
    by (auto simp: router_routes_def router_key_def)
  then show "rt_trees r ! method_index m = Some (tree_at r (method_index m))"
    by (auto simp: tree_at_def ioh_radix_create_def split: option.splits)
qed

text \<open>A router with routes on two methods.\<close>

type_synonym example_router = "(nat, unit, unit, unit) ioh_router"

definition example_registrations :: "((ioh_method \<times> string) \<times> nat \<times> unit ioh_route_opts option) list" where
  "example_registrations =
     [((IOH_METHOD_GET, ''/u/:id''), (1, None)), ((IOH_METHOD_POST, ''/u/me''), (2, None)),
      ((IOH_METHOD_GET, ''/u/me''), (3, None)), ((IOH_METHOD_UNKNOWN, ''/x''), (4, None))]"

definition example_router :: example_router where
  "example_router = fst (register router_ins ioh_router_create example_registrations)"

lemma example_router_register:
  "register router_ins ioh_router_create example_registrations = (example_router, take 3 example_registrations)"
proof -
  have "snd (register router_ins (ioh_router_create :: example_router) example_registrations) = take 3 example_registrations"
    by code_simp
  then show ?thesis unfolding example_router_def by (metis prod.collapse)
qed

lemma example_normal: "ioh_path_normalize ''/u/me'' IOH_MAX_URI_SIZE = Inr ''/u/me''"
  using normalize_clean [of "[''u'', ''me'']" IOH_MAX_URI_SIZE]
  by (simp add: render_path_def join_segments_def clean_segment_def IOH_MAX_URI_SIZE_def)

text \<open>Segments of a request path that both normalization and the trie take literally.\<close>

definition literal_segment :: "string \<Rightarrow> bool" where
  "literal_segment s \<longleftrightarrow> clean_segment s \<and> static_segment s"

subsection \<open>Properties\<close>

text \<open>C16: path normalization computes the lexical resolution of the path: it accepts exactly the
  paths that start with a slash, hold no NUL byte, never step above the root, never hold more than
  256 open segments and fit in the buffer with their terminator, and returns the resolved segments
  joined by single slashes.\<close>

theorem path_normalize_resolves: "ioh_path_normalize path out_size = normalize_spec path out_size"
  by (rule normalize_eq_spec)

text \<open>C18: the output of normalization is safe and stable: it is the root or a sequence of
  segments that are not empty, not \<^verbatim>\<open>.\<close> and not \<^verbatim>\<open>..\<close>, without a trailing slash or a NUL byte;
  it leaves room for the terminator; and normalizing it again changes nothing.\<close>

theorem path_normalize_safe:
  assumes "ioh_path_normalize path out_size = Inr out"
  shows "(\<exists>segs. out = render_path segs \<and> (\<forall>s\<in>set segs. clean_segment s)) \<and> length out < out_size \<and>
     ioh_path_normalize out out_size = Inr out"
  using normalize_shape [OF assms] normalize_clean by metis

theorem path_normalize_safe_witness:
  "(\<exists>segs. ''/b'' = render_path segs \<and> (\<forall>s\<in>set segs. clean_segment s)) \<and> length ''/b'' < 16 \<and>
     ioh_path_normalize ''/b'' 16 = Inr ''/b''"
proof (rule path_normalize_safe)
  show "ioh_path_normalize ''/a/..//./b/'' 16 = Inr ''/b''" by code_simp
qed

text \<open>C20: dispatch rejects unsafe paths before any lookup: whatever the routes are, a result other
  than \<open>no_match\<close> is only given for a path without a NUL byte, without an encoded NUL, and which
  normalizes to a safe path.\<close>

theorem dispatch_rejects_unsafe_paths:
  assumes "ioh_router_dispatch r mth path \<noteq> no_match"
  shows "nul \<notin> set path \<and> \<not> sublist ''%00'' path \<and>
    (\<exists>segs. ioh_path_normalize path IOH_MAX_URI_SIZE = Inr (render_path segs) \<and> (\<forall>s\<in>set segs. clean_segment s))"
proof (cases "ioh_path_normalize path IOH_MAX_URI_SIZE")
  case (Inl e)
  then show ?thesis using assms by (simp add: ioh_router_dispatch_def)
next
  case (Inr p)
  then have "nul \<notin> set path" by (auto simp: ioh_path_normalize_def split: if_splits)
  moreover obtain segs where "p = render_path segs" "\<forall>s\<in>set segs. clean_segment s"
    using normalize_shape [OF Inr] by blast
  moreover have "\<not> sublist ''%00'' path" using assms by (auto simp: ioh_router_dispatch_def encoded_null_iff)
  ultimately show ?thesis using Inr by blast
qed

theorem dispatch_rejects_unsafe_paths_witness:
  "nul \<notin> set ''/u/me'' \<and> \<not> sublist ''%00'' ''/u/me'' \<and>
    (\<exists>segs. ioh_path_normalize ''/u/me'' IOH_MAX_URI_SIZE = Inr (render_path segs) \<and> (\<forall>s\<in>set segs. clean_segment s))"
proof (rule dispatch_rejects_unsafe_paths)
  have l: "lookup_tree example_router 0 ''/u/me'' = Some (route_match (stored 3 None) [])" by code_simp
  have "m_status (take_match no_match (route_match (stored (3::nat) (None :: unit ioh_route_opts option)) [])) \<noteq>
      IOH_MATCH_NOT_FOUND"
    by (simp add: take_match_status route_match_def param_bytes_def)
  then have "m_status (ioh_router_dispatch example_router IOH_METHOD_GET ''/u/me'') \<noteq> IOH_MATCH_NOT_FOUND"
    using dispatch_unfold [OF example_normal, of example_router IOH_METHOD_GET]
    by (simp add: l ROUTER_METHOD_COUNT_def)
  then show "ioh_router_dispatch example_router IOH_METHOD_GET ''/u/me'' \<noteq> no_match" by auto
qed

text \<open>C29: a 405 answer lists the right methods.  For a path that matches neither the request's own
  tree nor, for HEAD, the GET tree, and that is not redirected, the status is 405 exactly when some
  other method's tree matches, and the list holds the names of exactly those methods, in the order
  of the enumeration, separated by a comma and a blank, never cut off by the 128 byte buffer.\<close>

theorem dispatch_allowed_methods:
  assumes "ioh_path_normalize path IOH_MAX_URI_SIZE = Inr p" and "\<not> sublist ''%00'' path"
    and "length path \<le> 1 \<or> last path \<noteq> slash"
    and "method_index mth < ROUTER_METHOD_COUNT \<longrightarrow> lookup_tree r (method_index mth) p = None"
    and "mth = IOH_METHOD_HEAD \<longrightarrow> lookup_tree r 0 p = None"
  shows "ioh_router_dispatch r mth path =
     no_match\<lparr>m_status := if other_methods r mth p 9 \<noteq> [] then IOH_MATCH_METHOD_NOT_ALLOWED
                             else IOH_MATCH_NOT_FOUND,
       m_allowed_methods := join_comma (map method_of_index (other_methods r mth p 9))\<rparr>"
proof -
  have "\<not> path_has_encoded_null path" by (simp add: encoded_null_iff assms(2))
  note eq = dispatch_unfold [OF assms(1) this, of r mth]
  have "(if method_index mth < ROUTER_METHOD_COUNT then lookup_tree r (method_index mth) p else None) = None"
    "(if mth = IOH_METHOD_HEAD then lookup_tree r 0 p else None) = None"
    "((length path > 1 \<and> last path = slash) \<and> (\<exists>i<ROUTER_METHOD_COUNT. lookup_tree r i p \<noteq> None)) = False"
    using assms(3-5) by auto
  then show ?thesis unfolding eq by (simp only: option.case if_False) (simp split del: if_split)
qed

theorem dispatch_allowed_methods_witness:
  "ioh_router_dispatch example_router IOH_METHOD_PUT ''/u/me'' =
     no_match\<lparr>m_status := IOH_MATCH_METHOD_NOT_ALLOWED, m_allowed_methods := ''GET, POST''\<rparr>"
proof -
  have "lookup_tree example_router 2 ''/u/me'' = None" by code_simp
  moreover have "other_methods example_router IOH_METHOD_PUT ''/u/me'' 9 = [0, 1]" by code_simp
  moreover have "join_comma (map method_of_index [0, 1]) = ''GET, POST''" by code_simp
  ultimately show ?thesis
    using dispatch_allowed_methods [OF example_normal, of IOH_METHOD_PUT example_router] by (simp add: sublist_Cons_right)
qed

text \<open>C30: a path with a trailing slash is redirected exactly when its normal form matches in some
  method's tree, and the redirect goes to that normal form, which has no trailing slash.\<close>

theorem dispatch_redirects_trailing_slash:
  assumes "ioh_path_normalize path IOH_MAX_URI_SIZE = Inr p" and "\<not> sublist ''%00'' path"
  shows "(m_status (ioh_router_dispatch r mth path) = IOH_MATCH_REDIRECT \<longleftrightarrow>
       length path > 1 \<and> last path = slash \<and> (\<exists>i<ROUTER_METHOD_COUNT. lookup_tree r i p \<noteq> None)) \<and>
     (m_status (ioh_router_dispatch r mth path) = IOH_MATCH_REDIRECT \<longrightarrow>
       m_redirect_path (ioh_router_dispatch r mth path) = p \<and> (length p > 1 \<longrightarrow> last p \<noteq> slash))"
proof -
  have enc: "\<not> path_has_encoded_null path" by (simp add: encoded_null_iff assms(2))
  obtain segs where "p = render_path segs" "\<forall>s\<in>set segs. clean_segment s"
    using normalize_shape [OF assms(1)] by blast
  then have "length p > 1 \<longrightarrow> last p \<noteq> slash" using render_path_no_trailing by blast
  then show ?thesis
    unfolding dispatch_unfold [OF assms(1) enc, of r mth]
    by (simp add: no_match_status take_match_status split: option.split)
qed


theorem dispatch_redirects_trailing_slash_witness:
  "m_status (ioh_router_dispatch example_router IOH_METHOD_PUT ''/u/me/'') = IOH_MATCH_REDIRECT"
proof -
  have "resolve [] (path_segments ''/u/me/'') = Some [''me'', ''u'']" by code_simp
  then have p: "ioh_path_normalize ''/u/me/'' IOH_MAX_URI_SIZE = Inr ''/u/me''"
    by (simp add: normalize_eq_spec normalize_spec_def render_path_def join_segments_def IOH_MAX_URI_SIZE_def)
  have "lookup_tree example_router 0 ''/u/me'' \<noteq> None" by code_simp
  then have "\<exists>i<ROUTER_METHOD_COUNT. lookup_tree example_router i ''/u/me'' \<noteq> None"
    by (intro exI [of _ 0]) (simp add: ROUTER_METHOD_COUNT_def)
  then show ?thesis
    using dispatch_redirects_trailing_slash [OF p, of example_router IOH_METHOD_PUT] by (simp add: sublist_Cons_right)
qed

text \<open>The two lookups of an accepted route through the whole dispatch.\<close>

lemma dispatch_own_tree:
  assumes "\<forall>s\<in>set segs. clean_segment s" and "length segs \<le> 256" and "length (render_path segs) < IOH_MAX_URI_SIZE"
    and "\<not> sublist ''%00'' (render_path segs)" and "method_index m < ROUTER_METHOD_COUNT"
    and "rt_trees r ! method_index m = Some t" and "ioh_radix_lookup t (render_path segs) = Inr rm"
    and "param_bytes (rm_params rm) \<le> IOH_MAX_PARAM_STORAGE"
  shows "ioh_router_dispatch r m (render_path segs) = found_match rm"
proof -
  have enc: "\<not> path_has_encoded_null (render_path segs)" by (simp add: encoded_null_iff assms(4))
  have "lookup_tree r (method_index m) (render_path segs) = Some rm"
    by (simp add: lookup_tree_def assms(6,7))
  then show ?thesis
    unfolding dispatch_unfold [OF normalize_clean [OF assms(1-3)] enc, of r m]
    using render_path_no_trailing [OF assms(1)] assms(5) take_match_ok [OF assms(8)] by auto
qed

lemma dispatch_static_route:
  assumes "register router_ins ioh_router_create xs = (r, acc)"
    and "((m, join_segments segs), (h, opts)) \<in> set acc"
    and "segs \<noteq> []" and "\<forall>s\<in>set segs. literal_segment s" and "length segs \<le> 256"
    and "length (join_segments segs) < IOH_MAX_URI_SIZE" and "\<not> sublist ''%00'' (join_segments segs)"
  shows "ioh_router_dispatch r m (join_segments segs) = found_match (route_match (stored h opts) [])"
proof -
  note reg = router_registered [OF assms(1,2)]
  have rp: "render_path segs = join_segments segs" using assms(3) by (simp add: render_path_def)
  have "ioh_radix_lookup (tree_at r (method_index m)) (join_segments segs) = Inr (route_match (stored h opts) [])"
    using radix_lookup_static_route [OF tree_at_wf [OF reg(1,2)] reg(3,4) assms(3)] assms(4)
    by (simp add: literal_segment_def)
  then show ?thesis
    using dispatch_own_tree [of segs m r "tree_at r (method_index m)" "route_match (stored h opts) []"] assms(4-7) reg(2,5)
    by (simp add: rp literal_segment_def route_match_def param_bytes_def)
qed

text \<open>C15: a registered static route is dispatched to its own handler.  After any sequence of
  registrations on any methods, a request whose method and path are those of an accepted pattern of
  literal segments gets status FOUND with exactly the handler, the options and the metadata of that
  registration and no path parameters.\<close>

theorem router_static_end_to_end:
  assumes "register router_ins ioh_router_create xs = (r, acc)"
    and "((m, join_segments segs), (h, opts)) \<in> set acc"
    and "segs \<noteq> []" and "\<forall>s\<in>set segs. literal_segment s" and "length segs \<le> 256"
    and "length (join_segments segs) < IOH_MAX_URI_SIZE" and "\<not> sublist ''%00'' (join_segments segs)"
  shows "ioh_router_dispatch r m (join_segments segs) = found_match (route_match (stored h opts) [])"
  using assms by (rule dispatch_static_route)

theorem router_static_end_to_end_witness:
  "ioh_router_dispatch example_router IOH_METHOD_GET ''/u/me'' = found_match (route_match (stored 3 None) [])"
  using router_static_end_to_end [OF example_router_register, of IOH_METHOD_GET "[''u'', ''me'']" 3 None]
  by (simp add: example_registrations_def join_segments_def literal_segment_def clean_segment_def
      static_segment_def IOH_MAX_URI_SIZE_def sublist_Cons_right)



end
