(* ===== verification/Route_Group.thy ===== *)
theory Route_Group
  imports Router_Dispatch Middleware
begin

text \<open>
  Route groups, \<^verbatim>\<open>src/router/ioh_route_group.c\<close>, with their router.  A group is its index in the list of the groups, so that
  the parent of a group is an index as well.  Allocation succeeds.
\<close>

definition IOH_MAX_GROUP_PREFIX :: nat where "IOH_MAX_GROUP_PREFIX = 256"

record 'w ioh_group =
  gp_parent :: "nat option"
  gp_prefix :: string
  gp_middleware :: "'w list"
  gp_subgroups :: "nat list"

record ('h, 'm, 'w, 'e) grouped_router =
  gr_router :: "('h, 'm, 'w, 'e) ioh_router"
  gr_groups :: "'w ioh_group list"

definition build_full_path :: "'w ioh_group \<Rightarrow> string \<Rightarrow> nat \<Rightarrow> errno + string" where
  "build_full_path g pattern out_size =
     (let full = gp_prefix g @ cstr pattern in if length full \<ge> out_size then Inl EINVAL else Inr full)"

definition group_add_subgroup :: "'w ioh_group \<Rightarrow> nat \<Rightarrow> 'w ioh_group" where
  "group_add_subgroup parent child = parent\<lparr>gp_subgroups := gp_subgroups parent @ [child]\<rparr>"

definition ioh_router_group ::
  "('h, 'm, 'w, 'e) grouped_router \<Rightarrow> string \<Rightarrow> nat option \<times> ('h, 'm, 'w, 'e) grouped_router" where
  "ioh_router_group r prefix_arg =
     (let pre = cstr prefix_arg; g = length (gr_groups r)
      in if pre = [] \<or> length pre \<ge> IOH_MAX_GROUP_PREFIX then (None, r)
         else (Some g, r\<lparr>gr_router := snd (ioh_router_own_group (gr_router r) g),
                 gr_groups := gr_groups r @ [\<lparr>gp_parent = None, gp_prefix = pre, gp_middleware = [], gp_subgroups = []\<rparr>]\<rparr>))"

definition ioh_group_subgroup ::
  "('h, 'm, 'w, 'e) grouped_router \<Rightarrow> nat \<Rightarrow> string \<Rightarrow> nat option \<times> ('h, 'm, 'w, 'e) grouped_router" where
  "ioh_group_subgroup r g prefix_arg =
     (let pre = cstr prefix_arg; parent = gr_groups r ! g; sub = length (gr_groups r)
      in if pre = [] \<or> length (gp_prefix parent) + length pre \<ge> IOH_MAX_GROUP_PREFIX then (None, r)
         else (Some sub, r\<lparr>gr_groups := (gr_groups r)[g := group_add_subgroup parent sub] @
                 [\<lparr>gp_parent = Some g, gp_prefix = gp_prefix parent @ pre, gp_middleware = [], gp_subgroups = []\<rparr>]\<rparr>))"

text \<open>The common body of the registration functions.\<close>

definition group_handle ::
  "('h, 'm, 'w, 'e) grouped_router \<Rightarrow> nat \<Rightarrow> ioh_method \<Rightarrow> string \<Rightarrow> 'h option \<Rightarrow> 'm ioh_route_opts option \<Rightarrow>
   (unit, ('h, 'm, 'w, 'e) grouped_router) outcome" where
  "group_handle r g m pattern h opts =
     (if h = None then (Inl EINVAL, r)
      else case build_full_path (gr_groups r ! g) pattern (IOH_MAX_GROUP_PREFIX + IOH_MAX_URI_SIZE) of
             Inl e \<Rightarrow> (Inl e, r)
           | Inr full \<Rightarrow> map_prod id (\<lambda>router. r\<lparr>gr_router := router\<rparr>) (ioh_router_handle_with (gr_router r) m full h opts))"

definition ioh_group_get where "ioh_group_get r g pattern h = group_handle r g IOH_METHOD_GET pattern h None"
definition ioh_group_post where "ioh_group_post r g pattern h = group_handle r g IOH_METHOD_POST pattern h None"
definition ioh_group_put where "ioh_group_put r g pattern h = group_handle r g IOH_METHOD_PUT pattern h None"
definition ioh_group_delete where "ioh_group_delete r g pattern h = group_handle r g IOH_METHOD_DELETE pattern h None"
definition ioh_group_patch where "ioh_group_patch r g pattern h = group_handle r g IOH_METHOD_PATCH pattern h None"
definition ioh_group_get_with where "ioh_group_get_with r g pattern h opts = group_handle r g IOH_METHOD_GET pattern h opts"

definition ioh_group_use ::
  "('h, 'm, 'w, 'e) grouped_router \<Rightarrow> nat \<Rightarrow> 'w option \<Rightarrow> (unit, ('h, 'm, 'w, 'e) grouped_router) outcome" where
  "ioh_group_use r g mw =
     (case mw of
        None \<Rightarrow> (Inl EINVAL, r)
      | Some w \<Rightarrow>
          (let group = gr_groups r ! g
           in if length (gp_middleware group) \<ge> IOH_MAX_GROUP_MIDDLEWARE then (Inl ENOSPC, r)
              else (Inr (), r\<lparr>gr_groups := (gr_groups r)[g := group\<lparr>gp_middleware := gp_middleware group @ [w]\<rparr>]\<rparr>)))"

definition ioh_group_middleware_at :: "'w ioh_group \<Rightarrow> nat \<Rightarrow> 'w option" where
  "ioh_group_middleware_at g idx = (if idx \<ge> length (gp_middleware g) then None else Some (gp_middleware g ! idx))"

subsection \<open>Lemmas\<close>

text \<open>Dispatch and registration look at the trees of a router only.\<close>

lemma dispatch_trees:
  assumes "rt_trees r' = rt_trees r"
  shows "ioh_router_dispatch r' m p = ioh_router_dispatch r m p"
proof -
  have "lookup_tree r' = lookup_tree r" using assms by (intro ext) (simp add: lookup_tree_def)
  moreover from this have "allowed_step r' = allowed_step r" by (intro ext) (simp add: allowed_step_def split_beta)
  ultimately show ?thesis unfolding ioh_router_dispatch_def by (simp only:)
qed

lemma router_ins_trees:
  assumes "rt_trees r' = rt_trees r"
  shows "fst (router_ins r' k v) = fst (router_ins r k v)" and "rt_trees (snd (router_ins r' k v)) = rt_trees (snd (router_ins r k v))"
  using assms by (simp_all add: router_ins_def ioh_router_handle_with_def router_add_route_def Let_def split_beta)

text \<open>A sequence of calls on a router and its groups, with the registrations that were accepted under their full paths.\<close>

datatype ('h, 'm, 'w) group_call =
    New_Group string | New_Subgroup nat string | Add_Route nat ioh_method string 'h "'m ioh_route_opts option" | Use_Middleware nat 'w

fun group_calls ::
  "('h, 'm, 'w, 'e) grouped_router \<Rightarrow> ('h, 'm, 'w) group_call list \<Rightarrow>
   ('h, 'm, 'w, 'e) grouped_router \<times> ((ioh_method \<times> string) \<times> 'h \<times> 'm ioh_route_opts option) list" where
  "group_calls r [] = (r, [])"
| "group_calls r (New_Group p # xs) = group_calls (snd (ioh_router_group r p)) xs"
| "group_calls r (New_Subgroup g p # xs) = group_calls (snd (ioh_group_subgroup r g p)) xs"
| "group_calls r (Use_Middleware g w # xs) = group_calls (snd (ioh_group_use r g (Some w))) xs"
| "group_calls r (Add_Route g m pattern h opts # xs) =
     (case group_handle r g m pattern (Some h) opts of
        (Inr _, r') \<Rightarrow> map_prod id (Cons ((m, gp_prefix (gr_groups r ! g) @ cstr pattern), (h, opts))) (group_calls r' xs)
      | (Inl _, r') \<Rightarrow> group_calls r' xs)"

lemma group_calls_flat:
  fixes r0 :: "('h, 'm, 'w, 'e) ioh_router" and r :: "('h, 'm, 'w, 'e) grouped_router"
  assumes "rt_trees r0 = rt_trees (gr_router r)" and "group_calls r calls = (r', acc)"
  shows "\<exists>xs r1. register router_ins r0 xs = (r1, acc) \<and> rt_trees r1 = rt_trees (gr_router r')"
  using assms
proof (induction r calls arbitrary: r0 acc rule: group_calls.induct)
  case (1 r)
  then show ?case by (intro exI [of _ "[]"]) simp
next
  case (2 r p xs)
  then show ?case by (simp add: ioh_router_group_def ioh_router_own_group_def Let_def split: if_splits)
next
  case (3 r g p xs)
  then show ?case by (simp add: ioh_group_subgroup_def Let_def split: if_splits)
next
  case (4 r g w xs)
  then show ?case by (simp add: ioh_group_use_def Let_def split: if_splits)
next
  case (5 r g m pattern h opts xs)
  let ?full = "gp_prefix (gr_groups r ! g) @ cstr pattern"
  show ?case
  proof (cases "length ?full \<ge> IOH_MAX_GROUP_PREFIX + IOH_MAX_URI_SIZE")
    case True
    then have "group_handle r g m pattern (Some h) opts = (Inl EINVAL, r)" by (simp add: group_handle_def build_full_path_def Let_def)
    with 5 show ?thesis by simp
  next
    case False
    let ?ins = "router_ins (gr_router r) (m, ?full) (h, opts)" and ?flat = "router_ins r0 (m, ?full) (h, opts)"
    have h: "group_handle r g m pattern (Some h) opts = (fst ?ins, r\<lparr>gr_router := snd ?ins\<rparr>)"
      using False by (simp add: group_handle_def build_full_path_def router_ins_def Let_def map_prod_def split_beta)
    have t: "fst ?flat = fst ?ins" "rt_trees (snd ?flat) = rt_trees (snd ?ins)" using router_ins_trees [OF 5(3)] by auto
    show ?thesis
    proof (cases "fst ?ins")
      case (Inl e)
      then obtain ys r1 where "register router_ins (snd ?flat) ys = (r1, acc) \<and> rt_trees r1 = rt_trees (gr_router r')"
        using 5(1) [OF h [symmetric], of e "snd ?flat" acc] 5(4) t(2) h by auto
      then show ?thesis using Inl t(1)
        by (intro exI [of _ "((m, ?full), (h, opts)) # ys"] exI [of _ r1]) (simp add: split_beta split: sum.splits)
    next
      case (Inr u)
      obtain acc' where acc: "group_calls (r\<lparr>gr_router := snd ?ins\<rparr>) xs = (r', acc')" "acc = ((m, ?full), (h, opts)) # acc'"
        using 5(4) h Inr by (auto simp: map_prod_def split: prod.splits)
      then obtain ys r1 where "register router_ins (snd ?flat) ys = (r1, acc') \<and> rt_trees r1 = rt_trees (gr_router r')"
        using 5(2) [OF h [symmetric], of u "snd ?flat" acc'] t(2) Inr by auto
      then show ?thesis using Inr t(1) acc(2)
        by (intro exI [of _ "((m, ?full), (h, opts)) # ys"] exI [of _ r1]) (simp add: split_beta split: sum.splits)
    qed
  qed
qed

subsection \<open>Properties\<close>


definition example_groups :: "(nat, unit, unit) group_call list" where
  "example_groups = [New_Group ''/api'', New_Subgroup 0 ''/v1'', Use_Middleware 0 (), Add_Route 1 IOH_METHOD_GET ''/u'' 7 None]"


end
