(* ===== verification/Vhost.thy ===== *)
theory Vhost
  imports Router_Dispatch
begin

text \<open>Virtual hosts, \<^verbatim>\<open>src/router/ioh_vhost.c\<close>: the router of a request is chosen by its \<^verbatim>\<open>Host\<close> header.\<close>

definition IOH_VHOST_MAX_HOSTS :: nat where "IOH_VHOST_MAX_HOSTS = 32"

record 'r ioh_vhost_entry =
  ve_host :: string
  ve_is_wildcard :: bool
  ve_router :: 'r

record 'r ioh_vhost =
  vh_entries :: "'r ioh_vhost_entry list"
  vh_default_router :: "'r option"

definition ioh_vhost_create :: "'r ioh_vhost" where
  "ioh_vhost_create = \<lparr>vh_entries = [], vh_default_router = None\<rparr>"

definition starts_wild :: "string \<Rightarrow> bool" where
  "starts_wild host \<longleftrightarrow> length host \<ge> 2 \<and> host ! 0 = CHR ''*'' \<and> host ! 1 = CHR ''.''"

definition ioh_vhost_add :: "'r ioh_vhost \<Rightarrow> string \<Rightarrow> 'r \<Rightarrow> (unit, 'r ioh_vhost) outcome" where
  "ioh_vhost_add v host router =
     (if length (vh_entries v) \<ge> IOH_VHOST_MAX_HOSTS then (Inl ENOSPC, v)
      else
        (let host = take 256 (cstr host)
         in if host = [] \<or> length host \<ge> 256 then (Inl EINVAL, v)
            else (Inr (), v\<lparr>vh_entries := vh_entries v @ [\<lparr>ve_host = host, ve_is_wildcard = starts_wild host, ve_router = router\<rparr>]\<rparr>)))"

definition ioh_vhost_set_default :: "'r ioh_vhost \<Rightarrow> 'r option \<Rightarrow> 'r ioh_vhost" where
  "ioh_vhost_set_default v router = v\<lparr>vh_default_router := router\<rparr>"

text \<open>The length of the host without its port.\<close>

definition strip_port :: "string \<Rightarrow> nat" where
  "strip_port host =
     (if host = [] then 0
      else if hd host = CHR ''['' then
        (let n = length (takeWhile (\<lambda>c. c \<noteq> CHR '']'') host) in if n < length host then n + 1 else length host)
      else
        (let m = length (takeWhile (\<lambda>c. c \<noteq> CHR '':'') (rev host))
         in if m < length host then length host - m - 1 else length host))"

definition wildcard_match :: "string \<Rightarrow> string \<Rightarrow> bool" where
  "wildcard_match pattern host =
     (let tail = tl pattern
      in if length host \<le> length tail then False
         else ci_eq (drop (length host - length tail) host) tail)"

definition vhost_router :: "'r ioh_vhost \<Rightarrow> string option \<Rightarrow> 'r option" where
  "vhost_router v host =
     (let matched =
        (case host of
           None \<Rightarrow> None
         | Some host \<Rightarrow>
             (let host = take 256 (cstr host); host = take (strip_port host) host
              in case find (\<lambda>e. \<not> ve_is_wildcard e \<and> length (ve_host e) = length host \<and> ci_eq (ve_host e) host) (vh_entries v) of
                   Some e \<Rightarrow> Some (ve_router e)
                 | None \<Rightarrow>
                     map_option ve_router (find (\<lambda>e. ve_is_wildcard e \<and> wildcard_match (ve_host e) host) (vh_entries v))))
      in case matched of Some r \<Rightarrow> Some r | None \<Rightarrow> vh_default_router v)"

definition ioh_vhost_dispatch ::
  "('h, 'm, 'w, 'e) ioh_router ioh_vhost \<Rightarrow> ioh_method \<Rightarrow> string option \<Rightarrow> string \<Rightarrow> ('h, 'm) ioh_route_match" where
  "ioh_vhost_dispatch v m host path =
     (case vhost_router v host of None \<Rightarrow> no_match | Some router \<Rightarrow> ioh_router_dispatch router m path)"

subsection \<open>Lemmas\<close>

text \<open>A wild card stands for at least one character in front of its suffix.\<close>

lemma wildcard_match_iff:
  assumes "pattern = CHR ''*'' # tail"
  shows "wildcard_match pattern host \<longleftrightarrow> (\<exists>label rest. host = label @ rest \<and> label \<noteq> [] \<and> ci_eq rest tail)"
proof
  assume w: "wildcard_match pattern host"
  then have "length tail < length host" "ci_eq (drop (length host - length tail) host) tail"
    by (auto simp: wildcard_match_def assms Let_def split: if_splits)
  then show "\<exists>label rest. host = label @ rest \<and> label \<noteq> [] \<and> ci_eq rest tail"
    by (intro exI [of _ "take (length host - length tail) host"] exI [of _ "drop (length host - length tail) host"]) auto
next
  assume "\<exists>label rest. host = label @ rest \<and> label \<noteq> [] \<and> ci_eq rest tail"
  then obtain label rest where h: "host = label @ rest" "label \<noteq> []" "ci_eq rest tail" by blast
  moreover have "length rest = length tail" using h(3) by (rule ci_eq_length)
  ultimately show "wildcard_match pattern host" by (simp add: wildcard_match_def assms Let_def)
qed

lemma wildcard_match_starts_wild:
  assumes "starts_wild pattern"
  shows "wildcard_match pattern host \<longleftrightarrow> (\<exists>label rest. host = label @ rest \<and> label \<noteq> [] \<and> ci_eq rest (tl pattern))"
  using assms by (intro wildcard_match_iff) (cases pattern; simp add: starts_wild_def)

lemma strip_port_name:
  assumes "name \<noteq> []" and "hd name \<noteq> CHR ''[''" and "CHR '':'' \<notin> set name"
    and "port = [] \<or> (\<exists>p. port = CHR '':'' # p \<and> CHR '':'' \<notin> set p)"
  shows "take (strip_port (name @ port)) (name @ port) = name"
  using assms(4)
proof
  assume p: "port = []"
  have "takeWhile (\<lambda>c. c \<noteq> CHR '':'') (rev name) = rev name" using assms(3) by (auto simp: takeWhile_eq_all_conv)
  then show ?thesis using assms(1,2) p by (simp add: strip_port_def Let_def del: takeWhile_eq_all_conv)
next
  assume "\<exists>p. port = CHR '':'' # p \<and> CHR '':'' \<notin> set p"
  then obtain p where p: "port = CHR '':'' # p" "CHR '':'' \<notin> set p" by blast
  then have "takeWhile (\<lambda>c. c \<noteq> CHR '':'') (rev (name @ port)) = rev p" by (simp add: takeWhile_append_delim)
  then show ?thesis using assms(1,2) p(1) by (simp add: strip_port_def Let_def)
qed

text \<open>The table a sequence of accepted registrations builds.\<close>

definition host_entry :: "string \<times> 'r \<Rightarrow> 'r ioh_vhost_entry" where
  "host_entry hr = \<lparr>ve_host = fst hr, ve_is_wildcard = starts_wild (fst hr), ve_router = snd hr\<rparr>"

lemma vhost_add_entries:
  assumes "length (vh_entries v) + length hosts \<le> IOH_VHOST_MAX_HOSTS"
    and "\<forall>(h, r)\<in>set hosts. h \<noteq> [] \<and> nul \<notin> set h \<and> length h < 256"
  shows "foldl (\<lambda>v (h, r). snd (ioh_vhost_add v h r)) v hosts = v\<lparr>vh_entries := vh_entries v @ map host_entry hosts\<rparr>"
  using assms
proof (induction hosts arbitrary: v)
  case (Cons x hosts)
  obtain h r where x: "x = (h, r)" by (cases x)
  have "snd (ioh_vhost_add v h r) = v\<lparr>vh_entries := vh_entries v @ [host_entry (h, r)]\<rparr>"
    using Cons.prems x by (simp add: ioh_vhost_add_def host_entry_def Let_def)
  with Cons x show ?case by simp
qed simp

lemma find_map_entry: "find P (map host_entry xs) = map_option host_entry (find (\<lambda>x. P (host_entry x)) xs)"
  by (induction xs) simp_all

subsection \<open>Properties\<close>

text \<open>C28: A request goes to the router of its host.  With any table of up to 32 registered host patterns, a request whose host is a name with
  an optional port is dispatched by the first router registered under exactly this name, in any capitalisation; otherwise by the first one
  registered under a wild card whose suffix ends the name with at least one character before it; otherwise by the default router.
\<close>

theorem vhost_routes_by_host:
  assumes "length hosts \<le> IOH_VHOST_MAX_HOSTS" and "\<forall>(h, r)\<in>set hosts. h \<noteq> [] \<and> nul \<notin> set h \<and> length h < 256"
    and "v = ioh_vhost_set_default (foldl (\<lambda>v (h, r). snd (ioh_vhost_add v h r)) ioh_vhost_create hosts) default_router"
    and "name \<noteq> []" and "hd name \<noteq> CHR ''[''" and "CHR '':'' \<notin> set name"
    and "port = [] \<or> (\<exists>p. port = CHR '':'' # p \<and> CHR '':'' \<notin> set p)"
    and "nul \<notin> set (name @ port)" and "length (name @ port) \<le> 256"
  shows "ioh_vhost_dispatch v m (Some (name @ port)) path =
    (case find (\<lambda>(h, r). \<not> starts_wild h \<and> ci_eq h name) hosts of
       Some (_, r) \<Rightarrow> ioh_router_dispatch r m path
     | None \<Rightarrow>
         (case find (\<lambda>(h, r). starts_wild h \<and> (\<exists>label rest. name = label @ rest \<and> label \<noteq> [] \<and> ci_eq rest (tl h))) hosts of
            Some (_, r) \<Rightarrow> ioh_router_dispatch r m path
          | None \<Rightarrow> (case default_router of None \<Rightarrow> no_match | Some r \<Rightarrow> ioh_router_dispatch r m path)))"
proof -
  have v: "v = \<lparr>vh_entries = map host_entry hosts, vh_default_router = default_router\<rparr>"
    using vhost_add_entries [of ioh_vhost_create hosts] assms(1-3) by (simp add: ioh_vhost_create_def ioh_vhost_set_default_def)
  have host: "take (strip_port (take 256 (cstr (name @ port)))) (take 256 (cstr (name @ port))) = name"
    using strip_port_name [OF assms(4-7)] assms(8,9) by simp
  have exact: "(\<lambda>x. \<not> ve_is_wildcard (host_entry x) \<and> length (ve_host (host_entry x)) = length name \<and> ci_eq (ve_host (host_entry x)) name) =
      (\<lambda>(h, r). \<not> starts_wild h \<and> ci_eq h name)"
    using ci_eq_length by (fastforce simp: host_entry_def)
  have wild: "(\<lambda>x. ve_is_wildcard (host_entry x) \<and> wildcard_match (ve_host (host_entry x)) name) =
      (\<lambda>(h, r). starts_wild h \<and> (\<exists>label rest. name = label @ rest \<and> label \<noteq> [] \<and> ci_eq rest (tl h)))"
    by (rule ext) (clarsimp simp: host_entry_def wildcard_match_starts_wild cong: conj_cong)
  have "vhost_router v (Some (name @ port)) =
    (case find (\<lambda>(h, r). \<not> starts_wild h \<and> ci_eq h name) hosts of
       Some x \<Rightarrow> Some (snd x)
     | None \<Rightarrow>
         (case find (\<lambda>(h, r). starts_wild h \<and> (\<exists>label rest. name = label @ rest \<and> label \<noteq> [] \<and> ci_eq rest (tl h))) hosts of
            Some x \<Rightarrow> Some (snd x)
          | None \<Rightarrow> default_router))"
    unfolding vhost_router_def option.case Let_def host find_map_entry v ioh_vhost.simps exact wild
    by (simp add: host_entry_def split: option.splits)
  then show ?thesis by (simp add: ioh_vhost_dispatch_def case_prod_beta split: option.splits)
qed

text \<open>The port is dropped, the capitalisation ignored, and a sub-domain served by the wild card.\<close>

definition sub_router :: "(nat, unit, unit, unit) ioh_router" where
  "sub_router = fst (register router_ins ioh_router_create [((IOH_METHOD_GET, ''/u''), (7, None))])"

definition host_table :: "(string \<times> (nat, unit, unit, unit) ioh_router) list" where
  "host_table = [(''example.com'', ioh_router_create), (''*.Example.com'', sub_router)]"

theorem vhost_routes_by_host_witness:
  "ioh_vhost_dispatch
     (ioh_vhost_set_default (foldl (\<lambda>v (h, r). snd (ioh_vhost_add v h r)) ioh_vhost_create host_table) None)
     IOH_METHOD_GET (Some ''api.eXample.com:8080'') ''/u'' = ioh_router_dispatch sub_router IOH_METHOD_GET ''/u''"
proof -
  let ?v = "ioh_vhost_set_default (foldl (\<lambda>v (h, r). snd (ioh_vhost_add v h r)) ioh_vhost_create host_table) None"
  have label: "\<exists>label rest. ''api.eXample.com'' = label @ rest \<and> label \<noteq> [] \<and> ci_eq rest ''.Example.com''"
    by (rule exI [of _ "''api''"], rule exI [of _ "''.eXample.com''"]) (simp, code_simp)
  have facts: "\<not> ci_eq ''example.com'' ''api.eXample.com''" "\<not> starts_wild ''example.com''" "starts_wild ''*.Example.com''"
    by code_simp+
  have hosts: "length host_table \<le> IOH_VHOST_MAX_HOSTS" "\<forall>(h, r)\<in>set host_table. h \<noteq> [] \<and> nul \<notin> set h \<and> length h < 256"
    by (simp_all add: host_table_def IOH_VHOST_MAX_HOSTS_def)
  have exact: "find (\<lambda>(h, r). \<not> starts_wild h \<and> ci_eq h ''api.eXample.com'') host_table = None"
    using facts unfolding host_table_def find.simps case_prod_conv by (simp only: simp_thms if_False)
  have wild: "find (\<lambda>(h, r). starts_wild h \<and> (\<exists>label rest. ''api.eXample.com'' = label @ rest \<and> label \<noteq> [] \<and> ci_eq rest (tl h))) host_table =
      Some (''*.Example.com'', sub_router)"
    using facts label unfolding host_table_def find.simps case_prod_conv list.sel by (simp only: simp_thms if_False if_True)
  have "ioh_vhost_dispatch ?v IOH_METHOD_GET (Some (''api.eXample.com'' @ '':8080'')) ''/u'' = ioh_router_dispatch sub_router IOH_METHOD_GET ''/u''"
    by (subst vhost_routes_by_host [OF hosts refl, where name = "''api.eXample.com''" and port = "'':8080''"])
       (unfold exact wild, simp_all)
  then show ?thesis by simp
qed

end
