(* ===== verification/Spec2Isabelle.thy ===== *)
theory Spec2Isabelle
  imports Http1_Wire Bufpool Http_Filters Server_Answer Multipart Spa Sse Route_Group Vhost
begin

text \<open>
  Verification library for the iohttp server.
\<close>

section \<open>From the wire to the handler and back\<close>

text \<open>A live plaintext connection that waits for a request, in a world without failures.\<close>

definition conn_ready :: "('e, 's, 'h) world \<Rightarrow> ('e, 's, 'h, 'm) ioh_server \<Rightarrow> nat \<Rightarrow> bool" where
  "conn_ready w srv i \<longleftrightarrow>
     room w \<and> memory w \<and> responses_fit w srv \<and> ids_inv (sv_pool srv) \<and> i \<in> live_slots (sv_pool srv) \<and>
     idle True (conn_at srv i) \<and> c_state (conn_at srv i) = IOH_CONN_HTTP_ACTIVE \<and> c_recv (conn_at srv i) = [] \<and> \<not> sv_fault srv"

text \<open>The completion of a receive on that connection that brings a text.\<close>

definition receives :: "('e, 's, 'h, 'm) ioh_server \<Rightarrow> nat \<Rightarrow> string \<Rightarrow> srv_cqe \<Rightarrow> bool" where
  "receives srv i msg cqe \<longleftrightarrow>
     ce_ud cqe = conn_tag (conn_at srv i) IOH_OP_RECV \<and> ce_data cqe = msg \<and> ce_res cqe = int (length msg) \<and>
     length msg \<le> IOH_CONN_RECV_BUF_SIZE \<and> length msg \<le> unat (sg_max_header_size (sv_config srv))"

definition target :: "string \<Rightarrow> string option \<Rightarrow> string" where
  "target path query = path @ (case query of None \<Rightarrow> [] | Some q \<Rightarrow> CHR ''?'' # q)"

lemma split_target_target: "CHR ''?'' \<notin> set path \<Longrightarrow> split_target (target path query) = (path, query)"
proof -
  assume "CHR ''?'' \<notin> set path"
  then have "\<forall>c\<in>set path. c \<noteq> CHR ''?''" by auto
  then show ?thesis by (cases query) (simp_all add: split_target_def target_def dropWhile_append2 takeWhile_append2 dropWhile_eq_Nil_conv [THEN iffD2])
qed

lemma serve_found:
  assumes "sv_router srv = Some router" and "ioh_router_dispatch router (req_method (cx_req ctx)) (req_path (cx_req ctx)) = m"
    and "m_status m = IOH_MATCH_FOUND" and "m_handler m = Some h"
  shows "fst (serve_request w srv i ctx) =
    ioh_chain_execute (ctx\<lparr>cx_req := (cx_req ctx)\<lparr>req_params := m_params m\<rparr>\<rparr>) (map (w_middleware w) (rt_global_mw router)) [] (Some (w_handler w h))"
  using assms by (simp add: serve_request_def route_request_def Let_def)

lemma sent_response_transmitted:
  assumes "conn_ready w srv i" and "eff i srv c' [(Sqe_Send (c_fd (conn_at srv i)) out, conn_tag (conn_at srv i) IOH_OP_SEND)] srv'"
    and "c_id c' = c_id (conn_at srv i)" "c_fd c' = c_fd (conn_at srv i)" "c_state c' = IOH_CONN_HTTP_ACTIVE"
    and "c_send_buf c' = Some out" "c_send_len c' = length out" "c_send_offset c' = 0"
    and "0 \<notin> set ns" "sum_list ns = length out"
  shows "fst (transmit w srv' (conn_tag (conn_at srv i) IOH_OP_SEND) ns) = out"
proof -
  note ready = assms(1) [unfolded conn_ready_def] and f = eff_fields [OF assms(2)]
  have live: "slot_ok srv i" "i \<in> live_slots (sv_pool srv)" using ready live_slot_ok by auto
  have "ids_inv (sv_pool srv')" unfolding f(9) using ready live(2) assms(3,5) by (intro ids_inv_put) simp_all
  moreover have "i \<in> live_slots (sv_pool srv')" unfolding f(9) using live_slots_put [OF live(2), of c'] live(2) assms(5) by simp
  moreover have "conn_at srv' i = c'" by (rule eff_conn [OF live(1) assms(2)])
  moreover have tag: "conn_tag c' IOH_OP_SEND = conn_tag (conn_at srv i) IOH_OP_SEND" using assms(3) by simp
  ultimately have "fst (transmit w srv' (conn_tag c' IOH_OP_SEND) ns) = drop (c_send_offset c') out"
    using assms f(8) ready by (intro transmit_all) (simp_all add: conn_tag_def)
  with assms(8) show ?thesis unfolding tag by simp
qed


text \<open>A server with one route and one open connection, and a request for the route.\<close>

definition route_router :: "(unit, unit, unit, unit) ioh_router" where
  "route_router = fst (register router_ins ioh_router_create [((IOH_METHOD_GET, ''/u''), ((), None))])"

definition route_server :: "(unit, unit, unit, unit) ioh_server" where
  "route_server = example_server\<lparr>
     sv_router := Some (route_router\<lparr>rt_global_mw := [], rt_not_found_handler := Some (), rt_method_not_allowed_handler := Some ()\<rparr>),
     sv_pool := \<lparr>cp_conns = [free_conn\<lparr>c_fd := 5, c_state := IOH_CONN_HTTP_ACTIVE, c_id := 1, c_recv_buf_size := IOH_CONN_RECV_BUF_SIZE\<rparr>],
                 cp_active_count = 1, cp_next_id = 2\<rparr>\<rparr>"

definition route_request_text :: string where
  "route_request_text = print_request ''GET'' (target (join_segments [''u'']) (Some ''q'')) 1 [(''Host'', ''a'')]"

definition route_cqe :: srv_cqe where
  "route_cqe = \<lparr>ce_ud = conn_tag (conn_at route_server 0) IOH_OP_RECV, ce_res = int (length route_request_text), ce_more = False,
     ce_data = route_request_text, ce_after = [], ce_signo = 0\<rparr>"

lemma route_registered:
  "register router_ins ioh_router_create [((IOH_METHOD_GET, ''/u''), ((), None))] =
     (route_router, [((IOH_METHOD_GET, ''/u''), ((), None))])"
proof -
  have "snd (register router_ins (ioh_router_create :: (unit, unit, unit, unit) ioh_router) [((IOH_METHOD_GET, ''/u''), ((), None))]) =
      [((IOH_METHOD_GET, ''/u''), ((), None))]" by code_simp
  then show ?thesis unfolding route_router_def by (metis prod.collapse)
qed

lemma route_fits: "responses_fit example_world route_server"
proof -
  have "\<not> isl (ioh_http1_serialize_response example_response 8192)" by code_simp
  then show ?thesis
    by (simp add: responses_fit_def serve_request_def route_request_def route_server_def Let_def run_handler_def
        ioh_chain_execute_def example_world_def split: option.splits)
qed

lemma route_ready: "conn_ready example_world route_server 0"
  using example_room route_fits
  by (simp add: conn_ready_def route_server_def example_server_def ids_inv_def live_slots_def idle_iff free_conn_def)

lemma route_receives: "receives route_server 0 route_request_text route_cqe"
proof -
  have "length route_request_text \<le> 100" by code_simp
  then show ?thesis
    by (simp add: receives_def route_cqe_def route_server_def example_server_def example_server_config_def ioh_server_config_init_def
        IOH_CONN_RECV_BUF_SIZE_def)
qed


end
